(* ===== verification/Lind_Prelude.thy ===== *)
theory Lind_Prelude
  imports Main "HOL-Library.Word" "HOL-Library.Sublist"
begin

text \<open>
  Shared vocabulary of the development: the machine-integer types of the wasm32 target, the
  string helpers the sources take from the C++ standard library, sequencing of optional
  results over lists, the outcome of Rust code, and the collections of rewrite rules that the
  component theories fill.
\<close>

section \<open>Machine types\<close>

type_synonym u8 = "8 word"
type_synonym u32 = "32 word"
type_synonym u64 = "64 word"

text \<open>The bound on the numbers of cages.\<close>

definition MAX_CAGEID :: u64 where "MAX_CAGEID = 2048"

text \<open>What a Rust function does that may panic.\<close>

datatype 'a panics = Panic string | Returns 'a

named_theorems lind_defs
  "definitions unfolded to evaluate the model on a concrete input"
named_theorems tree_simps
  "rewrite rules on parameter trees"

section \<open>Strings\<close>

text \<open>\<open>std::to_string\<close> on an unsigned value, and on an \<open>int\<close>.\<close>

fun to_string :: "nat \<Rightarrow> string" where
  "to_string n =
     (if n < 10 then [char_of (48 + n)]
      else to_string (n div 10) @ [char_of (48 + n mod 10)])"

declare to_string.simps [simp del]

definition to_string_int :: "int \<Rightarrow> string" where
  "to_string_int i = (if i < 0 then ''-'' @ to_string (nat (- i)) else to_string (nat i))"

text \<open>The UTF-8 bytes of the dash the diagnostics of the sources contain.\<close>

definition dash :: string where
  "dash = [char_of (0xE2 :: nat), char_of (0x80 :: nat), char_of (0x94 :: nat)]"

text \<open>\<open>StringRef::consume_front\<close> and \<open>StringRef::consume_back\<close>: whether the affix was there, and
  what is left.\<close>

definition consume_front :: "string \<Rightarrow> string \<Rightarrow> bool \<times> string" where
  "consume_front p s = (if prefix p s then (True, drop (length p) s) else (False, s))"

definition consume_back :: "string \<Rightarrow> string \<Rightarrow> bool \<times> string" where
  "consume_back p s =
     (if suffix p s then (True, take (length s - length p) s) else (False, s))"

lemma to_string_nonempty [simp]: "to_string n \<noteq> []"
  by (subst to_string.simps) simp

lemma of_char_digit: "d < 10 \<Longrightarrow> of_char (char_of (48 + d :: nat)) = 48 + d"
  by simp

lemma to_string_digits: "c \<in> set (to_string n) \<Longrightarrow> 48 \<le> (of_char c :: nat) \<and> (of_char c :: nat) < 58"
proof (induction n rule: to_string.induct)
  case (1 n)
  show ?case
  proof (cases "n < 10")
    case True
    with "1.prems" show ?thesis by (subst (asm) to_string.simps) simp
  next
    case False
    with "1.prems" have "c \<in> set (to_string (n div 10)) \<or> c = char_of (48 + n mod 10)"
      by (subst (asm) to_string.simps) auto
    with "1.IH" [OF False] show ?thesis by auto
  qed
qed

lemma consume_front_append [simp]: "consume_front p (p @ s) = (True, s)"
  by (simp add: consume_front_def)

section \<open>Optional results over lists\<close>

fun omap :: "('a \<Rightarrow> 'b option) \<Rightarrow> 'a list \<Rightarrow> 'b list option" where
  "omap f [] = Some []"
| "omap f (x # xs) =
     (case f x of None \<Rightarrow> None
      | Some y \<Rightarrow> (case omap f xs of None \<Rightarrow> None | Some ys \<Rightarrow> Some (y # ys)))"

lemma omap_cong [fundef_cong]:
  "xs = ys \<Longrightarrow> (\<And>x. x \<in> set ys \<Longrightarrow> f x = g x) \<Longrightarrow> omap f xs = omap g ys"
proof (induction ys arbitrary: xs)
  case Nil
  then show ?case by simp
next
  case (Cons y ys)
  have "omap f ys = omap g ys" by (rule Cons.IH) (simp_all add: Cons.prems)
  moreover have "f y = g y" by (simp add: Cons.prems)
  ultimately show ?case by (simp only: Cons.prems omap.simps)
qed

lemma omap_SomeD: "omap f xs = Some ys \<Longrightarrow> list_all2 (\<lambda>x y. f x = Some y) xs ys"
  by (induction xs arbitrary: ys) (auto split: option.splits)

lemma omap_Some_length: "omap f xs = Some ys \<Longrightarrow> length ys = length xs"
  by (auto dest: omap_SomeD simp: list_all2_lengthD)

lemma omap_Some_set: "omap f xs = Some ys \<Longrightarrow> y \<in> set ys \<Longrightarrow> \<exists>x\<in>set xs. f x = Some y"
  by (induction xs arbitrary: ys) (auto split: option.splits)

lemma omap_map:
  "omap F xs = Some ys \<Longrightarrow> (\<And>x y. x \<in> set xs \<Longrightarrow> F x = Some y \<Longrightarrow> f y = h x) \<Longrightarrow> map f ys = map h xs"
  by (induction xs arbitrary: ys) (auto split: option.splits)

lemma omap_total: "(\<And>x. x \<in> set xs \<Longrightarrow> f x \<noteq> None) \<Longrightarrow> omap f xs \<noteq> None"
  by (induction xs) (auto split: option.splits)

section \<open>Words\<close>

lemma unat_ucast_up [simp]:
  "LENGTH('a) \<le> LENGTH('b) \<Longrightarrow> unat (ucast (w :: 'a::len word) :: 'b::len word) = unat w"
proof -
  assume le: "LENGTH('a) \<le> LENGTH('b)"
  have "unat w < 2 ^ LENGTH('a)" by simp
  also have "(2::nat) ^ LENGTH('a) \<le> 2 ^ LENGTH('b)" using le by (rule power_increasing) simp
  finally show ?thesis by (simp add: unsigned_ucast_eq take_bit_nat_eq_self)
qed

end
