(* ===== verification/ParamTree.thy ===== *)
theory ParamTree
  imports Lind_Prelude
begin

text \<open>
  The parameter trees of \<^verbatim>\<open>tools/marshal-infer/src/ParamTree.h\<close> and \<^verbatim>\<open>ParamTree.cpp\<close>: the node
  kinds, directions, size kinds and return kinds, the tree node and the per-function forest,
  and the builder that unfolds a DWARF type into a tree with a depth cap.

  The DWARF metadata is the input. LLVM hands it out as a graph of nodes that may be cyclic
  (a \<^verbatim>\<open>struct\<close> with a pointer to itself), so a type is a reference into a graph \<open>g\<close>: \<open>None\<close> is
  the null \<^verbatim>\<open>DIType*\<close>, that is \<^verbatim>\<open>void\<close>. The two loops that peel qualifiers do not return on a
  cycle of qualifiers; they are partial functions, and their callers pass the \<open>None\<close> on.
\<close>

section \<open>Enumerations\<close>

datatype NodeKind = NK_Scalar | NK_Pointer | NK_Struct | NK_Union | NK_Array | NK_Unknown

datatype Dir = Dir_NA | Dir_In | Dir_Out | Dir_InOut | Dir_Unknown

datatype SizeKind =
    SK_NA
  | SK_Const
  | SK_FromArg
  | SK_FromArgPointee
  | SK_Cstr
  | SK_PtrArray
  | SK_Unknown

datatype RetKind =
    RK_Void
  | RK_Scalar
  | RK_PtrAliasArg
  | RK_PtrIntoArg
  | RK_PtrIntoCursor
  | RK_PtrToStatic
  | RK_PtrAlloc
  | RK_Handle
  | RK_ForceLocal

fun nodeKindName :: "NodeKind \<Rightarrow> string" where
  "nodeKindName NK_Scalar = ''scalar''"
| "nodeKindName NK_Pointer = ''ptr''"
| "nodeKindName NK_Struct = ''struct''"
| "nodeKindName NK_Union = ''union''"
| "nodeKindName NK_Array = ''array''"
| "nodeKindName NK_Unknown = ''unknown''"

fun dirName :: "Dir \<Rightarrow> string" where
  "dirName Dir_NA = ''na''"
| "dirName Dir_In = ''in''"
| "dirName Dir_Out = ''out''"
| "dirName Dir_InOut = ''inout''"
| "dirName Dir_Unknown = ''unknown''"

fun sizeKindName :: "SizeKind \<Rightarrow> string" where
  "sizeKindName SK_NA = ''na''"
| "sizeKindName SK_Const = ''const''"
| "sizeKindName SK_FromArg = ''from_arg''"
| "sizeKindName SK_FromArgPointee = ''from_arg_pointee''"
| "sizeKindName SK_Cstr = ''cstr''"
| "sizeKindName SK_PtrArray = ''ptr_array''"
| "sizeKindName SK_Unknown = ''unknown''"

fun retKindName :: "RetKind \<Rightarrow> string" where
  "retKindName RK_Void = ''void''"
| "retKindName RK_Scalar = ''scalar''"
| "retKindName RK_PtrAliasArg = ''ptr_alias_arg''"
| "retKindName RK_PtrIntoArg = ''ptr_into_arg''"
| "retKindName RK_PtrIntoCursor = ''ptr_into_cursor''"
| "retKindName RK_PtrToStatic = ''ptr_to_static''"
| "retKindName RK_PtrAlloc = ''ptr_alloc''"
| "retKindName RK_Handle = ''handle''"
| "retKindName RK_ForceLocal = ''force_local''"

section \<open>Tree nodes and function forests\<close>

text \<open>
  A node is the record of its plain members and the list of its owned children.
\<close>

record tree_attrs =
  kind :: NodeKind
  fieldName :: string
  typeName :: string
  sizeBytes :: nat
  offsetBytes :: nat
  pointeeOpaque :: bool
  pointeeConst :: bool
  dir :: Dir
  sizeKind :: SizeKind
  sizeArgIndex :: int
  constSize :: nat
  isHandle :: bool
  handleClass :: string
  shallow :: bool
  ptrIntoArg :: bool
  intoArgIndex :: int
  cursor :: bool
  touched :: bool
  depthTruncated :: bool
  abiSlots :: nat
  note_text :: string

datatype TreeNode = Node (attrs: tree_attrs) (children: "TreeNode list")

text \<open>The default member initialisers of \<^verbatim>\<open>struct TreeNode\<close>.\<close>

definition default_attrs :: tree_attrs where
  "default_attrs =
     \<lparr>kind = NK_Unknown, fieldName = [], typeName = [], sizeBytes = 0, offsetBytes = 0,
      pointeeOpaque = False, pointeeConst = False, dir = Dir_NA, sizeKind = SK_NA,
      sizeArgIndex = -1, constSize = 0, isHandle = False, handleClass = [], shallow = False,
      ptrIntoArg = False, intoArgIndex = -1, cursor = False, touched = True,
      depthTruncated = False, abiSlots = 1, note_text = []\<rparr>"

abbreviation n_kind :: "TreeNode \<Rightarrow> NodeKind" where
  "n_kind n \<equiv> kind (attrs n)"

definition isPointer :: "TreeNode \<Rightarrow> bool" where
  "isPointer n \<longleftrightarrow> n_kind n = NK_Pointer"

definition isComposite :: "TreeNode \<Rightarrow> bool" where
  "isComposite n \<longleftrightarrow> n_kind n = NK_Struct \<or> n_kind n = NK_Union"

text \<open>Writing members of a node in place.\<close>

definition upd_node :: "(tree_attrs \<Rightarrow> tree_attrs) \<Rightarrow> TreeNode \<Rightarrow> TreeNode" where
  "upd_node f n = Node (f (attrs n)) (children n)"

definition set_children :: "TreeNode list \<Rightarrow> TreeNode \<Rightarrow> TreeNode" where
  "set_children cs n = Node (attrs n) cs"

text \<open>The forest of a function. \<open>ret = None\<close> is the null pointer of a \<^verbatim>\<open>void\<close> return.\<close>

record FunctionTrees =
  funcName :: string
  ret :: "TreeNode option"
  params :: "TreeNode list"
  retKind :: RetKind
  retAliasArg :: int
  retAllocSizeArgs :: "int list"
  retHandleClass :: string
  retStaticSize :: nat
  isVariadic :: bool
  retSretArg :: "TreeNode option"
  forceLocal :: bool
  warnings :: "string list"

definition default_trees :: FunctionTrees where
  "default_trees =
     \<lparr>funcName = [], ret = None, params = [], retKind = RK_Void, retAliasArg = -1,
      retAllocSizeArgs = [], retHandleClass = [], retStaticSize = 0, isVariadic = False,
      retSretArg = None, forceLocal = False, warnings = []\<rparr>"

section \<open>DWARF metadata\<close>

datatype dw_tag =
    DW_TAG_typedef | DW_TAG_const_type | DW_TAG_volatile_type | DW_TAG_restrict_type
  | DW_TAG_atomic_type | DW_TAG_pointer_type | DW_TAG_structure_type | DW_TAG_union_type
  | DW_TAG_array_type | DW_TAG_subroutine_type | DW_TAG_member | DW_TAG_base_type
  | DW_TAG_enumeration_type | DW_TAG_other nat

text \<open>Which of LLVM's metadata classes a node has; \<open>dyn_cast\<close> tests it.\<close>

datatype di_class = DIDerivedType | DICompositeType | DIOther

type_synonym di_ref = "nat option"

record di_node =
  di_class :: di_class
  di_tag :: dw_tag
  di_name :: string
  di_sizeInBits :: nat
  di_offsetInBits :: nat
  di_baseType :: di_ref
  di_elements :: "di_ref list"

type_synonym dwarf = "nat \<Rightarrow> di_node"

text \<open>A \<^verbatim>\<open>DISubprogram\<close>: its name and, when it has a type, the type array (index 0 the return).\<close>

record di_subprogram =
  sp_name :: string
  sp_types :: "di_ref list option"

section \<open>Building trees\<close>

text \<open>The wrappers \<^verbatim>\<open>stripType\<close> peels.\<close>

fun is_wrapper_tag :: "dw_tag \<Rightarrow> bool" where
  "is_wrapper_tag DW_TAG_typedef = True"
| "is_wrapper_tag DW_TAG_const_type = True"
| "is_wrapper_tag DW_TAG_volatile_type = True"
| "is_wrapper_tag DW_TAG_restrict_type = True"
| "is_wrapper_tag DW_TAG_atomic_type = True"
| "is_wrapper_tag _ = False"

definition is_wrapper :: "dwarf \<Rightarrow> nat \<Rightarrow> bool" where
  "is_wrapper g r \<longleftrightarrow> di_class (g r) = DIDerivedType \<and> is_wrapper_tag (di_tag (g r))"

partial_function (option) stripType :: "dwarf \<Rightarrow> di_ref \<Rightarrow> di_ref option" where
  "stripType g ty =
     (case ty of
        None \<Rightarrow> Some None
      | Some r \<Rightarrow> if is_wrapper g r then stripType g (di_baseType (g r)) else Some ty)"

partial_function (option) hasConstQual :: "dwarf \<Rightarrow> di_ref \<Rightarrow> bool option" where
  "hasConstQual g ty =
     (case ty of
        None \<Rightarrow> Some False
      | Some r \<Rightarrow>
          if di_class (g r) = DIDerivedType then
            if di_tag (g r) = DW_TAG_const_type then Some True
            else if is_wrapper_tag (di_tag (g r)) then hasConstQual g (di_baseType (g r))
            else Some False
          else Some False)"

declare stripType.simps [code] hasConstQual.simps [code]

definition typeNameOf :: "dwarf \<Rightarrow> di_ref \<Rightarrow> string" where
  "typeNameOf g ty =
     (case ty of
        None \<Rightarrow> ''void''
      | Some r \<Rightarrow>
          if di_name (g r) \<noteq> [] then di_name (g r)
          else (case di_tag (g r) of
                  DW_TAG_structure_type \<Rightarrow> ''<anon struct>''
                | DW_TAG_union_type \<Rightarrow> ''<anon union>''
                | DW_TAG_pointer_type \<Rightarrow> ''<ptr>''
                | DW_TAG_array_type \<Rightarrow> ''<array>''
                | _ \<Rightarrow> ''<anon>''))"

text \<open>The members of a composite: elements that are not \<^verbatim>\<open>DW_TAG_member\<close> are skipped.\<close>

definition is_member :: "dwarf \<Rightarrow> di_ref \<Rightarrow> bool" where
  "is_member g e =
     (case e of None \<Rightarrow> False
      | Some m \<Rightarrow> di_class (g m) = DIDerivedType \<and> di_tag (g m) = DW_TAG_member)"

definition name_field :: "dwarf \<Rightarrow> nat \<Rightarrow> TreeNode \<Rightarrow> TreeNode" where
  "name_field g m child =
     upd_node (\<lambda>a. a\<lparr>fieldName := di_name (g m), offsetBytes := di_offsetInBits (g m) div 8\<rparr>)
       child"

definition base_attrs :: "dwarf \<Rightarrow> nat \<Rightarrow> tree_attrs" where
  "base_attrs g r =
     default_attrs\<lparr>typeName := typeNameOf g (Some r), sizeBytes := di_sizeInBits (g r) div 8\<rparr>"

fun buildTreeFromDIType :: "dwarf \<Rightarrow> di_ref \<Rightarrow> nat \<Rightarrow> TreeNode option" where
  "buildTreeFromDIType g rawTy maxDepth =
     (case stripType g rawTy of
        None \<Rightarrow> None
      | Some None \<Rightarrow>
          Some (Node (default_attrs\<lparr>typeName := typeNameOf g None, kind := NK_Unknown\<rparr>) [])
      | Some (Some r) \<Rightarrow>
          let a = base_attrs g r; tag = di_tag (g r) in
          if maxDepth = 0 then Some (Node (a\<lparr>kind := NK_Unknown, depthTruncated := True\<rparr>) [])
          else if tag = DW_TAG_pointer_type then
            (case hasConstQual g (di_baseType (g r)) of
               None \<Rightarrow> None
             | Some c \<Rightarrow>
               (case stripType g (di_baseType (g r)) of
                  None \<Rightarrow> None
                | Some None \<Rightarrow>
                    Some (Node (a\<lparr>kind := NK_Pointer, pointeeConst := c,
                                  pointeeOpaque := True\<rparr>) [])
                | Some (Some p) \<Rightarrow>
                    map_option (\<lambda>ch. Node (a\<lparr>kind := NK_Pointer, pointeeConst := c\<rparr>) [ch])
                      (buildTreeFromDIType g (Some p) (maxDepth - 1))))
          else if tag = DW_TAG_structure_type \<or> tag = DW_TAG_union_type then
            map_option
              (Node (a\<lparr>kind := (if tag = DW_TAG_union_type then NK_Union else NK_Struct)\<rparr>))
              (omap (\<lambda>e. map_option (name_field g (the e))
                           (buildTreeFromDIType g (di_baseType (g (the e))) (maxDepth - 1)))
                 (filter (is_member g) (di_elements (g r))))
          else if tag = DW_TAG_array_type then
            map_option (\<lambda>ch. Node (a\<lparr>kind := NK_Array\<rparr>) [ch])
              (buildTreeFromDIType g (di_baseType (g r)) (maxDepth - 1))
          else if tag = DW_TAG_subroutine_type then
            Some (Node (a\<lparr>kind := NK_Unknown, typeName := ''<func>''\<rparr>) [])
          else Some (Node (a\<lparr>kind := NK_Scalar\<rparr>) []))"

declare buildTreeFromDIType.simps [simp del]

text \<open>
  \<^verbatim>\<open>buildFunctionTrees\<close>: the outer option is non-termination of the builder, the inner one the
  null result for a function with no usable debug info. The parameters stop at the first null
  entry, the sentinel of a variadic function.
\<close>

definition buildFunctionTrees ::
  "dwarf \<Rightarrow> di_subprogram option \<Rightarrow> nat \<Rightarrow> FunctionTrees option option" where
  "buildFunctionTrees g spo maxDepth =
     (case spo of
        None \<Rightarrow> Some None
      | Some sp \<Rightarrow>
        (case sp_types sp of
           None \<Rightarrow> Some None
         | Some [] \<Rightarrow> Some None
         | Some (rt # argTys) \<Rightarrow>
           (case (case rt of None \<Rightarrow> Some None
                  | Some r \<Rightarrow> map_option Some (buildTreeFromDIType g (Some r) maxDepth)) of
              None \<Rightarrow> None
            | Some rtree \<Rightarrow>
              map_option
                (\<lambda>ps. Some (default_trees\<lparr>funcName := sp_name sp, ret := rtree, params := ps\<rparr>))
                (omap (\<lambda>t. buildTreeFromDIType g t maxDepth)
                   (takeWhile (\<lambda>t. t \<noteq> None) argTys)))))"

section \<open>Shape of the built trees\<close>

lemma default_attrs_sel [simp]:
  "kind default_attrs = NK_Unknown" "dir default_attrs = Dir_NA"
  "sizeKind default_attrs = SK_NA" "isHandle default_attrs = False"
  "ptrIntoArg default_attrs = False" "cursor default_attrs = False"
  "shallow default_attrs = False" "touched default_attrs = True"
  "abiSlots default_attrs = 1" "pointeeOpaque default_attrs = False"
  "depthTruncated default_attrs = False" "fieldName default_attrs = []"
  by (simp_all add: default_attrs_def)

lemma base_attrs_sel [simp]:
  "kind (base_attrs g r) = NK_Unknown" "dir (base_attrs g r) = Dir_NA"
  "sizeKind (base_attrs g r) = SK_NA" "isHandle (base_attrs g r) = False"
  "ptrIntoArg (base_attrs g r) = False" "cursor (base_attrs g r) = False"
  "shallow (base_attrs g r) = False" "touched (base_attrs g r) = True"
  "abiSlots (base_attrs g r) = 1" "pointeeOpaque (base_attrs g r) = False"
  "depthTruncated (base_attrs g r) = False" "fieldName (base_attrs g r) = []"
  "sizeBytes (base_attrs g r) = di_sizeInBits (g r) div 8"
  by (simp_all add: base_attrs_def)

text \<open>What the builder can return, one case per exit of the source.\<close>

lemma build_cases [consumes 1, case_names void truncated opaque pointer composite array func scalar]:
  assumes b: "buildTreeFromDIType g ty d = Some t"
  obtains
    (void) "stripType g ty = Some None"
      "t = Node (default_attrs\<lparr>typeName := ''void'', kind := NK_Unknown\<rparr>) []"
  | (truncated) r where "stripType g ty = Some (Some r)" "d = 0"
      "t = Node ((base_attrs g r)\<lparr>kind := NK_Unknown, depthTruncated := True\<rparr>) []"
  | (opaque) r c where "stripType g ty = Some (Some r)" "0 < d"
      "di_tag (g r) = DW_TAG_pointer_type"
      "t = Node ((base_attrs g r)\<lparr>kind := NK_Pointer, pointeeConst := c,
             pointeeOpaque := True\<rparr>) []"
  | (pointer) r c p ch where "stripType g ty = Some (Some r)" "0 < d"
      "di_tag (g r) = DW_TAG_pointer_type" "stripType g (di_baseType (g r)) = Some (Some p)"
      "buildTreeFromDIType g (Some p) (d - 1) = Some ch"
      "t = Node ((base_attrs g r)\<lparr>kind := NK_Pointer, pointeeConst := c\<rparr>) [ch]"
  | (composite) r k cs where "stripType g ty = Some (Some r)" "0 < d"
      "k = (if di_tag (g r) = DW_TAG_union_type then NK_Union else NK_Struct)"
      "di_tag (g r) = DW_TAG_structure_type \<or> di_tag (g r) = DW_TAG_union_type"
      "omap (\<lambda>e. map_option (name_field g (the e))
              (buildTreeFromDIType g (di_baseType (g (the e))) (d - 1)))
         (filter (is_member g) (di_elements (g r))) = Some cs"
      "t = Node ((base_attrs g r)\<lparr>kind := k\<rparr>) cs"
  | (array) r ch where "stripType g ty = Some (Some r)" "0 < d"
      "di_tag (g r) = DW_TAG_array_type"
      "buildTreeFromDIType g (di_baseType (g r)) (d - 1) = Some ch"
      "t = Node ((base_attrs g r)\<lparr>kind := NK_Array\<rparr>) [ch]"
  | (func) r where "stripType g ty = Some (Some r)" "0 < d"
      "t = Node ((base_attrs g r)\<lparr>kind := NK_Unknown, typeName := ''<func>''\<rparr>) []"
  | (scalar) r where "stripType g ty = Some (Some r)" "0 < d"
      "t = Node ((base_attrs g r)\<lparr>kind := NK_Scalar\<rparr>) []"
proof (cases "stripType g ty")
  case None
  with b show ?thesis by (simp add: buildTreeFromDIType.simps [of g ty d])
next
  case (Some tyo)
  show ?thesis
  proof (cases tyo)
    case None
    with b Some void show ?thesis
      by (simp add: buildTreeFromDIType.simps [of g ty d] typeNameOf_def)
  next
    case (Some r)
    with \<open>stripType g ty = Some tyo\<close> have st: "stripType g ty = Some (Some r)" by simp
    note B = buildTreeFromDIType.simps [of g ty d]
    consider "d = 0" | "0 < d" "di_tag (g r) = DW_TAG_pointer_type"
      | "0 < d" "di_tag (g r) = DW_TAG_structure_type \<or> di_tag (g r) = DW_TAG_union_type"
      | "0 < d" "di_tag (g r) = DW_TAG_array_type"
      | "0 < d" "di_tag (g r) = DW_TAG_subroutine_type"
      | "0 < d" "di_tag (g r) \<notin> {DW_TAG_pointer_type, DW_TAG_structure_type, DW_TAG_union_type,
                   DW_TAG_array_type, DW_TAG_subroutine_type}"
      by auto
    then show ?thesis
    proof cases
      case 1
      with b st truncated show ?thesis
        by (simp add: buildTreeFromDIType.simps [of g ty 0] Let_def)
    next
      case 2
      then obtain c bo where c: "hasConstQual g (di_baseType (g r)) = Some c"
        and bo: "stripType g (di_baseType (g r)) = Some bo"
        using b st by (auto simp: B Let_def split: option.splits)
      show ?thesis
      proof (cases bo)
        case None
        show ?thesis
          by (rule opaque [OF st 2, of c]) (use b st 2 c bo None in \<open>simp add: B Let_def\<close>)
      next
        case (Some p)
        with b st 2 c bo obtain ch where "buildTreeFromDIType g (Some p) (d - 1) = Some ch"
          and "t = Node ((base_attrs g r)\<lparr>kind := NK_Pointer, pointeeConst := c\<rparr>) [ch]"
          by (auto simp: B Let_def)
        with bo Some show ?thesis by (intro pointer [OF st 2]) simp_all
      qed
    next
      case 3
      have np: "di_tag (g r) \<noteq> DW_TAG_pointer_type" using 3(2) by auto
      show ?thesis
        by (rule composite [OF st 3(1) refl 3(2), of "children t"])
          (use b st 3 np in \<open>auto simp: B Let_def\<close>)
    next
      case 4
      show ?thesis
        by (rule array [OF st 4, of "hd (children t)"])
          (use b st 4 in \<open>auto simp: B Let_def\<close>)
    next
      case 5
      with b st func show ?thesis by (auto simp: B Let_def)
    next
      case 6
      with b st scalar show ?thesis by (auto simp: B Let_def)
    qed
  qed
qed

subsection \<open>Depth\<close>

fun tree_depth :: "TreeNode \<Rightarrow> nat" where
  "tree_depth (Node a cs) = foldr (\<lambda>c m. max (Suc (tree_depth c)) m) cs 0"

lemma foldr_max_le:
  "(\<And>c. c \<in> set cs \<Longrightarrow> f c \<le> (b :: nat)) \<Longrightarrow> foldr (\<lambda>c m. max (f c) m) cs 0 \<le> b"
  by (induction cs) auto

lemma tree_depth_upd [simp]: "tree_depth (upd_node f n) = tree_depth n"
  by (cases n) (simp add: upd_node_def)

lemma tree_depth_children_le:
  "0 < d \<Longrightarrow> (\<And>c. c \<in> set cs \<Longrightarrow> tree_depth c \<le> d - 1) \<Longrightarrow> tree_depth (Node a cs) \<le> d"
  unfolding tree_depth.simps by (rule foldr_max_le) fastforce

lemma composite_children:
  assumes "omap (\<lambda>e. map_option (name_field g (the e)) (b (di_baseType (g (the e))))) es = Some cs"
    and "c \<in> set cs"
  obtains e ch where "e \<in> set es" "b (di_baseType (g (the e))) = Some ch"
    "c = name_field g (the e) ch"
  using omap_Some_set [OF assms] by auto

lemma build_depth: "buildTreeFromDIType g ty d = Some t \<Longrightarrow> tree_depth t \<le> d"
proof (induction d arbitrary: ty t rule: less_induct)
  case (less d)
  from less.prems show ?case
  proof (cases rule: build_cases)
    case (pointer r c p ch)
    then have "tree_depth ch \<le> d - 1" by (intro less.IH) auto
    with pointer show ?thesis by (simp add: max_def)
  next
    case (array r ch)
    then have "tree_depth ch \<le> d - 1" by (intro less.IH) auto
    with array show ?thesis by (simp add: max_def)
  next
    case (composite r k cs)
    have "tree_depth c \<le> d - 1" if c: "c \<in> set cs" for c
    proof -
      from composite_children [where b = "\<lambda>b. buildTreeFromDIType g b (d - 1)", OF composite(5) c]
      obtain b e ch where "buildTreeFromDIType g b (d - 1) = Some ch" "c = name_field g e ch"
        by blast
      with less.IH [of "d - 1" b ch] composite(2) show ?thesis by (simp add: name_field_def)
    qed
    with composite show ?thesis by (simp only: tree_depth_children_le)
  qed simp_all
qed

subsection \<open>Well-formed trees\<close>

text \<open>
  The structural contract the inference relies on: a pointer has one child unless its pointee
  is opaque, an array has one element type, leaves have no children, a truncated node is
  \<open>NK_Unknown\<close>.
\<close>

fun node_shape :: "tree_attrs \<Rightarrow> nat \<Rightarrow> bool" where
  "node_shape a n =
     ((case kind a of
         NK_Pointer \<Rightarrow> n = (if pointeeOpaque a then 0 else 1)
       | NK_Array \<Rightarrow> n = 1
       | NK_Scalar \<Rightarrow> n = 0
       | NK_Unknown \<Rightarrow> n = 0
       | _ \<Rightarrow> True)
      \<and> (depthTruncated a \<longrightarrow> kind a = NK_Unknown))"

fun tree_shape :: "TreeNode \<Rightarrow> bool" where
  "tree_shape (Node a cs) = (node_shape a (length cs) \<and> (\<forall>c\<in>set cs. tree_shape c))"

text \<open>Members only the inference writes still hold their initialisers.\<close>

definition fresh_attrs :: "tree_attrs \<Rightarrow> bool" where
  "fresh_attrs a \<longleftrightarrow> dir a = Dir_NA \<and> sizeKind a = SK_NA \<and> \<not> isHandle a \<and> \<not> ptrIntoArg a
     \<and> \<not> cursor a \<and> \<not> shallow a \<and> touched a \<and> abiSlots a = 1"

fun tree_fresh :: "TreeNode \<Rightarrow> bool" where
  "tree_fresh (Node a cs) = (fresh_attrs a \<and> (\<forall>c\<in>set cs. tree_fresh c))"

lemma name_field_shape [simp]: "tree_shape (name_field g m n) = tree_shape n"
  by (cases n) (simp add: name_field_def upd_node_def)

lemma name_field_fresh [simp]: "tree_fresh (name_field g m n) = tree_fresh n"
  by (cases n) (simp add: name_field_def upd_node_def fresh_attrs_def)

lemma build_shape_fresh:
  "buildTreeFromDIType g ty d = Some t \<Longrightarrow> tree_shape t \<and> tree_fresh t"
proof (induction d arbitrary: ty t rule: less_induct)
  case (less d)
  note defs = fresh_attrs_def
  from less.prems show ?case
  proof (cases rule: build_cases)
    case (pointer r c p ch)
    then have "tree_shape ch \<and> tree_fresh ch" by (intro less.IH) auto
    with pointer show ?thesis by (simp add: defs)
  next
    case (array r ch)
    then have "tree_shape ch \<and> tree_fresh ch" by (intro less.IH) auto
    with array show ?thesis by (simp add: defs)
  next
    case (composite r k cs)
    have "tree_shape c \<and> tree_fresh c" if c: "c \<in> set cs" for c
    proof -
      from composite_children [where b = "\<lambda>b. buildTreeFromDIType g b (d - 1)", OF composite(5) c]
      obtain b e ch where "buildTreeFromDIType g b (d - 1) = Some ch" "c = name_field g e ch"
        by blast
      with less.IH [of "d - 1" b ch] composite(2) show ?thesis by simp
    qed
    with composite show ?thesis by (simp add: defs)
  qed (simp_all add: defs)
qed

subsection \<open>Qualifier chains\<close>

text \<open>
  Metadata in which no chain of typedefs and qualifiers runs in a circle, as LLVM's verifier
  and every C type system guarantee; pointers and members may still form cycles.
\<close>

definition wrapper_step :: "dwarf \<Rightarrow> nat \<Rightarrow> nat \<Rightarrow> bool" where
  "wrapper_step g r' r \<longleftrightarrow> is_wrapper g r \<and> di_baseType (g r) = Some r'"

definition wrappers_wf :: "dwarf \<Rightarrow> bool" where
  "wrappers_wf g \<longleftrightarrow> wfp (wrapper_step g)"

lemma stripType_None [simp]: "stripType g None = Some None"
  by (simp add: stripType.simps)

lemma hasConstQual_None [simp]: "hasConstQual g None = Some False"
  by (simp add: hasConstQual.simps)

lemma stripType_total:
  assumes "wrappers_wf g"
  shows "\<exists>ty'. stripType g ty = Some ty'"
proof (cases ty)
  case (Some r)
  have "\<exists>ty'. stripType g (Some r) = Some ty'"
  proof (rule wfp_induct [of "wrapper_step g" _ r])
    show "wfp (wrapper_step g)" using assms by (simp add: wrappers_wf_def)
  next
    fix r assume IH: "\<forall>r'. wrapper_step g r' r \<longrightarrow> (\<exists>ty'. stripType g (Some r') = Some ty')"
    show "\<exists>ty'. stripType g (Some r) = Some ty'"
      by (cases "di_baseType (g r)")
        (use IH in \<open>auto simp: stripType.simps [of g "Some r"] wrapper_step_def\<close>)
  qed
  with Some show ?thesis by simp
qed simp

lemma hasConstQual_total:
  assumes "wrappers_wf g"
  shows "\<exists>b. hasConstQual g ty = Some b"
proof (cases ty)
  case (Some r)
  have "\<exists>b. hasConstQual g (Some r) = Some b"
  proof (rule wfp_induct [of "wrapper_step g" _ r])
    show "wfp (wrapper_step g)" using assms by (simp add: wrappers_wf_def)
  next
    fix r assume IH: "\<forall>r'. wrapper_step g r' r \<longrightarrow> (\<exists>b. hasConstQual g (Some r') = Some b)"
    show "\<exists>b. hasConstQual g (Some r) = Some b"
      by (cases "di_baseType (g r)")
        (use IH in \<open>auto simp: hasConstQual.simps [of g "Some r"] wrapper_step_def is_wrapper_def\<close>)
  qed
  with Some show ?thesis by simp
qed auto

lemma build_total:
  assumes "wrappers_wf g"
  shows "\<exists>t. buildTreeFromDIType g ty d = Some t"
proof (induction d arbitrary: ty rule: less_induct)
  case (less d)
  obtain so where so: "stripType g ty = Some so" using stripType_total [OF assms] by blast
  show ?case
  proof (cases so)
    case None
    with so show ?thesis by (simp add: buildTreeFromDIType.simps [of g ty d])
  next
    case (Some r)
    obtain c where c: "hasConstQual g (di_baseType (g r)) = Some c"
      using hasConstQual_total [OF assms] by blast
    obtain bo where bo: "stripType g (di_baseType (g r)) = Some bo"
      using stripType_total [OF assms] by blast
    have IH: "\<exists>t. buildTreeFromDIType g b (d - 1) = Some t" if "0 < d" for b
      using that less.IH [of "d - 1" b] by simp
    have kids: "\<exists>cs. omap (\<lambda>e. map_option (name_field g (the e))
        (buildTreeFromDIType g (di_baseType (g (the e))) (d - 1))) es = Some cs" if "0 < d" for es
    proof -
      have "map_option (name_field g (the e))
          (buildTreeFromDIType g (di_baseType (g (the e))) (d - 1)) \<noteq> None" for e
        using IH [OF that, of "di_baseType (g (the e))"] by auto
      then show ?thesis by (meson omap_total not_None_eq)
    qed
    show ?thesis
    proof (cases "d = 0")
      case True
      with so Some show ?thesis by (simp add: buildTreeFromDIType.simps [of g ty 0] Let_def)
    next
      case False
      then have d: "0 < d" by simp
      note B = buildTreeFromDIType.simps [of g ty d]
      consider "di_tag (g r) = DW_TAG_pointer_type"
        | "di_tag (g r) \<in> {DW_TAG_structure_type, DW_TAG_union_type}"
        | "di_tag (g r) = DW_TAG_array_type"
        | "di_tag (g r) \<notin> {DW_TAG_pointer_type, DW_TAG_structure_type, DW_TAG_union_type,
             DW_TAG_array_type}"
        by blast
      then show ?thesis
      proof cases
        case 1
        show ?thesis
        proof (cases bo)
          case None
          with so Some c bo 1 d show ?thesis by (simp add: B Let_def)
        next
          case bp: (Some p)
          obtain ch where "buildTreeFromDIType g (Some p) (d - 1) = Some ch" using IH d by blast
          with so Some c bo bp 1 d show ?thesis by (simp add: B Let_def)
        qed
      next
        case 2
        obtain cs where "omap (\<lambda>e. map_option (name_field g (the e))
            (buildTreeFromDIType g (di_baseType (g (the e))) (d - 1)))
            (filter (is_member g) (di_elements (g r))) = Some cs"
          using kids d by blast
        with so Some 2 d show ?thesis by (auto simp: B Let_def)
      next
        case 3
        obtain ch where "buildTreeFromDIType g (di_baseType (g r)) (d - 1) = Some ch"
          using IH d by blast
        with so Some 3 d show ?thesis by (simp add: B Let_def)
      next
        case 4
        with so Some d show ?thesis by (simp add: B Let_def)
      qed
    qed
  qed
qed

lemma stripType_not_wrapper: "stripType g ty = Some (Some r) \<Longrightarrow> \<not> is_wrapper g r"
proof -
  assume ret: "stripType g ty = Some (Some r)"
  have "\<forall>q. Some r = Some q \<longrightarrow> \<not> is_wrapper g q"
    by (rule stripType.raw_induct [where P = "\<lambda>g _ res. \<forall>q. res = Some q \<longrightarrow> \<not> is_wrapper g q", OF _ ret])
      (auto split: option.splits if_splits)
  then show ?thesis by simp
qed

section \<open>Properties of the builder\<close>

text \<open>C31: On metadata whose qualifier chains end, \<^verbatim>\<open>buildTreeFromDIType\<close> returns for every type and
  every depth cap, also when pointers and members form cycles; the tree is no deeper than the
  cap, has the structural shape the inference relies on, and carries no inferred information
  yet.\<close>

theorem buildTreeFromDIType_ok:
  assumes "wrappers_wf g"
  shows "\<exists>t. buildTreeFromDIType g ty d = Some t \<and> tree_depth t \<le> d \<and> tree_shape t \<and> tree_fresh t"
proof -
  obtain t where t: "buildTreeFromDIType g ty d = Some t" using build_total [OF assms] by blast
  with build_depth [OF t] build_shape_fresh [OF t] show ?thesis by blast
qed

text \<open>A list node \<^verbatim>\<open>struct node { int v; struct node *next; }\<close>: the metadata is cyclic.\<close>

definition list_dwarf :: dwarf where
  "list_dwarf r =
     (let n = \<lparr>di_class = DIOther, di_tag = DW_TAG_base_type, di_name = ''int'', di_sizeInBits = 32,
               di_offsetInBits = 0, di_baseType = None, di_elements = []\<rparr>
      in if r = 0 then n\<lparr>di_class := DICompositeType, di_tag := DW_TAG_structure_type,
                 di_name := ''node'', di_sizeInBits := 64, di_elements := [Some 1, Some 2]\<rparr>
         else if r = 1 then n\<lparr>di_class := DIDerivedType, di_tag := DW_TAG_member, di_name := ''v'',
                 di_baseType := Some 4\<rparr>
         else if r = 2 then n\<lparr>di_class := DIDerivedType, di_tag := DW_TAG_member, di_name := ''next'',
                 di_offsetInBits := 32, di_baseType := Some 3\<rparr>
         else if r = 3 then n\<lparr>di_class := DIDerivedType, di_tag := DW_TAG_pointer_type,
                 di_name := [], di_baseType := Some 0\<rparr>
         else n)"

lemma list_dwarf_wf: "wrappers_wf list_dwarf"
proof -
  have "\<not> is_wrapper list_dwarf r" for r
    by (simp add: is_wrapper_def list_dwarf_def Let_def)
  then have "wrapper_step list_dwarf = (\<lambda>_ _. False)"
    by (intro ext) (simp add: wrapper_step_def)
  then show ?thesis by (simp add: wrappers_wf_def wfp_def)
qed

theorem buildTreeFromDIType_ok_witness:
  "\<exists>t. buildTreeFromDIType list_dwarf (Some 0) 6 = Some t \<and> tree_depth t \<le> 6
     \<and> tree_shape t \<and> tree_fresh t"
  by (rule buildTreeFromDIType_ok [OF list_dwarf_wf])

text \<open>A struct or union type unfolds into one child per member, in the order of the metadata,
  each with the member's name and its byte offset; every other element is skipped.\<close>

theorem buildTreeFromDIType_fields:
  assumes "stripType g ty = Some (Some r)" and "0 < d"
    and "di_tag (g r) = DW_TAG_structure_type \<or> di_tag (g r) = DW_TAG_union_type"
    and "buildTreeFromDIType g ty d = Some t"
  shows "isComposite t
    \<and> map (\<lambda>c. (fieldName (attrs c), offsetBytes (attrs c))) (children t)
      = map (\<lambda>e. (di_name (g (the e)), di_offsetInBits (g (the e)) div 8))
          (filter (is_member g) (di_elements (g r)))"
proof -
  from assms obtain k cs where
      k: "k = (if di_tag (g r) = DW_TAG_union_type then NK_Union else NK_Struct)"
    and cs: "omap (\<lambda>e. map_option (name_field g (the e))
          (buildTreeFromDIType g (di_baseType (g (the e))) (d - 1)))
        (filter (is_member g) (di_elements (g r))) = Some cs"
    and t: "t = Node ((base_attrs g r)\<lparr>kind := k\<rparr>) cs"
    by (auto simp: buildTreeFromDIType.simps [of g ty d] Let_def)
  have "map (\<lambda>c. (fieldName (attrs c), offsetBytes (attrs c))) cs
      = map (\<lambda>e. (di_name (g (the e)), di_offsetInBits (g (the e)) div 8))
          (filter (is_member g) (di_elements (g r)))"
    by (rule omap_map [OF cs]) (auto simp: name_field_def upd_node_def)
  with t k show ?thesis by (simp add: isComposite_def)
qed

theorem buildTreeFromDIType_fields_witness:
  "\<exists>t. buildTreeFromDIType list_dwarf (Some 0) 6 = Some t \<and> isComposite t
     \<and> map (\<lambda>c. (fieldName (attrs c), offsetBytes (attrs c))) (children t)
       = [(''v'', 0), (''next'', 4)]"
proof -
  obtain t where t: "buildTreeFromDIType list_dwarf (Some 0) 6 = Some t"
    using build_total [OF list_dwarf_wf] by blast
  have "stripType list_dwarf (Some 0) = Some (Some 0)"
    by (simp add: stripType.simps is_wrapper_def list_dwarf_def)
  from buildTreeFromDIType_fields [OF this _ _ t] t show ?thesis
    by (simp add: list_dwarf_def is_member_def)
qed

text \<open>\<^verbatim>\<open>buildFunctionTrees\<close> keeps one tree per parameter up to the first null entry of the type
  array, each of them well shaped and within the depth cap, and a return tree exactly when the
  return type is not \<^verbatim>\<open>void\<close>; a function without a type array has no forest.\<close>

theorem buildFunctionTrees_ok:
  assumes "wrappers_wf g"
  shows "case sp_types sp of
      None \<Rightarrow> buildFunctionTrees g (Some sp) d = Some None
    | Some [] \<Rightarrow> buildFunctionTrees g (Some sp) d = Some None
    | Some (rt # argTys) \<Rightarrow>
        (\<exists>ft. buildFunctionTrees g (Some sp) d = Some (Some ft) \<and> funcName ft = sp_name sp
          \<and> length (params ft) = length (takeWhile (\<lambda>t. t \<noteq> None) argTys)
          \<and> (ret ft = None \<longleftrightarrow> rt = None) \<and> \<not> forceLocal ft \<and> warnings ft = []
          \<and> (\<forall>t \<in> set (params ft) \<union> set_option (ret ft).
               tree_depth t \<le> d \<and> tree_shape t \<and> tree_fresh t))"
proof (cases "sp_types sp")
  case None
  then show ?thesis by (simp add: buildFunctionTrees_def)
next
  case (Some ts)
  show ?thesis
  proof (cases ts)
    case Nil
    with Some show ?thesis by (simp add: buildFunctionTrees_def)
  next
    case (Cons rt argTys)
    obtain rtree where rtree: "(case rt of None \<Rightarrow> Some None
        | Some r \<Rightarrow> map_option Some (buildTreeFromDIType g (Some r) d)) = Some rtree"
      and rn: "rtree = None \<longleftrightarrow> rt = None"
      and rok: "\<forall>t\<in>set_option rtree. \<exists>ty. buildTreeFromDIType g ty d = Some t"
      using build_total [OF assms, of rt d] by (cases rt) auto
    obtain ps where ps: "omap (\<lambda>t. buildTreeFromDIType g t d)
        (takeWhile (\<lambda>t. t \<noteq> None) argTys) = Some ps"
      using omap_total [of "takeWhile (\<lambda>t. t \<noteq> None) argTys" "\<lambda>t. buildTreeFromDIType g t d"]
        build_total [OF assms] by fastforce
    have "\<exists>ty. buildTreeFromDIType g ty d = Some t" if "t \<in> set ps \<union> set_option rtree" for t
      using that rok omap_Some_set [OF ps] by blast
    then have "\<forall>t \<in> set ps \<union> set_option rtree. tree_depth t \<le> d \<and> tree_shape t \<and> tree_fresh t"
      using build_depth build_shape_fresh by blast
    with Some Cons rtree rn ps omap_Some_length [OF ps] show ?thesis
      by (auto simp: buildFunctionTrees_def default_trees_def)
  qed
qed

theorem buildFunctionTrees_ok_witness:
  "\<exists>ft. buildFunctionTrees list_dwarf
          (Some \<lparr>sp_name = ''f'', sp_types = Some [None, Some 3, Some 4, None]\<rparr>) 6 = Some (Some ft)
     \<and> length (params ft) = 2 \<and> ret ft = None"
  using buildFunctionTrees_ok [OF list_dwarf_wf,
      of "\<lparr>sp_name = ''f'', sp_types = Some [None, Some 3, Some 4, None]\<rparr>" 6]
  by auto

end
