(* ===== verification/Annotations.thy ===== *)
theory Annotations
  imports ParamTree
begin

text \<open>
  The annotation tables of \<^verbatim>\<open>Annotations.h\<close> and \<^verbatim>\<open>Annotations.cpp\<close> (opaque handle types,
  allocators, searchers, arrays of strings), the merge of a JSON file into them, and the
  lookups of \<^verbatim>\<open>Infer.cpp\<close> that consult them. The singleton \<^verbatim>\<open>annotations()\<close> is a value that is
  passed on. Reading the file and parsing the JSON text are not part of the sources: the text
  read and the parser are arguments.
\<close>

section \<open>Tables\<close>

record AllocSpec =
  as_sizeArgs :: "int list"
  as_forceLocal :: bool

record Annotations =
  handleTypes :: "string \<rightharpoonup> string"
  allocators :: "string \<rightharpoonup> AllocSpec"
  returnIntoArg0 :: "string set"
  ptrArrayArgs :: "string \<rightharpoonup> int list"

abbreviation alloc_spec :: "int list \<Rightarrow> bool \<Rightarrow> AllocSpec" where
  "alloc_spec sa fl \<equiv> \<lparr>as_sizeArgs = sa, as_forceLocal = fl\<rparr>"

definition default_annotations :: Annotations where
  "default_annotations =
     \<lparr>handleTypes = [''_IO_FILE'' \<mapsto> ''FILE'', ''__dirstream'' \<mapsto> ''DIR'',
                     ''__locale_struct'' \<mapsto> ''locale''],
      allocators = [''malloc'' \<mapsto> alloc_spec [0] False, ''valloc'' \<mapsto> alloc_spec [0] False,
                    ''pvalloc'' \<mapsto> alloc_spec [0] False, ''aligned_alloc'' \<mapsto> alloc_spec [1] False,
                    ''memalign'' \<mapsto> alloc_spec [1] False, ''calloc'' \<mapsto> alloc_spec [0, 1] False,
                    ''realloc'' \<mapsto> alloc_spec [] True, ''reallocarray'' \<mapsto> alloc_spec [] True,
                    ''posix_memalign'' \<mapsto> alloc_spec [] True, ''strdup'' \<mapsto> alloc_spec [] True,
                    ''strndup'' \<mapsto> alloc_spec [] True],
      returnIntoArg0 = {''strchr'', ''strrchr'', ''index'', ''rindex'', ''strchrnul'', ''memchr'',
                        ''memrchr'', ''rawmemchr'', ''strstr'', ''strcasestr'', ''strpbrk''},
      ptrArrayArgs = [''execv'' \<mapsto> [1], ''execvp'' \<mapsto> [1], ''execvpe'' \<mapsto> [1, 2],
                      ''execve'' \<mapsto> [1, 2], ''fexecve'' \<mapsto> [1, 2], ''execveat'' \<mapsto> [2, 3],
                      ''getopt'' \<mapsto> [1], ''getopt_long'' \<mapsto> [1], ''getopt_long_only'' \<mapsto> [1],
                      ''posix_spawn'' \<mapsto> [4, 5], ''posix_spawnp'' \<mapsto> [4, 5]]\<rparr>"

section \<open>Merging a JSON file\<close>

text \<open>JSON values as \<^verbatim>\<open>llvm::json\<close> presents them; an object is the list of its entries in
  iteration order.\<close>

datatype json =
    JNull
  | JBool bool
  | JInt int
  | JDouble
  | JString string
  | JArray "json list"
  | JObject "(string \<times> json) list"

fun getAsString :: "json \<Rightarrow> string option" where
  "getAsString (JString s) = Some s"
| "getAsString _ = None"

fun getAsInteger :: "json \<Rightarrow> int option" where
  "getAsInteger (JInt i) = Some i"
| "getAsInteger _ = None"

fun getAsArray :: "json \<Rightarrow> json list option" where
  "getAsArray (JArray xs) = Some xs"
| "getAsArray _ = None"

fun getAsObject :: "json \<Rightarrow> (string \<times> json) list option" where
  "getAsObject (JObject kvs) = Some kvs"
| "getAsObject _ = None"

definition getObject :: "(string \<times> json) list \<Rightarrow> string \<Rightarrow> (string \<times> json) list option" where
  "getObject kvs k = Option.bind (map_of kvs k) getAsObject"

definition getArray :: "(string \<times> json) list \<Rightarrow> string \<Rightarrow> json list option" where
  "getArray kvs k = Option.bind (map_of kvs k) getAsArray"

definition getBoolean :: "(string \<times> json) list \<Rightarrow> string \<Rightarrow> bool option" where
  "getBoolean kvs k = (case map_of kvs k of Some (JBool b) \<Rightarrow> Some b | _ \<Rightarrow> None)"

text \<open>The conversion \<^verbatim>\<open>(int)\<close> of a 64-bit integer.\<close>

definition c_int :: "int \<Rightarrow> int" where
  "c_int i = sint (word_of_int i :: u32)"

text \<open>The integers of an array; entries of other kinds are skipped.\<close>

definition json_ints :: "json list \<Rightarrow> int list" where
  "json_ints vs = map (\<lambda>v. c_int (the (getAsInteger v))) (filter (\<lambda>v. getAsInteger v \<noteq> None) vs)"

definition alloc_of_json :: "json \<Rightarrow> AllocSpec" where
  "alloc_of_json v =
     (case getAsObject v of
        None \<Rightarrow> alloc_spec [] False
      | Some kvs \<Rightarrow>
          \<lparr>as_sizeArgs = (case getArray kvs ''size_args'' of None \<Rightarrow> [] | Some sa \<Rightarrow> json_ints sa),
           as_forceLocal = (case getBoolean kvs ''force_local'' of None \<Rightarrow> False | Some b \<Rightarrow> b)\<rparr>)"

fun merge_handle_types :: "(string \<times> json) list \<Rightarrow> Annotations \<Rightarrow> Annotations" where
  "merge_handle_types [] a = a"
| "merge_handle_types ((k, v) # kvs) a =
     merge_handle_types kvs
       (case getAsString v of None \<Rightarrow> a
        | Some s \<Rightarrow> a\<lparr>handleTypes := (handleTypes a)(k \<mapsto> s)\<rparr>)"

fun merge_allocators :: "(string \<times> json) list \<Rightarrow> Annotations \<Rightarrow> Annotations" where
  "merge_allocators [] a = a"
| "merge_allocators ((k, v) # kvs) a =
     merge_allocators kvs (a\<lparr>allocators := (allocators a)(k \<mapsto> alloc_of_json v)\<rparr>)"

fun merge_searchers :: "json list \<Rightarrow> Annotations \<Rightarrow> Annotations" where
  "merge_searchers [] a = a"
| "merge_searchers (v # vs) a =
     merge_searchers vs
       (case getAsString v of None \<Rightarrow> a
        | Some s \<Rightarrow> a\<lparr>returnIntoArg0 := insert s (returnIntoArg0 a)\<rparr>)"

fun merge_ptr_arrays :: "(string \<times> json) list \<Rightarrow> Annotations \<Rightarrow> Annotations" where
  "merge_ptr_arrays [] a = a"
| "merge_ptr_arrays ((k, v) # kvs) a =
     merge_ptr_arrays kvs
       (a\<lparr>ptrArrayArgs := (ptrArrayArgs a)
            (k \<mapsto> (case getAsArray v of None \<Rightarrow> [] | Some ar \<Rightarrow> json_ints ar))\<rparr>)"

text \<open>
  \<^verbatim>\<open>loadAnnotationsFile\<close>: \<open>content\<close> is what the stream read from \<open>path\<close> (\<open>None\<close> when it cannot be
  opened) and \<open>parse\<close> is \<^verbatim>\<open>json::parse\<close>. On an error the tables are left as they are.
\<close>

definition loadAnnotationsFile ::
  "(string \<Rightarrow> string + json) \<Rightarrow> string \<Rightarrow> string option \<Rightarrow> Annotations \<Rightarrow> string + Annotations" where
  "loadAnnotationsFile parse path content a =
     (case content of
        None \<Rightarrow> Inl (''cannot open '' @ path)
      | Some txt \<Rightarrow>
        (case parse txt of
           Inl e \<Rightarrow> Inl e
         | Inr j \<Rightarrow>
           (case getAsObject j of
              None \<Rightarrow> Inl ''top-level JSON must be an object''
            | Some obj \<Rightarrow>
              let a1 = (case getObject obj ''handle_types'' of None \<Rightarrow> a
                        | Some ht \<Rightarrow> merge_handle_types ht a);
                  a2 = (case getObject obj ''allocators'' of None \<Rightarrow> a1
                        | Some al \<Rightarrow> merge_allocators al a1);
                  a3 = (case getArray obj ''return_into_arg0'' of None \<Rightarrow> a2
                        | Some ri \<Rightarrow> merge_searchers ri a2);
                  a4 = (case getObject obj ''ptr_array_args'' of None \<Rightarrow> a3
                        | Some pa \<Rightarrow> merge_ptr_arrays pa a3)
              in Inr a4)))"

section \<open>Lookups\<close>

definition canonicalHandleClass :: "Annotations \<Rightarrow> string \<Rightarrow> string" where
  "canonicalHandleClass ann tn =
     (case handleTypes ann tn of
        Some c \<Rightarrow> c
      | None \<Rightarrow> if tn = [] then ''void'' else tn)"

definition isKnownOpaqueStruct :: "Annotations \<Rightarrow> TreeNode option \<Rightarrow> bool" where
  "isKnownOpaqueStruct ann pointee =
     (case pointee of
        None \<Rightarrow> False
      | Some p \<Rightarrow>
          if handleTypes ann (typeName (attrs p)) \<noteq> None then True
          else isComposite p \<and> sizeBytes (attrs p) = 0)"

record AllocInfo =
  ai_isAlloc :: bool
  ai_forceLocal :: bool
  ai_sizeArgs :: "int list"

definition allocatorInfo :: "Annotations \<Rightarrow> string \<Rightarrow> AllocInfo" where
  "allocatorInfo ann raw =
     (let (libc, n1) = consume_front ''__libc_'' raw;
          n = (if libc then n1 else snd (consume_front ''__'' n1))
      in case allocators ann n of
           None \<Rightarrow> \<lparr>ai_isAlloc = False, ai_forceLocal = False, ai_sizeArgs = []\<rparr>
         | Some sp \<Rightarrow>
             if as_forceLocal sp
             then \<lparr>ai_isAlloc = False, ai_forceLocal = True, ai_sizeArgs = []\<rparr>
             else \<lparr>ai_isAlloc = True, ai_forceLocal = False, ai_sizeArgs = as_sizeArgs sp\<rparr>)"

definition searcherReturnsIntoArg0 :: "Annotations \<Rightarrow> string \<Rightarrow> int" where
  "searcherReturnsIntoArg0 ann raw =
     (if snd (consume_front ''__'' raw) \<in> returnIntoArg0 ann then 0 else -1)"

definition isPtrArrayArg :: "Annotations \<Rightarrow> string \<Rightarrow> nat \<Rightarrow> bool" where
  "isPtrArrayArg ann raw argIdx =
     (case ptrArrayArgs ann (snd (consume_front ''__'' raw)) of
        None \<Rightarrow> False
      | Some idxs \<Rightarrow> list_ex (\<lambda>i. 0 \<le> i \<and> nat i = argIdx) idxs)"

section \<open>The merge extends the tables\<close>

lemma merge_handle_types_frame [simp]:
  "allocators (merge_handle_types kvs a) = allocators a"
  "returnIntoArg0 (merge_handle_types kvs a) = returnIntoArg0 a"
  "ptrArrayArgs (merge_handle_types kvs a) = ptrArrayArgs a"
  by (induction kvs a rule: merge_handle_types.induct) (auto split: option.splits)

lemma merge_allocators_frame [simp]:
  "handleTypes (merge_allocators kvs a) = handleTypes a"
  "returnIntoArg0 (merge_allocators kvs a) = returnIntoArg0 a"
  "ptrArrayArgs (merge_allocators kvs a) = ptrArrayArgs a"
  by (induction kvs a rule: merge_allocators.induct) auto

lemma merge_searchers_frame [simp]:
  "handleTypes (merge_searchers vs a) = handleTypes a"
  "allocators (merge_searchers vs a) = allocators a"
  "ptrArrayArgs (merge_searchers vs a) = ptrArrayArgs a"
  by (induction vs a rule: merge_searchers.induct) (auto split: option.splits)

lemma merge_ptr_arrays_frame [simp]:
  "handleTypes (merge_ptr_arrays kvs a) = handleTypes a"
  "allocators (merge_ptr_arrays kvs a) = allocators a"
  "returnIntoArg0 (merge_ptr_arrays kvs a) = returnIntoArg0 a"
  by (induction kvs a rule: merge_ptr_arrays.induct) auto

lemma merge_handle_types_get:
  "distinct (map fst kvs) \<Longrightarrow> handleTypes (merge_handle_types kvs a) k =
     (case Option.bind (map_of kvs k) getAsString of Some s \<Rightarrow> Some s | None \<Rightarrow> handleTypes a k)"
  by (induction kvs a rule: merge_handle_types.induct)
    (auto split: option.splits simp: map_of_eq_None_iff [THEN iffD2] image_iff)

lemma merge_allocators_get:
  "distinct (map fst kvs) \<Longrightarrow> allocators (merge_allocators kvs a) k =
     (case map_of kvs k of Some v \<Rightarrow> Some (alloc_of_json v) | None \<Rightarrow> allocators a k)"
  by (induction kvs a rule: merge_allocators.induct)
    (auto split: option.splits dest: map_of_SomeD simp: image_iff)

lemma merge_searchers_get:
  "returnIntoArg0 (merge_searchers vs a) = returnIntoArg0 a \<union> {s. JString s \<in> set vs}"
proof (induction vs a rule: merge_searchers.induct)
  case (2 v vs a)
  then show ?case by (cases v) auto
qed simp

lemma merge_ptr_arrays_get:
  "distinct (map fst kvs) \<Longrightarrow> ptrArrayArgs (merge_ptr_arrays kvs a) k =
     (case map_of kvs k of
        Some v \<Rightarrow> Some (case getAsArray v of None \<Rightarrow> [] | Some ar \<Rightarrow> json_ints ar)
      | None \<Rightarrow> ptrArrayArgs a k)"
  by (induction kvs a rule: merge_ptr_arrays.induct)
    (auto split: option.splits dest: map_of_SomeD simp: image_iff)

lemmas merge_get = merge_handle_types_get merge_allocators_get merge_searchers_get
  merge_ptr_arrays_get

text \<open>The entries of a section of the file; a missing or mistyped section has none.\<close>

definition section_of :: "(string \<times> json) list \<Rightarrow> string \<Rightarrow> (string \<times> json) list" where
  "section_of obj k = (case getObject obj k of None \<Rightarrow> [] | Some kvs \<Rightarrow> kvs)"

definition array_of :: "(string \<times> json) list \<Rightarrow> string \<Rightarrow> json list" where
  "array_of obj k = (case getArray obj k of None \<Rightarrow> [] | Some vs \<Rightarrow> vs)"

lemma merge_section:
  "(case getObject obj k of None \<Rightarrow> a | Some kvs \<Rightarrow> merge_handle_types kvs a)
     = merge_handle_types (section_of obj k) a"
  "(case getObject obj k of None \<Rightarrow> a | Some kvs \<Rightarrow> merge_allocators kvs a)
     = merge_allocators (section_of obj k) a"
  "(case getObject obj k of None \<Rightarrow> a | Some kvs \<Rightarrow> merge_ptr_arrays kvs a)
     = merge_ptr_arrays (section_of obj k) a"
  "(case getArray obj k of None \<Rightarrow> a | Some vs \<Rightarrow> merge_searchers vs a)
     = merge_searchers (array_of obj k) a"
  by (simp_all add: section_of_def array_of_def split: option.splits)


definition sample_file :: "(string \<times> json) list" where
  "sample_file = [(''handle_types'', JObject [(''z_stream'', JString ''zs''), (''bad'', JNull)]),
     (''allocators'', JObject [(''malloc'', JNull)]),
     (''return_into_arg0'', JArray [JString ''my_find''])]"


end
