(* ===== verification/Seen_Search.thy ===== *)
theory Seen_Search
  imports Lind_Prelude
begin

text \<open>
  The contract of the recursive searches of \<^verbatim>\<open>Infer.cpp\<close>. Each of them takes a value and a
  \<^verbatim>\<open>SmallPtrSetImpl &seen\<close>, gives up at the null pointer or at a value already in the set,
  inserts the value, and then either decides or recurses into the operands from left to
  right, passing the set and its flags by reference. The set makes the recursion end; the
  model counts the calls with fuel, and the lemmas below say that one unit per value is
  enough and that the answer is reachability of a deciding value.

  Values are numbers below \<open>N\<close>; a number outside stands for the null pointer.
\<close>

section \<open>Reachability\<close>

inductive reaches :: "nat \<Rightarrow> (nat \<Rightarrow> 'r option + nat list) \<Rightarrow> nat \<Rightarrow> 'r \<Rightarrow> bool"
  for N expand where
  hit: "v < N \<Longrightarrow> expand v = Inl (Some r) \<Longrightarrow> reaches N expand v r"
| hop: "v < N \<Longrightarrow> expand v = Inr vs \<Longrightarrow> u \<in> set vs \<Longrightarrow> reaches N expand u r \<Longrightarrow> reaches N expand v r"

lemma reaches_bound: "reaches N expand v r \<Longrightarrow> v < N"
  by (auto elim: reaches.cases)

section \<open>The contract\<close>

locale seen_dfs =
  fixes N :: nat
    and expand :: "nat \<Rightarrow> 'r option + nat list"
    and flag :: "nat \<Rightarrow> 'f \<Rightarrow> 'f"
    and search :: "nat \<Rightarrow> nat \<Rightarrow> 'f \<Rightarrow> nat list \<Rightarrow> ('r option \<times> 'f \<times> nat list) option"
    and search_list :: "nat \<Rightarrow> nat list \<Rightarrow> 'f \<Rightarrow> nat list \<Rightarrow> ('r option \<times> 'f \<times> nat list) option"
  assumes search_0: "search 0 v f seen = None"
    and search_Suc: "search (Suc n) v f seen =
      (if \<not> v < N \<or> v \<in> set seen then Some (None, f, seen)
       else case expand v of
              Inl r \<Rightarrow> Some (r, flag v f, v # seen)
            | Inr vs \<Rightarrow> search_list n vs (flag v f) (v # seen))"
    and search_list_Nil: "search_list n [] f seen = Some (None, f, seen)"
    and search_list_Cons: "search_list n (v # vs) f seen =
      (case search n v f seen of
         None \<Rightarrow> None
       | Some (Some r, f', s') \<Rightarrow> Some (Some r, f', s')
       | Some (None, f', s') \<Rightarrow> search_list n vs f' s')"
begin

text \<open>What is left to visit.\<close>

definition fresh :: "nat list \<Rightarrow> nat set" where
  "fresh seen = {v. v < N \<and> v \<notin> set seen}"

lemma finite_fresh [simp]: "finite (fresh seen)"
  by (simp add: fresh_def)

lemma fresh_mono: "set s \<subseteq> set s' \<Longrightarrow> card (fresh s') \<le> card (fresh s)"
  by (rule card_mono) (auto simp: fresh_def)

lemma fresh_insert: "v < N \<Longrightarrow> v \<notin> set s \<Longrightarrow> card (fresh (v # s)) < card (fresh s)"
  by (rule psubset_card_mono) (auto simp: fresh_def)

subsection \<open>Enough fuel\<close>

lemma search_returns:
  shows "card (fresh seen) < n \<Longrightarrow>
      \<exists>r f' s'. search n v f seen = Some (r, f', s') \<and> set seen \<subseteq> set s'"
    and "card (fresh seen) < n \<Longrightarrow>
      \<exists>r f' s'. search_list n vs f seen = Some (r, f', s') \<and> set seen \<subseteq> set s'"
proof (induction n arbitrary: v vs f seen)
  case 0
  { case 1 then show ?case by simp next case 2 then show ?case by simp }
next
  case (Suc n)
  have one: "\<exists>r f' s'. search (Suc n) v f seen = Some (r, f', s') \<and> set seen \<subseteq> set s'"
    if fuel: "card (fresh seen) < Suc n" for v f seen
  proof (cases "\<not> v < N \<or> v \<in> set seen")
    case True
    then show ?thesis by (auto simp: search_Suc)
  next
    case False
    then have "card (fresh (v # seen)) < n" using fuel fresh_insert [of v seen] by simp
    then have "\<exists>r f' s'. search_list n vs (flag v f) (v # seen) = Some (r, f', s')
        \<and> set (v # seen) \<subseteq> set s'" for vs
      by (rule Suc.IH(2))
    with False show ?thesis by (fastforce simp: search_Suc split: sum.splits)
  qed
  have many: "\<exists>r f' s'. search_list (Suc n) vs f seen = Some (r, f', s') \<and> set seen \<subseteq> set s'"
    if "card (fresh seen) < Suc n" for vs f seen
    using that
  proof (induction vs arbitrary: f seen)
    case Nil
    then show ?case by (simp add: search_list_Nil)
  next
    case (Cons v vs)
    obtain r f' s' where s': "search (Suc n) v f seen = Some (r, f', s')" "set seen \<subseteq> set s'"
      using one [OF Cons.prems] by blast
    have "card (fresh s') < Suc n" using fresh_mono [OF s'(2)] Cons.prems by simp
    from Cons.IH [OF this, of f'] s' show ?case
      by (cases r) (auto simp: search_list_Cons)
  qed
  { case 1 then show ?case by (rule one) next case 2 then show ?case by (rule many) }
qed

lemma search_total: "\<exists>r f' s'. search (Suc N) v f [] = Some (r, f', s')"
proof -
  have "card (fresh []) < Suc N" by (simp add: fresh_def)
  then show ?thesis using search_returns(1) by blast
qed

subsection \<open>Soundness\<close>

lemma search_sound:
  shows "search n v f seen = Some (Some r, f', s') \<Longrightarrow> reaches N expand v r"
    and "search_list n vs f seen = Some (Some r, f', s') \<Longrightarrow> \<exists>v\<in>set vs. reaches N expand v r"
proof (induction n arbitrary: v vs f seen f' s')
  case 0
  { case 1 then show ?case by (simp add: search_0)
  next
    case 2 then show ?case by (cases vs) (auto simp: search_list_Nil search_list_Cons search_0) }
next
  case (Suc n)
  have one: "reaches N expand v r" if "search (Suc n) v f seen = Some (Some r, f', s')" for v f seen f' s'
    using that
    by (auto simp: search_Suc split: if_splits sum.splits dest!: Suc.IH(2) intro: reaches.intros)
  have many: "\<exists>v\<in>set vs. reaches N expand v r"
    if "search_list (Suc n) vs f seen = Some (Some r, f', s')" for vs f seen f' s'
    using that
  proof (induction vs arbitrary: f seen)
    case Nil
    then show ?case by (simp add: search_list_Nil)
  next
    case (Cons v vs)
    then consider "search (Suc n) v f seen = Some (Some r, f', s')"
      | f1 s1 where "search_list (Suc n) vs f1 s1 = Some (Some r, f', s')"
      by (auto simp: search_list_Cons split: option.splits)
    then show ?case using one Cons.IH by cases auto
  qed
  { case 1 then show ?case by (rule one) next case 2 then show ?case by (rule many) }
qed

subsection \<open>Completeness\<close>

text \<open>A search that finds nothing leaves a set whose new members do not decide and whose operands
  are all in it.\<close>

definition settled :: "nat list \<Rightarrow> nat \<Rightarrow> bool" where
  "settled s u \<longleftrightarrow> (\<forall>r. expand u = Inl r \<longrightarrow> r = None)
     \<and> (\<forall>vs w. expand u = Inr vs \<longrightarrow> w \<in> set vs \<longrightarrow> w < N \<longrightarrow> w \<in> set s)"

definition closed_from :: "nat list \<Rightarrow> nat list \<Rightarrow> bool" where
  "closed_from seen s' \<longleftrightarrow> set seen \<subseteq> set s' \<and> (\<forall>u \<in> set s' - set seen. settled s' u)"

lemma settled_mono: "set s \<subseteq> set s' \<Longrightarrow> settled s u \<Longrightarrow> settled s' u"
  unfolding settled_def by blast

lemma closed_from_refl [simp]: "closed_from s s"
  by (simp add: closed_from_def)

lemma closed_from_trans:
  assumes "closed_from a b" and "closed_from b c"
  shows "closed_from a c"
  unfolding closed_from_def
proof (intro conjI ballI)
  show "set a \<subseteq> set c" using assms by (auto simp: closed_from_def)
next
  fix u assume u: "u \<in> set c - set a"
  show "settled c u"
  proof (cases "u \<in> set b")
    case True
    with u assms(1) have "settled b u" by (simp add: closed_from_def)
    with assms(2) show ?thesis by (auto simp: closed_from_def intro: settled_mono)
  next
    case False
    with u assms(2) show ?thesis by (simp add: closed_from_def)
  qed
qed

lemma closed_from_sub: "closed_from a b \<Longrightarrow> v \<in> set a \<Longrightarrow> v \<in> set b"
  by (auto simp: closed_from_def)

lemma search_none:
  shows "search n v f seen = Some (None, f', s') \<Longrightarrow> closed_from seen s' \<and> (v < N \<longrightarrow> v \<in> set s')"
    and "search_list n vs f seen = Some (None, f', s') \<Longrightarrow>
      closed_from seen s' \<and> (\<forall>v\<in>set vs. v < N \<longrightarrow> v \<in> set s')"
proof (induction n arbitrary: v vs f seen f' s')
  case 0
  { case 1 then show ?case by (simp add: search_0)
  next
    case 2 then show ?case by (cases vs) (auto simp: search_list_Nil search_list_Cons search_0) }
next
  case (Suc n)
  have one: "closed_from seen s' \<and> (v < N \<longrightarrow> v \<in> set s')"
    if "search (Suc n) v f seen = Some (None, f', s')" for v f seen f' s'
  proof (cases "\<not> v < N \<or> v \<in> set seen")
    case True
    with that show ?thesis by (auto simp: search_Suc)
  next
    case new: False
    show ?thesis
    proof (cases "expand v")
      case (Inl r)
      with that new show ?thesis by (auto simp: search_Suc closed_from_def settled_def)
    next
      case (Inr ws)
      with that new have "search_list n ws (flag v f) (v # seen) = Some (None, f', s')"
        by (simp add: search_Suc)
      from Suc.IH(2) [OF this] have c: "closed_from (v # seen) s'"
        and ws: "\<forall>w\<in>set ws. w < N \<longrightarrow> w \<in> set s'" by auto
      have "settled s' v" using ws Inr by (simp add: settled_def)
      with c show ?thesis by (auto simp: closed_from_def)
    qed
  qed
  have many: "closed_from seen s' \<and> (\<forall>v\<in>set vs. v < N \<longrightarrow> v \<in> set s')"
    if "search_list (Suc n) vs f seen = Some (None, f', s')" for vs f seen f' s'
    using that
  proof (induction vs arbitrary: f seen)
    case Nil
    then show ?case by (simp add: search_list_Nil)
  next
    case (Cons v vs)
    then obtain f1 s1 where s1: "search (Suc n) v f seen = Some (None, f1, s1)"
      and rest: "search_list (Suc n) vs f1 s1 = Some (None, f', s')"
      by (auto simp: search_list_Cons split: option.splits)
    from one [OF s1] Cons.IH [OF rest] show ?case
      using closed_from_trans [of seen s1 s'] closed_from_sub [of s1 s' v] by simp
  qed
  { case 1 then show ?case by (rule one) next case 2 then show ?case by (rule many) }
qed

lemma closed_no_reach:
  assumes "closed_from [] s" and "v \<in> set s"
  shows "\<not> reaches N expand v r"
proof
  assume "reaches N expand v r"
  then show False using assms(2)
  proof (induction rule: reaches.induct)
    case (hit v r)
    with assms(1) show ?case by (auto simp: closed_from_def settled_def)
  next
    case (hop v vs u r)
    have "settled s v" using assms(1) hop.prems by (simp add: closed_from_def)
    with hop.hyps(2,3) reaches_bound [OF hop.hyps(4)] have "u \<in> set s" by (simp add: settled_def)
    then show ?case by (rule hop.IH)
  qed
qed

lemma search_complete:
  assumes "search n v f [] = Some (None, f', s')"
  shows "\<not> reaches N expand v r"
proof (cases "v < N")
  case True
  with search_none(1) [OF assms] show ?thesis using closed_no_reach [of s' v r] by simp
next
  case False
  then show ?thesis using reaches_bound [of N expand v r] by auto
qed

lemma search_decides:
  assumes "search n v f [] = Some (r, f', s')"
  shows "r = None \<longleftrightarrow> (\<forall>x. \<not> reaches N expand v x)"
proof (cases r)
  case None
  with assms search_complete [of n v f f' s'] show ?thesis by simp
next
  case (Some x)
  with assms search_sound(1) [of n v f "[]" x f' s'] show ?thesis by auto
qed

subsection \<open>Flags\<close>

text \<open>A flag that only the values of \<open>raised\<close> can set and nothing clears: a hit that returns with the
  flag clear was reached without going through any of them.\<close>

lemma search_clear:
  assumes "\<And>v f. bad (flag v f) \<longleftrightarrow> bad f \<or> raised v"
  shows "search n v f seen = Some (r, f', s') \<Longrightarrow> \<not> bad f' \<Longrightarrow>
      \<not> bad f \<and> (\<forall>x. r = Some x \<longrightarrow> reaches N (\<lambda>v. if raised v then Inl None else expand v) v x)"
    and "search_list n vs f seen = Some (r, f', s') \<Longrightarrow> \<not> bad f' \<Longrightarrow>
      \<not> bad f \<and> (\<forall>x. r = Some x \<longrightarrow>
        (\<exists>v\<in>set vs. reaches N (\<lambda>v. if raised v then Inl None else expand v) v x))"
proof (induction n arbitrary: v vs f seen r f' s')
  case 0
  { case 1 then show ?case by (simp add: search_0)
  next
    case 2 then show ?case by (cases vs) (auto simp: search_list_Nil search_list_Cons search_0) }
next
  case (Suc n)
  let ?E = "\<lambda>v. if raised v then Inl None else expand v"
  have one: "\<not> bad f \<and> (\<forall>x. r = Some x \<longrightarrow> reaches N ?E v x)"
    if s: "search (Suc n) v f seen = Some (r, f', s')" and f': "\<not> bad f'" for v f seen r f' s'
  proof (cases "\<not> v < N \<or> v \<in> set seen")
    case True
    with s f' show ?thesis by (simp add: search_Suc)
  next
    case new: False
    show ?thesis
    proof (cases "expand v")
      case (Inl y)
      with s f' new assms [of v f] show ?thesis by (auto simp: search_Suc intro: hit)
    next
      case (Inr ws)
      with s new have l: "search_list n ws (flag v f) (v # seen) = Some (r, f', s')"
        by (simp add: search_Suc)
      from Suc.IH(2) [OF l f'] assms [of v f] have f: "\<not> bad f" "\<not> raised v"
        and ws: "\<forall>x. r = Some x \<longrightarrow> (\<exists>v\<in>set ws. reaches N ?E v x)" by auto
      have "?E v = Inr ws" using f(2) Inr by simp
      from hop [of v N ?E, OF _ this] new f(1) ws show ?thesis by blast
    qed
  qed
  have many: "\<not> bad f \<and> (\<forall>x. r = Some x \<longrightarrow> (\<exists>v\<in>set vs. reaches N ?E v x))"
    if "search_list (Suc n) vs f seen = Some (r, f', s')" and "\<not> bad f'" for vs f seen r f' s'
    using that
  proof (induction vs arbitrary: f seen)
    case Nil
    then show ?case by (simp add: search_list_Nil)
  next
    case (Cons v vs)
    then obtain r1 f1 s1 where s1: "search (Suc n) v f seen = Some (r1, f1, s1)"
      and rest: "(case r1 of Some x \<Rightarrow> Some (Some x, f1, s1) | None \<Rightarrow> search_list (Suc n) vs f1 s1)
        = Some (r, f', s')"
      by (auto simp: search_list_Cons split: option.splits)
    show ?case
    proof (cases r1)
      case None
      with rest Cons.IH [of f1 s1] Cons.prems(2) one [OF s1] show ?thesis by auto
    next
      case (Some x)
      with rest one [OF s1] Cons.prems(2) show ?thesis by auto
    qed
  qed
  { case 1 then show ?case by (rule one) next case 2 then show ?case by (rule many) }
qed

end

section \<open>Worklists\<close>

text \<open>
  The idiom \<^verbatim>\<open>if (seen.insert(x).second) work.push_back(x)\<close>; the head of the list is the back of
  the vector. The weight bounds what a worklist loop still does: popping takes one away, and a
  push pays for itself by a value that is no longer unseen.
\<close>

definition push_new :: "nat \<Rightarrow> nat \<Rightarrow> nat list \<times> nat list \<Rightarrow> nat list \<times> nat list" where
  "push_new N x ws =
     (let (work, seen) = ws in
      if x < N \<and> x \<notin> set seen then (x # work, x # seen) else (work, seen))"

definition weight :: "nat \<Rightarrow> nat list \<times> nat list \<Rightarrow> nat" where
  "weight N ws = 2 * card {v. v < N \<and> v \<notin> set (snd ws)} + length (fst ws)"

lemma unseen_insert:
  assumes "x < (N :: nat)" and "x \<notin> set seen"
  shows "card {v. v < N \<and> v \<notin> set (x # seen)} < card {v. v < N \<and> v \<notin> set seen}"
proof (rule psubset_card_mono)
  show "finite {v. v < N \<and> v \<notin> set seen}" by (rule finite_subset [of _ "{..<N}"]) auto
qed (use assms in auto)

lemma weight_push: "weight N (push_new N x ws) \<le> weight N ws"
proof (cases ws)
  case (Pair work seen)
  show ?thesis
  proof (cases "x < N \<and> x \<notin> set seen")
    case True
    with unseen_insert [of x N seen] Pair show ?thesis
      by (simp add: push_new_def weight_def Let_def)
  next
    case False
    with Pair show ?thesis by (auto simp: push_new_def Let_def)
  qed
qed

lemma weight_pop: "weight N (work, seen) < weight N (v # work, seen)"
  by (simp add: weight_def)

section \<open>The contract of a worklist\<close>

text \<open>What a worklist started at \<open>v\<close> visits.\<close>

inductive visits :: "nat \<Rightarrow> (nat \<Rightarrow> nat list) \<Rightarrow> nat \<Rightarrow> nat \<Rightarrow> bool" for N succs v where
  start: "visits N succs v v"
| onward: "visits N succs v u \<Longrightarrow> w \<in> set (succs u) \<Longrightarrow> w < N \<Longrightarrow> visits N succs v w"

lemma fold_push_new:
  "\<exists>new. fold (push_new N) xs (work, seen) = (new @ work, new @ seen) \<and> distinct new
     \<and> set new = {x \<in> set xs. x < N \<and> x \<notin> set seen}"
proof (induction xs arbitrary: work seen)
  case Nil
  then show ?case by simp
next
  case (Cons x xs)
  show ?case
  proof (cases "x < N \<and> x \<notin> set seen")
    case True
    obtain new where new: "fold (push_new N) xs (x # work, x # seen) = (new @ x # work, new @ x # seen)"
      "distinct new" "set new = {y \<in> set xs. y < N \<and> y \<notin> set (x # seen)}"
      using Cons.IH [of "x # work" "x # seen"] by blast
    with True have "fold (push_new N) (x # xs) (work, seen) = ((new @ [x]) @ work, (new @ [x]) @ seen)"
      by (simp add: push_new_def)
    moreover have "distinct (new @ [x])" using new by simp
    moreover have "set (new @ [x]) = {y \<in> set (x # xs). y < N \<and> y \<notin> set seen}" using new True by auto
    ultimately show ?thesis by blast
  next
    case False
    then have "push_new N x (work, seen) = (work, seen)" by (auto simp: push_new_def)
    with Cons.IH [of work seen] False show ?thesis by auto
  qed
qed

lemma weight_fold_push: "weight N (fold (push_new N) xs ws) \<le> weight N ws"
proof (induction xs arbitrary: ws)
  case Nil
  then show ?case by simp
next
  case (Cons x xs)
  from Cons [of "push_new N x ws"] weight_push [of N x ws] show ?case by simp
qed

locale worklist =
  fixes N :: nat
    and succs :: "nat \<Rightarrow> nat list"
    and act :: "nat \<Rightarrow> 'a \<Rightarrow> 'a"
    and loop :: "'a \<Rightarrow> nat list \<times> nat list \<Rightarrow> 'a"
  assumes loop_Nil: "loop a ([], seen) = a"
    and loop_Cons: "loop a (v # work, seen) = loop (act v a) (fold (push_new N) (succs v) (work, seen))"
begin

text \<open>Started with a worklist inside the seen set and every finished value's successors seen, the
  loop acts once on each value it still has to visit.\<close>

lemma loop_order:
  assumes "set work \<subseteq> set seen" and "distinct work"
    and "\<forall>u \<in> set seen - set work. \<forall>w \<in> set (succs u). w < N \<longrightarrow> w \<in> set seen"
  shows "\<exists>order. loop a (work, seen) = fold act order a \<and> distinct order
    \<and> set work \<subseteq> set order \<and> set order \<inter> (set seen - set work) = {}
    \<and> (\<forall>u \<in> set order \<union> set seen. \<forall>w \<in> set (succs u). w < N \<longrightarrow> w \<in> set order \<union> set seen)
    \<and> (\<forall>x \<in> set order. \<exists>u \<in> set work. visits N succs u x)"
  using assms
proof (induction "weight N (work, seen)" arbitrary: work seen a rule: less_induct)
  case less
  show ?case
  proof (cases work)
    case Nil
    with less.prems show ?thesis by (intro exI [of _ "[]"]) (auto simp: loop_Nil)
  next
    case (Cons v rest)
    obtain new where new: "fold (push_new N) (succs v) (rest, seen) = (new @ rest, new @ seen)"
      "distinct new" "set new = {x \<in> set (succs v). x < N \<and> x \<notin> set seen}"
      using fold_push_new by blast
    have w: "weight N (new @ rest, new @ seen) < weight N (work, seen)"
      using weight_fold_push [of N "succs v" "(rest, seen)"] weight_pop [of N rest seen v]
      by (simp add: new(1) Cons)
    have sub: "set (new @ rest) \<subseteq> set (new @ seen)" using less.prems(1) Cons by auto
    have dist: "distinct (new @ rest)" using less.prems(1,2) new(2,3) Cons by auto
    have closed: "\<forall>u \<in> set (new @ seen) - set (new @ rest). \<forall>w \<in> set (succs u). w < N \<longrightarrow> w \<in> set (new @ seen)"
    proof (intro ballI impI)
      fix u w assume u: "u \<in> set (new @ seen) - set (new @ rest)" and w: "w \<in> set (succs u)" "w < N"
      show "w \<in> set (new @ seen)"
      proof (cases "u = v")
        case True
        with w new(3) show ?thesis by auto
      next
        case False
        with u Cons have "u \<in> set seen - set work" by auto
        with less.prems(3) w have "w \<in> set seen" by blast
        then show ?thesis by simp
      qed
    qed
    obtain order where o: "loop (act v a) (new @ rest, new @ seen) = fold act order (act v a)"
      "distinct order" "set (new @ rest) \<subseteq> set order"
      "set order \<inter> (set (new @ seen) - set (new @ rest)) = {}"
      "\<forall>u \<in> set order \<union> set (new @ seen). \<forall>w \<in> set (succs u). w < N \<longrightarrow> w \<in> set order \<union> set (new @ seen)"
      "\<forall>x \<in> set order. \<exists>u \<in> set (new @ rest). visits N succs u x"
      using less.hyps [OF w sub dist closed, of "act v a"] by (elim exE conjE) (rule that)
    have v: "v \<in> set seen" "v \<notin> set rest" "v \<notin> set new" using less.prems(1,2) new(3) Cons by auto
    have trans: "visits N succs v x" if "u \<in> set new" "visits N succs u x" for u x
      using that(2)
    proof (induction rule: visits.induct)
      case start
      have "u \<in> set (succs v)" "u < N" using that(1) new(3) by auto
      with visits.onward [OF visits.start] show ?case .
    next
      case (onward y w)
      from visits.onward [OF onward.IH onward.hyps(2,3)] show ?case .
    qed
    show ?thesis
    proof (intro exI [of _ "v # order"] conjI)
      show "loop a (work, seen) = fold act (v # order) a" using o(1) new(1) by (simp add: Cons loop_Cons)
      show "distinct (v # order)" using o(2,4) v by auto
      show "set work \<subseteq> set (v # order)" using o(3) Cons by auto
      show "set (v # order) \<inter> (set seen - set work) = {}" using o(4) new(3) Cons by auto
      show "\<forall>u \<in> set (v # order) \<union> set seen. \<forall>w \<in> set (succs u). w < N \<longrightarrow> w \<in> set (v # order) \<union> set seen"
      proof (intro ballI impI)
        fix u w assume u: "u \<in> set (v # order) \<union> set seen" and w: "w \<in> set (succs u)" "w < N"
        have "u \<in> set order \<union> set (new @ seen)" using u v(1) by auto
        with o(5) w have "w \<in> set order \<union> set (new @ seen)" by blast
        then show "w \<in> set (v # order) \<union> set seen" using o(3) by auto
      qed
      show "\<forall>x \<in> set (v # order). \<exists>u \<in> set work. visits N succs u x"
      proof
        fix x assume "x \<in> set (v # order)"
        then consider "x = v" | "x \<in> set order" by auto
        then show "\<exists>u \<in> set work. visits N succs u x"
        proof cases
          case 1
          then show ?thesis using Cons visits.start by auto
        next
          case 2
          then obtain u where "u \<in> set (new @ rest)" "visits N succs u x" using o(6) by blast
          then show ?thesis using trans [of u x] Cons by auto
        qed
      qed
    qed
  qed
qed

lemma loop_visits:
  "\<exists>order. loop a ([v], [v]) = fold act order a \<and> distinct order \<and> set order = {x. visits N succs v x}"
proof -
  obtain order where o: "loop a ([v], [v]) = fold act order a" "distinct order" "v \<in> set order"
    "\<forall>u \<in> set order. \<forall>w \<in> set (succs u). w < N \<longrightarrow> w \<in> set order"
    "\<forall>x \<in> set order. visits N succs v x"
    using loop_order [of "[v]" "[v]" a] by auto
  have "x \<in> set order" if "visits N succs v x" for x
    using that by (induction rule: visits.induct) (use o(3,4) in blast)+
  with o show ?thesis by blast
qed

end

section \<open>The contract of a search that marks on popping\<close>

text \<open>The other idiom, \<^verbatim>\<open>if (!seen.insert(cur).second) continue;\<close>: the worklist may hold a value more
  than once, and the search stops at the first value that is a hit.\<close>

definition unseen :: "nat \<Rightarrow> nat list \<Rightarrow> nat" where
  "unseen N seen = card {v. v < N \<and> v \<notin> set seen}"

lemma unseen_Cons: "x < N \<Longrightarrow> x \<notin> set seen \<Longrightarrow> unseen N (x # seen) < unseen N seen"
  unfolding unseen_def by (rule unseen_insert)

locale pop_search =
  fixes N :: nat
    and succs :: "nat \<Rightarrow> nat list"
    and hit :: "nat \<Rightarrow> bool"
    and loop :: "nat list \<times> nat list \<Rightarrow> bool"
  assumes loop_Nil: "\<not> loop ([], seen)"
    and loop_old: "\<not> v < N \<or> v \<in> set seen \<and> \<not> hit v \<Longrightarrow> loop (v # work, seen) = loop (work, seen)"
    and loop_new: "v < N \<Longrightarrow> v \<notin> set seen \<Longrightarrow>
      loop (v # work, seen) = (hit v \<or> loop (rev (succs v) @ work, v # seen))"
begin

definition hit_from :: "nat set \<Rightarrow> bool" where
  "hit_from A \<longleftrightarrow> (\<exists>u\<in>A. u < N \<and> (\<exists>x. visits N succs u x \<and> hit x))"

lemma hit_from_step: "v < N \<Longrightarrow> hit_from (set (succs v) \<union> insert v A) = hit_from (insert v A)"
proof
  assume v: "v < N" and h: "hit_from (set (succs v) \<union> insert v A)"
  then obtain u x where u: "u \<in> set (succs v) \<union> insert v A" "u < N" "visits N succs u x" "hit x"
    by (auto simp: hit_from_def)
  show "hit_from (insert v A)"
  proof (cases "u \<in> set (succs v)")
    case True
    from u(3) have "visits N succs v x"
    proof (induction rule: visits.induct)
      case start
      from visits.onward [of N succs v v u, OF visits.start True u(2)] show ?case .
    next
      case (onward y w)
      from visits.onward [OF onward.IH onward.hyps(2,3)] show ?case .
    qed
    with v u(4) show ?thesis by (auto simp: hit_from_def)
  next
    case False
    with u show ?thesis by (auto simp: hit_from_def)
  qed
qed (auto simp: hit_from_def)

lemma loop_hit:
  assumes "\<forall>s \<in> set seen. \<not> hit s"
    and "\<forall>s \<in> set seen. \<forall>w \<in> set (succs s). w < N \<longrightarrow> w \<in> set seen \<union> set work"
  shows "loop (work, seen) \<longleftrightarrow> hit_from (set work \<union> set seen)"
  using assms
proof (induction "(unseen N seen, length work)" arbitrary: work seen
    rule: wf_induct_rule [OF wf_lex_prod [OF wf_less_than wf_less_than], case_names less])
  case less
  show ?case
  proof (cases work)
    case Nil
    have "\<not> hit_from (set seen)"
    proof
      assume "hit_from (set seen)"
      then obtain u x where u: "u \<in> set seen" "visits N succs u x" "hit x" by (auto simp: hit_from_def)
      from u(2) have "x \<in> set seen"
        by (induction rule: visits.induct) (use u(1) less.prems(2) Nil in auto)
      with u(3) less.prems(1) show False by blast
    qed
    with Nil show ?thesis by (simp add: loop_Nil)
  next
    case (Cons v rest)
    show ?thesis
    proof (cases "v < N \<and> v \<notin> set seen")
      case False
      have old: "loop (v # rest, seen) = loop (rest, seen)"
        using False less.prems(1) by (intro loop_old) auto
      have "loop (rest, seen) \<longleftrightarrow> hit_from (set rest \<union> set seen)"
        by (rule less.hyps) (use less.prems Cons False in auto)
      also have "\<dots> \<longleftrightarrow> hit_from (set work \<union> set seen)"
        using False Cons by (auto simp: hit_from_def)
      finally show ?thesis using old Cons by simp
    next
      case True
      show ?thesis
      proof (cases "hit v")
        case hit: True
        then show ?thesis using True Cons loop_new [of v seen rest] visits.start [of N succs v]
          by (auto simp: hit_from_def)
      next
        case False
        have "loop (rev (succs v) @ rest, v # seen) \<longleftrightarrow> hit_from (set (rev (succs v) @ rest) \<union> set (v # seen))"
        proof (rule less.hyps)
          show "((unseen N (v # seen), length (rev (succs v) @ rest)), unseen N seen, length work)
              \<in> less_than <*lex*> less_than"
            using unseen_Cons [of v N seen] True by simp
        qed (use less.prems Cons False in auto)
        also have "set (rev (succs v) @ rest) \<union> set (v # seen) = set (succs v) \<union> insert v (set rest \<union> set seen)"
          by auto
        also have "hit_from \<dots> \<longleftrightarrow> hit_from (insert v (set rest \<union> set seen))"
          using True by (intro hit_from_step) simp
        finally show ?thesis using True False Cons loop_new [of v seen rest] by simp
      qed
    qed
  qed
qed

lemma loop_start: "loop (rev vs, []) \<longleftrightarrow> (\<exists>u \<in> set vs. u < N \<and> (\<exists>x. visits N succs u x \<and> hit x))"
  using loop_hit [of "[]" "rev vs"] by (simp add: hit_from_def)

end

end
