(* ===== verification/IR_View.thy ===== *)
theory IR_View
  imports Annotations Seen_Search "HOL-Library.Monad_Syntax"
begin

text \<open>
  The LLVM IR of a function as \<^verbatim>\<open>Infer.cpp\<close> observes it. LLVM is not part of the sources; the
  bitcode is the input of the tool, and a value of type \<open>llfun\<close> holds the answers of the
  accessors the tool calls: which class a value has (\<open>dyn_cast\<close>, \<open>isa\<close>) with its operands, its
  type, its users in use-list order, what \<^verbatim>\<open>stripPointerCasts\<close> returns, the blocks, the formal
  arguments with their attributes. Nothing is assumed about these answers.

  A value is a number below \<open>ll_size\<close>; any other number stands for the null pointer.
\<close>

type_synonym vid = nat

section \<open>Types\<close>

datatype ll_type =
    TyPtr | TyInt nat | TyFP128 | TyFloat nat | TyVector nat | TyVoid | TyAggregate

definition isPointerTy :: "ll_type \<Rightarrow> bool" where
  "isPointerTy t \<longleftrightarrow> t = TyPtr"

definition isIntegerTy :: "ll_type \<Rightarrow> bool" where
  "isIntegerTy t \<longleftrightarrow> (\<exists>n. t = TyInt n)"

definition isFP128Ty :: "ll_type \<Rightarrow> bool" where
  "isFP128Ty t \<longleftrightarrow> t = TyFP128"

definition isVoidTy :: "ll_type \<Rightarrow> bool" where
  "isVoidTy t \<longleftrightarrow> t = TyVoid"

lemma isIntegerTy_code [simp, code]:
  "isIntegerTy TyPtr = False" "isIntegerTy (TyInt n) = True" "isIntegerTy TyFP128 = False"
  "isIntegerTy (TyFloat n) = False" "isIntegerTy (TyVector n) = False"
  "isIntegerTy TyVoid = False" "isIntegerTy TyAggregate = False"
  by (simp_all add: isIntegerTy_def)

text \<open>\<^verbatim>\<open>Type::getPrimitiveSizeInBits\<close>: 0 for pointers and aggregates.\<close>

fun primSizeInBits :: "ll_type \<Rightarrow> nat" where
  "primSizeInBits (TyInt n) = n"
| "primSizeInBits TyFP128 = 128"
| "primSizeInBits (TyFloat n) = n"
| "primSizeInBits (TyVector n) = n"
| "primSizeInBits _ = 0"

section \<open>Values and instructions\<close>

datatype intrinsic =
    IN_vastart | IN_vaend | IN_vacopy | IN_lifetime_start | IN_lifetime_end
  | IN_dbg_declare | IN_dbg_value | IN_dbg_assign | IN_other

datatype callee =
    Direct string          \<comment> \<open>a named function\<close>
  | DirectUnnamed
  | Indirect
  | Intrin intrinsic string

datatype icmp_pred = ICMP_EQ | ICMP_NE | ICMP_other

datatype ll_value =
    VArgument nat
  | VGlobalVariable
  | VNull
  | VConstInt int
  | VConstGEP vid
  | VOther
  | ILoad vid
  | IStore vid vid                \<comment> \<open>value operand, pointer operand\<close>
  | IGEP vid bool                 \<comment> \<open>pointer operand, \<^verbatim>\<open>hasAllZeroIndices\<close>\<close>
  | IBitCast vid
  | IAddrSpaceCast vid
  | IPtrToInt vid
  | IIntToPtr vid
  | IOtherCast vid                \<comment> \<open>\<^verbatim>\<open>zext\<close>, \<^verbatim>\<open>sext\<close>, \<^verbatim>\<open>trunc\<close> and the float conversions\<close>
  | IBinaryOperator vid vid
  | IPHI "vid list"
  | ISelect vid vid vid           \<comment> \<open>condition, true value, false value\<close>
  | IICmp icmp_pred vid vid
  | IBranch
  | IReturn "vid option"
  | IAlloca
  | IMemTransfer vid vid vid vid  \<comment> \<open>destination, source, length, volatile flag\<close>
  | IMemSet vid vid vid vid       \<comment> \<open>destination, value, length, volatile flag\<close>
  | ICall callee "vid list"
  | IOtherInst

record ll_arg =
  arg_vid :: vid
  arg_sret :: bool
  arg_byval :: bool
  arg_onlyReads :: bool
  arg_writeOnly :: bool
  arg_byvalTy :: "ll_type option"
  arg_sretTy :: "ll_type option"

record ll_block =
  bb_insts :: "vid list"
  bb_succs :: "nat list"

record llfun =
  ll_size :: nat
  ll_val :: "vid \<Rightarrow> ll_value"
  ll_ty :: "vid \<Rightarrow> ll_type"
  ll_users :: "vid \<Rightarrow> vid list"
  ll_strip :: "vid \<Rightarrow> vid"
  ll_parent :: "vid \<Rightarrow> nat"
  ll_blocks :: "ll_block list"
  ll_args :: "ll_arg list"
  ll_retTy :: ll_type
  ll_isVarArg :: bool
  ll_subprogram :: "di_subprogram option"
  ll_dwarf :: dwarf
  ll_allocSize :: "ll_type \<Rightarrow> nat"

definition all_insts :: "llfun \<Rightarrow> vid list" where
  "all_insts F = concat (map bb_insts (ll_blocks F))"

text \<open>The return values, \<^verbatim>\<open>dyn_cast<ReturnInst>(bb.getTerminator())\<close> with a value, in block order.\<close>

definition return_values :: "llfun \<Rightarrow> vid list" where
  "return_values F =
     concat (map (\<lambda>bb. if bb_insts bb = [] then []
                       else case ll_val F (last (bb_insts bb)) of
                              IReturn (Some rv) \<Rightarrow> [rv]
                            | _ \<Rightarrow> []) (ll_blocks F))"

subsection \<open>Dynamic casts\<close>

text \<open>One accessor per \<^verbatim>\<open>dyn_cast\<close> of the sources: the operands if the value has the class.\<close>

named_theorems ll_view "the class accessors, unfolded on a concrete value"

definition dyn_Load :: "ll_value \<Rightarrow> vid option" where
  [ll_view]: "dyn_Load v = (case v of ILoad p \<Rightarrow> Some p | _ \<Rightarrow> None)"

definition dyn_Store :: "ll_value \<Rightarrow> (vid \<times> vid) option" where
  [ll_view]: "dyn_Store v = (case v of IStore x p \<Rightarrow> Some (x, p) | _ \<Rightarrow> None)"

definition dyn_GEP :: "ll_value \<Rightarrow> (vid \<times> bool) option" where
  [ll_view]: "dyn_GEP v = (case v of IGEP p z \<Rightarrow> Some (p, z) | _ \<Rightarrow> None)"

definition dyn_GEPOperator :: "ll_value \<Rightarrow> vid option" where
  [ll_view]: "dyn_GEPOperator v =
     (case v of IGEP p z \<Rightarrow> Some p | VConstGEP p \<Rightarrow> Some p | _ \<Rightarrow> None)"

definition dyn_IntToPtr :: "ll_value \<Rightarrow> vid option" where
  [ll_view]: "dyn_IntToPtr v = (case v of IIntToPtr x \<Rightarrow> Some x | _ \<Rightarrow> None)"

definition dyn_PtrToInt :: "ll_value \<Rightarrow> vid option" where
  [ll_view]: "dyn_PtrToInt v = (case v of IPtrToInt x \<Rightarrow> Some x | _ \<Rightarrow> None)"

definition dyn_BinaryOperator :: "ll_value \<Rightarrow> (vid \<times> vid) option" where
  [ll_view]: "dyn_BinaryOperator v = (case v of IBinaryOperator a b \<Rightarrow> Some (a, b) | _ \<Rightarrow> None)"

definition dyn_PHI :: "ll_value \<Rightarrow> vid list option" where
  [ll_view]: "dyn_PHI v = (case v of IPHI ivs \<Rightarrow> Some ivs | _ \<Rightarrow> None)"

definition dyn_Select :: "ll_value \<Rightarrow> (vid \<times> vid) option" where
  [ll_view]: "dyn_Select v = (case v of ISelect c t f \<Rightarrow> Some (t, f) | _ \<Rightarrow> None)"

definition dyn_ICmp :: "ll_value \<Rightarrow> (icmp_pred \<times> vid \<times> vid) option" where
  [ll_view]: "dyn_ICmp v = (case v of IICmp p a b \<Rightarrow> Some (p, a, b) | _ \<Rightarrow> None)"

definition dyn_Argument :: "ll_value \<Rightarrow> nat option" where
  [ll_view]: "dyn_Argument v = (case v of VArgument i \<Rightarrow> Some i | _ \<Rightarrow> None)"

definition dyn_MemTransfer :: "ll_value \<Rightarrow> (vid \<times> vid \<times> vid) option" where
  [ll_view]: "dyn_MemTransfer v = (case v of IMemTransfer d s l x \<Rightarrow> Some (d, s, l) | _ \<Rightarrow> None)"

definition dyn_MemSet :: "ll_value \<Rightarrow> (vid \<times> vid) option" where
  [ll_view]: "dyn_MemSet v = (case v of IMemSet d y l x \<Rightarrow> Some (d, l) | _ \<Rightarrow> None)"

definition isa_GlobalVariable :: "ll_value \<Rightarrow> bool" where
  [ll_view]: "isa_GlobalVariable v \<longleftrightarrow> v = VGlobalVariable"

definition isa_Alloca :: "ll_value \<Rightarrow> bool" where
  [ll_view]: "isa_Alloca v \<longleftrightarrow> v = IAlloca"

definition isa_Branch :: "ll_value \<Rightarrow> bool" where
  [ll_view]: "isa_Branch v \<longleftrightarrow> v = IBranch"

definition isa_BitCast :: "ll_value \<Rightarrow> bool" where
  [ll_view]: "isa_BitCast v = (case v of IBitCast x \<Rightarrow> True | _ \<Rightarrow> False)"

definition isa_AddrSpaceCast :: "ll_value \<Rightarrow> bool" where
  [ll_view]: "isa_AddrSpaceCast v = (case v of IAddrSpaceCast x \<Rightarrow> True | _ \<Rightarrow> False)"

text \<open>A null pointer constant, or an integer constant that is zero.\<close>

definition isa_NullLike :: "ll_value \<Rightarrow> bool" where
  [ll_view]: "isa_NullLike v = (case v of VNull \<Rightarrow> True | VConstInt i \<Rightarrow> i = 0 | _ \<Rightarrow> False)"

text \<open>\<^verbatim>\<open>dyn_cast<CallBase>\<close>: the argument operands of a call of any kind.\<close>

definition dyn_CallBase :: "ll_value \<Rightarrow> vid list option" where
  [ll_view]: "dyn_CallBase v =
     (case v of
        ICall c args \<Rightarrow> Some args
      | IMemTransfer d s l x \<Rightarrow> Some [d, s, l, x]
      | IMemSet d y l x \<Rightarrow> Some [d, y, l, x]
      | _ \<Rightarrow> None)"

text \<open>The name of the called function, when it has one.\<close>

definition called_name :: "ll_value \<Rightarrow> string option" where
  [ll_view]: "called_name v =
     (case v of
        ICall c args \<Rightarrow> (case c of Direct nm \<Rightarrow> Some nm | Intrin i nm \<Rightarrow> Some nm | _ \<Rightarrow> None)
      | _ \<Rightarrow> None)"

text \<open>\<^verbatim>\<open>dyn_cast<IntrinsicInst>\<close> and its id.\<close>

definition dyn_Intrinsic :: "ll_value \<Rightarrow> intrinsic option" where
  [ll_view]: "dyn_Intrinsic v =
     (case v of
        ICall c args \<Rightarrow> (case c of Intrin i nm \<Rightarrow> Some i | _ \<Rightarrow> None)
      | IMemTransfer d s l x \<Rightarrow> Some IN_other
      | IMemSet d y l x \<Rightarrow> Some IN_other
      | _ \<Rightarrow> None)"

text \<open>\<^verbatim>\<open>dyn_cast<CastInst>\<close>: operand 0 of a cast of any kind.\<close>

definition dyn_Cast :: "ll_value \<Rightarrow> vid option" where
  [ll_view]: "dyn_Cast v =
     (case v of
        IBitCast x \<Rightarrow> Some x
      | IAddrSpaceCast x \<Rightarrow> Some x
      | IPtrToInt x \<Rightarrow> Some x
      | IIntToPtr x \<Rightarrow> Some x
      | IOtherCast x \<Rightarrow> Some x
      | _ \<Rightarrow> None)"

text \<open>A \<^verbatim>\<open>PtrToIntInst\<close> is a \<^verbatim>\<open>CastInst\<close>.\<close>

lemma dyn_PtrToInt_Cast: "dyn_PtrToInt v = Some p \<Longrightarrow> dyn_Cast v = Some p"
  by (cases v) (simp_all add: dyn_PtrToInt_def dyn_Cast_def)

section \<open>Functions given by a list\<close>

text \<open>The operands of a value, and a function whose values are a list: the users of a value are the
  entries that have it as an operand. The examples are such functions.\<close>

fun operands :: "ll_value \<Rightarrow> vid list" where
  "operands (VConstGEP p) = [p]"
| "operands (ILoad p) = [p]"
| "operands (IStore x p) = [x, p]"
| "operands (IGEP p z) = [p]"
| "operands (IBitCast x) = [x]"
| "operands (IAddrSpaceCast x) = [x]"
| "operands (IPtrToInt x) = [x]"
| "operands (IIntToPtr x) = [x]"
| "operands (IOtherCast x) = [x]"
| "operands (IBinaryOperator a b) = [a, b]"
| "operands (IPHI ivs) = ivs"
| "operands (ISelect c t f) = [c, t, f]"
| "operands (IICmp p a b) = [a, b]"
| "operands (IReturn (Some rv)) = [rv]"
| "operands (IMemTransfer d s l x) = [d, s, l, x]"
| "operands (IMemSet d y l x) = [d, y, l, x]"
| "operands (ICall f xs) = xs"
| "operands _ = []"

definition plain_arg :: "vid \<Rightarrow> ll_arg" where
  "plain_arg v = \<lparr> arg_vid = v, arg_sret = False, arg_byval = False, arg_onlyReads = False,
     arg_writeOnly = False, arg_byvalTy = None, arg_sretTy = None \<rparr>"

definition list_fun :: "(ll_value \<times> ll_type) list \<Rightarrow> ll_arg list \<Rightarrow> ll_type \<Rightarrow> llfun" where
  "list_fun vs as retTy =
     \<lparr> ll_size = length vs,
       ll_val = (\<lambda>v. if v < length vs then fst (vs ! v) else VOther),
       ll_ty = (\<lambda>v. if v < length vs then snd (vs ! v) else TyVoid),
       ll_users = (\<lambda>v. filter (\<lambda>u. v \<in> set (operands (fst (vs ! u)))) [0..<length vs]),
       ll_strip = id,
       ll_parent = (\<lambda>_. 0),
       ll_blocks = [\<lparr> bb_insts = [0..<length vs], bb_succs = [] \<rparr>],
       ll_args = as, ll_retTy = retTy, ll_isVarArg = False, ll_subprogram = None,
       ll_dwarf = list_dwarf, ll_allocSize = (\<lambda>_. 0) \<rparr>"

end
