(* ===== verification/Value_Trace.thy ===== *)
theory Value_Trace
  imports IR_View
begin

text \<open>
  The def-use searches of \<^verbatim>\<open>Infer.cpp\<close> (its small helpers up to \<^verbatim>\<open>isParseEndptrFn\<close>): which
  argument a returned pointer derives from, whether a pointer is loaded from a slot or is the
  address of a global, and the detectors built on them.

  \<open>None\<close> means that the call does not return (or, for the fuelled searches, ran out of fuel,
  which the lemmas exclude). A \<^verbatim>\<open>SmallPtrSet\<close> is the list of its members.
\<close>

section \<open>Small helpers\<close>

partial_function (option) stripIntCasts :: "llfun \<Rightarrow> vid \<Rightarrow> vid option" where
  "stripIntCasts F v =
     (case dyn_Cast (ll_val F v) of
        None \<Rightarrow> Some v
      | Some u \<Rightarrow> if \<not> isIntegerTy (ll_ty F v) then Some v else stripIntCasts F u)"

declare stripIntCasts.simps [code]

definition dwarfIndexOf :: "llfun \<Rightarrow> vid \<Rightarrow> nat \<Rightarrow> int" where
  "dwarfIndexOf F v sretOffset =
     (case dyn_Argument (ll_val F v) of
        Some argNo \<Rightarrow> (let idx = int argNo - int sretOffset in if 0 \<le> idx then idx else -1)
      | None \<Rightarrow> -1)"

text \<open>Whether the call found the underlying pointer, the offset flag and the set, after the call.\<close>

fun underlyingPtrOfInt ::
  "llfun \<Rightarrow> nat \<Rightarrow> vid \<Rightarrow> bool \<Rightarrow> vid list \<Rightarrow> (vid option \<times> bool \<times> vid list) option" where
  "underlyingPtrOfInt F 0 iv hadOffset seen = None"
| "underlyingPtrOfInt F (Suc n) iv hadOffset seen =
     (if \<not> iv < ll_size F \<or> iv \<in> set seen then Some (None, hadOffset, seen)
      else case stripIntCasts F iv of
        None \<Rightarrow> None
      | Some iv' \<Rightarrow>
        (case dyn_BinaryOperator (ll_val F iv') of
           Some (a, b) \<Rightarrow>
             (case underlyingPtrOfInt F n a True (iv # seen) of
                None \<Rightarrow> None
              | Some (Some p, h, s) \<Rightarrow> Some (Some p, h, s)
              | Some (None, h, s) \<Rightarrow> underlyingPtrOfInt F n b h s)
         | None \<Rightarrow> Some (dyn_PtrToInt (ll_val F iv'), hadOffset, iv # seen)))"

text \<open>
  \<^verbatim>\<open>traceReturnPtr\<close>: the index found (or -1), the offset flag and the set, after the call. The
  second function is the loop over the incoming values of a phi.
\<close>

fun traceReturnPtr ::
    "llfun \<Rightarrow> nat \<Rightarrow> vid \<Rightarrow> nat \<Rightarrow> bool \<Rightarrow> vid list \<Rightarrow> (int \<times> bool \<times> vid list) option"
  and traceReturnPhi ::
    "llfun \<Rightarrow> nat \<Rightarrow> vid list \<Rightarrow> nat \<Rightarrow> bool \<Rightarrow> vid list \<Rightarrow> (int \<times> bool \<times> vid list) option" where
  "traceReturnPtr F 0 v0 sretOffset hadOffset seen = None"
| "traceReturnPtr F (Suc n) v0 sretOffset hadOffset seen =
     (if \<not> v0 < ll_size F \<or> v0 \<in> set seen then Some (-1, hadOffset, seen)
      else let s = v0 # seen; v = ll_strip F v0; idx = dwarfIndexOf F v sretOffset in
        if 0 \<le> idx then Some (idx, hadOffset, s)
        else case dyn_GEP (ll_val F v) of
          Some (p, allZero) \<Rightarrow>
            traceReturnPtr F n p sretOffset (if allZero then hadOffset else True) s
        | None \<Rightarrow>
        (case dyn_IntToPtr (ll_val F v) of
          Some x \<Rightarrow>
            (case underlyingPtrOfInt F (Suc (ll_size F)) x hadOffset [] of
               None \<Rightarrow> None
             | Some (Some p, h, _) \<Rightarrow> traceReturnPtr F n p sretOffset h s
             | Some (None, h, _) \<Rightarrow> Some (-1, h, s))
        | None \<Rightarrow>
        (case dyn_PHI (ll_val F v) of
          Some ivs \<Rightarrow> traceReturnPhi F n ivs sretOffset hadOffset s
        | None \<Rightarrow>
        (case dyn_Select (ll_val F v) of
          Some (t, f) \<Rightarrow>
            (case traceReturnPtr F n t sretOffset hadOffset s of
               None \<Rightarrow> None
             | Some (i, h, s') \<Rightarrow>
                 if 0 \<le> i then Some (i, h, s')
                 else traceReturnPtr F n f sretOffset h s')
        | None \<Rightarrow> Some (-1, hadOffset, s)))))"
| "traceReturnPhi F n [] sretOffset hadOffset seen = Some (-1, hadOffset, seen)"
| "traceReturnPhi F n (iv # ivs) sretOffset hadOffset seen =
     (case traceReturnPtr F n iv sretOffset hadOffset seen of
        None \<Rightarrow> None
      | Some (i, h, s) \<Rightarrow>
          if 0 \<le> i then Some (i, h, s) else traceReturnPhi F n ivs sretOffset h s)"

abbreviation fuel :: "llfun \<Rightarrow> nat" where
  "fuel F \<equiv> Suc (ll_size F)"

section \<open>Slots and cursors\<close>

fun tracesToLoadOfSlot ::
    "llfun \<Rightarrow> nat \<Rightarrow> vid \<Rightarrow> vid \<Rightarrow> vid list \<Rightarrow> (bool \<times> vid list) option"
  and tracesToLoadPhi ::
    "llfun \<Rightarrow> nat \<Rightarrow> vid list \<Rightarrow> vid \<Rightarrow> vid list \<Rightarrow> (bool \<times> vid list) option" where
  "tracesToLoadOfSlot F 0 V P seen = None"
| "tracesToLoadOfSlot F (Suc n) V P seen =
     (if \<not> V < ll_size F \<or> V \<in> set seen then Some (False, seen)
      else let s = V # seen in
        case dyn_Load (ll_val F (ll_strip F V)) of
          Some q \<Rightarrow> Some (ll_strip F q = P, s)
        | None \<Rightarrow>
        (case dyn_GEP (ll_val F (ll_strip F V)) of
          Some (q, _) \<Rightarrow> tracesToLoadOfSlot F n q P s
        | None \<Rightarrow>
        (case dyn_PHI (ll_val F (ll_strip F V)) of
          Some ivs \<Rightarrow> tracesToLoadPhi F n ivs P s
        | None \<Rightarrow>
        (case dyn_Select (ll_val F (ll_strip F V)) of
          Some (t, f) \<Rightarrow>
            (case tracesToLoadOfSlot F n t P s of
               None \<Rightarrow> None
             | Some (b, s') \<Rightarrow> if b then Some (True, s') else tracesToLoadOfSlot F n f P s')
        | None \<Rightarrow> Some (False, s)))))"
| "tracesToLoadPhi F n [] P seen = Some (False, seen)"
| "tracesToLoadPhi F n (iv # ivs) P seen =
     (case tracesToLoadOfSlot F n iv P seen of
        None \<Rightarrow> None
      | Some (b, s) \<Rightarrow> if b then Some (True, s) else tracesToLoadPhi F n ivs P s)"

text \<open>\<^verbatim>\<open>ptrIsGlobalAddr\<close>; \<^verbatim>\<open>GEPOperator\<close> also covers constant expressions.\<close>

fun ptrIsGlobalAddr :: "llfun \<Rightarrow> nat \<Rightarrow> vid \<Rightarrow> vid list \<Rightarrow> (bool \<times> vid list) option"
  and ptrIsGlobalPhi :: "llfun \<Rightarrow> nat \<Rightarrow> vid list \<Rightarrow> vid list \<Rightarrow> (bool \<times> vid list) option" where
  "ptrIsGlobalAddr F 0 v seen = None"
| "ptrIsGlobalAddr F (Suc n) v seen =
     (if \<not> v < ll_size F \<or> v \<in> set seen then Some (False, seen)
      else let s = v # seen in
        if isa_GlobalVariable (ll_val F (ll_strip F v)) then Some (True, s)
        else case dyn_GEPOperator (ll_val F (ll_strip F v)) of
          Some q \<Rightarrow> ptrIsGlobalAddr F n q s
        | None \<Rightarrow>
        (case dyn_PHI (ll_val F (ll_strip F v)) of
          Some ivs \<Rightarrow> ptrIsGlobalPhi F n ivs s
        | None \<Rightarrow>
        (case dyn_Select (ll_val F (ll_strip F v)) of
          Some (t, f) \<Rightarrow>
            (case ptrIsGlobalAddr F n t s of
               None \<Rightarrow> None
             | Some (b, s') \<Rightarrow> if b then Some (True, s') else ptrIsGlobalAddr F n f s')
        | None \<Rightarrow> Some (False, s))))"
| "ptrIsGlobalPhi F n [] seen = Some (False, seen)"
| "ptrIsGlobalPhi F n (iv # ivs) seen =
     (case ptrIsGlobalAddr F n iv seen of
        None \<Rightarrow> None
      | Some (b, s) \<Rightarrow> if b then Some (True, s) else ptrIsGlobalPhi F n ivs s)"

section \<open>Detectors\<close>

text \<open>
  \<^verbatim>\<open>detectOutPtrIntoArg\<close>. One pass over the users of the value popped from the worklist either
  returns the index found (\<open>Inl\<close>) or goes on with the worklist and the set (\<open>Inr\<close>).
\<close>

fun outPtrUsers ::
  "llfun \<Rightarrow> nat \<Rightarrow> int \<Rightarrow> vid \<Rightarrow> vid list \<Rightarrow> vid list \<times> vid list \<Rightarrow>
     (int + vid list \<times> vid list) option" where
  "outPtrUsers F sretOffset pIdx D [] ws = Some (Inr ws)"
| "outPtrUsers F sretOffset pIdx D (U # us) ws =
     (case dyn_Store (ll_val F U) of
        Some (x, p) \<Rightarrow>
          if p = D \<and> isPointerTy (ll_ty F x) then
            (case traceReturnPtr F (fuel F) x sretOffset False [] of
               None \<Rightarrow> None
             | Some (q, _, _) \<Rightarrow>
                 if 0 \<le> q \<and> q \<noteq> pIdx then Some (Inl q)
                 else outPtrUsers F sretOffset pIdx D us ws)
          else outPtrUsers F sretOffset pIdx D us ws
      | None \<Rightarrow>
      (case dyn_GEP (ll_val F U) of
         Some (p, _) \<Rightarrow>
           outPtrUsers F sretOffset pIdx D us (if p = D then push_new (ll_size F) U ws else ws)
       | None \<Rightarrow>
           outPtrUsers F sretOffset pIdx D us
             (if isa_BitCast (ll_val F U) then push_new (ll_size F) U ws else ws)))"

lemma outPtrUsers_weight:
  "outPtrUsers F off pIdx D us ws = Some (Inr ws') \<Longrightarrow>
     weight (ll_size F) ws' \<le> weight (ll_size F) ws"
proof (induction us arbitrary: ws)
  case Nil
  then show ?case by simp
next
  case (Cons U us)
  have push: "weight (ll_size F) (if c then push_new (ll_size F) U ws else ws)
      \<le> weight (ll_size F) ws" for c
    by (simp add: weight_push)
  from Cons.prems show ?case
    by (fastforce split: option.splits prod.splits if_splits
        dest: Cons.IH order_trans [OF Cons.IH weight_push])
qed

function outPtrLoop ::
  "llfun \<Rightarrow> nat \<Rightarrow> int \<Rightarrow> vid list \<times> vid list \<Rightarrow> int option" where
  "outPtrLoop F sretOffset pIdx ([], seen) = Some (-1)"
| "outPtrLoop F sretOffset pIdx (D # work, seen) =
     (case outPtrUsers F sretOffset pIdx D (ll_users F D) (work, seen) of
        None \<Rightarrow> None
      | Some (Inl q) \<Rightarrow> Some q
      | Some (Inr ws) \<Rightarrow> outPtrLoop F sretOffset pIdx ws)"
  by pat_completeness auto
termination
  by (relation "measure (\<lambda>(F, off, pIdx, ws). weight (ll_size F) ws)")
    (auto dest!: outPtrUsers_weight intro: le_less_trans [OF _ weight_pop])

definition detectOutPtrIntoArg :: "llfun \<Rightarrow> vid \<Rightarrow> nat \<Rightarrow> int option" where
  "detectOutPtrIntoArg F P sretOffset =
     outPtrLoop F sretOffset (dwarfIndexOf F P sretOffset) ([P], [P])"

text \<open>\<^verbatim>\<open>detectCursor\<close>: the loop over the users of \<open>P\<close>.\<close>

fun detectCursorUsers :: "llfun \<Rightarrow> vid \<Rightarrow> vid list \<Rightarrow> bool option" where
  "detectCursorUsers F P [] = Some False"
| "detectCursorUsers F P (U # us) =
     (case dyn_Store (ll_val F U) of
        Some (x, p) \<Rightarrow>
          if p = P \<and> isPointerTy (ll_ty F x) then
            (case tracesToLoadOfSlot F (fuel F) x P [] of
               None \<Rightarrow> None
             | Some (b, _) \<Rightarrow> if b then Some True else detectCursorUsers F P us)
          else detectCursorUsers F P us
      | None \<Rightarrow> detectCursorUsers F P us)"

definition detectCursor :: "llfun \<Rightarrow> vid \<Rightarrow> bool option" where
  "detectCursor F P = detectCursorUsers F P (ll_users F P)"

definition slotIsReadOnly :: "llfun \<Rightarrow> vid \<Rightarrow> bool" where
  "slotIsReadOnly F P \<longleftrightarrow>
     \<not> list_ex (\<lambda>U. case dyn_Store (ll_val F U) of Some (x, p) \<Rightarrow> p = P | None \<Rightarrow> False)
         (ll_users F P)"

text \<open>\<^verbatim>\<open>returnDerivesFromGlobal\<close>: \<open>any\<close> is the local flag, the list the values still to look at.\<close>

fun returnsGlobalLoop :: "llfun \<Rightarrow> vid list \<Rightarrow> bool \<Rightarrow> bool option" where
  "returnsGlobalLoop F [] any = Some any"
| "returnsGlobalLoop F (rv # rvs) any =
     (case ptrIsGlobalAddr F (fuel F) rv [] of
        None \<Rightarrow> None
      | Some (b, _) \<Rightarrow> if \<not> b then Some False else returnsGlobalLoop F rvs True)"

definition returnDerivesFromGlobal :: "llfun \<Rightarrow> bool option" where
  "returnDerivesFromGlobal F = returnsGlobalLoop F (return_values F) False"

fun retCursorLoop :: "llfun \<Rightarrow> vid \<Rightarrow> vid list \<Rightarrow> bool option" where
  "retCursorLoop F P [] = Some False"
| "retCursorLoop F P (rv # rvs) =
     (case tracesToLoadOfSlot F (fuel F) rv P [] of
        None \<Rightarrow> None
      | Some (b, _) \<Rightarrow> if b then Some True else retCursorLoop F P rvs)"

definition retDerivesFromCursor :: "llfun \<Rightarrow> vid \<Rightarrow> bool option" where
  "retDerivesFromCursor F P = retCursorLoop F P (return_values F)"

definition isParseEndptrFn :: "string \<Rightarrow> bool" where
  "isParseEndptrFn raw =
     (let n0 = dropWhile (\<lambda>c. c = CHR ''_'') raw;
          n1 = snd (consume_front ''isoc23_'' n0);
          n2 = snd (consume_back ''_internal'' n1);
          n3 = snd (consume_back ''_l'' n2);
          (strto, n4) = consume_front ''strto'' n3;
          (wcsto, n5) = (if strto then (True, n4) else consume_front ''wcsto'' n4)
      in wcsto \<and> n5 \<in> set [''l'', ''ll'', ''ul'', ''ull'', ''imax'', ''umax'', ''q'', ''uq'', ''d'',
           ''f'', ''ld'', ''f16'', ''f32'', ''f64'', ''f128'', ''f32x'', ''f64x''])"

section \<open>What the searches decide\<close>

text \<open>The searches as instances of the common contract: where one step leads.\<close>

definition expand_load :: "llfun \<Rightarrow> vid \<Rightarrow> vid \<Rightarrow> unit option + vid list" where
  "expand_load F P v =
     (let x = ll_val F (ll_strip F v) in
      case dyn_Load x of
        Some q \<Rightarrow> Inl (if ll_strip F q = P then Some () else None)
      | None \<Rightarrow> (case dyn_GEP x of Some (q, _) \<Rightarrow> Inr [q]
      | None \<Rightarrow> (case dyn_PHI x of Some ivs \<Rightarrow> Inr ivs
      | None \<Rightarrow> (case dyn_Select x of Some (t, f) \<Rightarrow> Inr [t, f] | None \<Rightarrow> Inl None))))"

definition expand_global :: "llfun \<Rightarrow> vid \<Rightarrow> unit option + vid list" where
  "expand_global F v =
     (let x = ll_val F (ll_strip F v) in
      if isa_GlobalVariable x then Inl (Some ())
      else case dyn_GEPOperator x of Some q \<Rightarrow> Inr [q]
      | None \<Rightarrow> (case dyn_PHI x of Some ivs \<Rightarrow> Inr ivs
      | None \<Rightarrow> (case dyn_Select x of Some (t, f) \<Rightarrow> Inr [t, f] | None \<Rightarrow> Inl None)))"

text \<open>A search that answers yes or no, in the shape of the contract.\<close>

definition found :: "'f \<Rightarrow> (bool \<times> vid list) option \<Rightarrow> (unit option \<times> 'f \<times> vid list) option" where
  "found f = map_option (\<lambda>(b, s). (if b then Some () else None, f, s))"

lemma found_simps [simp]:
  "found f None = None"
  "found f (Some (b, s)) = Some (if b then Some () else None, f, s)"
  by (simp_all add: found_def)

interpretation load_search: seen_dfs "ll_size F" "expand_load F P" "\<lambda>_ (f :: unit). f"
  "\<lambda>n v f s. found f (tracesToLoadOfSlot F n v P s)"
  "\<lambda>n vs f s. found f (tracesToLoadPhi F n vs P s)"
  for F P
proof (unfold_locales, goal_cases)
  case (2 n v f s)
  show ?case
    by (simp add: expand_load_def Let_def split: option.split prod.split)
next
  case (4 n v vs f s)
  show ?case by (simp split: option.split prod.split)
qed simp_all

interpretation global_search: seen_dfs "ll_size F" "expand_global F" "\<lambda>_ (f :: unit). f"
  "\<lambda>n v f s. found f (ptrIsGlobalAddr F n v s)"
  "\<lambda>n vs f s. found f (ptrIsGlobalPhi F n vs s)"
  for F
proof (unfold_locales, goal_cases)
  case (2 n v f s)
  show ?case
    by (simp add: expand_global_def Let_def split: option.split prod.split)
next
  case (4 n v vs f s)
  show ?case by (simp split: option.split prod.split)
qed simp_all

text \<open>The contract of the two yes-or-no searches, stated on the instructions.\<close>

inductive loads_slot :: "llfun \<Rightarrow> vid \<Rightarrow> vid \<Rightarrow> bool" for F P where
  load: "V < ll_size F \<Longrightarrow> ll_val F (ll_strip F V) = ILoad q \<Longrightarrow> ll_strip F q = P \<Longrightarrow> loads_slot F P V"
| gep: "V < ll_size F \<Longrightarrow> ll_val F (ll_strip F V) = IGEP q z \<Longrightarrow> loads_slot F P q \<Longrightarrow> loads_slot F P V"
| phi: "V < ll_size F \<Longrightarrow> ll_val F (ll_strip F V) = IPHI ivs \<Longrightarrow> iv \<in> set ivs \<Longrightarrow> loads_slot F P iv \<Longrightarrow>
    loads_slot F P V"
| sel: "V < ll_size F \<Longrightarrow> ll_val F (ll_strip F V) = ISelect c t f \<Longrightarrow> u \<in> {t, f} \<Longrightarrow> loads_slot F P u \<Longrightarrow>
    loads_slot F P V"

inductive global_addr :: "llfun \<Rightarrow> vid \<Rightarrow> bool" for F where
  global: "V < ll_size F \<Longrightarrow> ll_val F (ll_strip F V) = VGlobalVariable \<Longrightarrow> global_addr F V"
| gep: "V < ll_size F \<Longrightarrow> dyn_GEPOperator (ll_val F (ll_strip F V)) = Some q \<Longrightarrow> global_addr F q \<Longrightarrow>
    global_addr F V"
| phi: "V < ll_size F \<Longrightarrow> ll_val F (ll_strip F V) = IPHI ivs \<Longrightarrow> iv \<in> set ivs \<Longrightarrow> global_addr F iv \<Longrightarrow>
    global_addr F V"
| sel: "V < ll_size F \<Longrightarrow> ll_val F (ll_strip F V) = ISelect c t f \<Longrightarrow> u \<in> {t, f} \<Longrightarrow> global_addr F u \<Longrightarrow>
    global_addr F V"

lemma dyn_inv:
  "dyn_Load x = Some p \<longleftrightarrow> x = ILoad p"
  "dyn_GEP x = Some (p, z) \<longleftrightarrow> x = IGEP p z"
  "dyn_PHI x = Some ivs \<longleftrightarrow> x = IPHI ivs"
  "dyn_Select x = Some (t, f) \<longleftrightarrow> (\<exists>c. x = ISelect c t f)"
  by (cases x; auto simp: ll_view)+

lemma expand_load_hit: "expand_load F P v = Inl (Some r) \<longleftrightarrow>
    (\<exists>q. ll_val F (ll_strip F v) = ILoad q \<and> ll_strip F q = P)"
  by (cases "ll_val F (ll_strip F v)") (simp_all add: expand_load_def ll_view)

lemma expand_load_hop: "expand_load F P v = Inr vs \<longleftrightarrow>
    (\<exists>q z. ll_val F (ll_strip F v) = IGEP q z \<and> vs = [q])
    \<or> ll_val F (ll_strip F v) = IPHI vs
    \<or> (\<exists>c t f. ll_val F (ll_strip F v) = ISelect c t f \<and> vs = [t, f])"
  by (cases "ll_val F (ll_strip F v)") (auto simp: expand_load_def ll_view)

lemma reaches_load: "reaches (ll_size F) (expand_load F P) v () \<longleftrightarrow> loads_slot F P v"
proof
  show "reaches (ll_size F) (expand_load F P) v () \<Longrightarrow> loads_slot F P v"
    by (induction v "()" rule: reaches.induct)
      (auto simp: expand_load_hit expand_load_hop intro: loads_slot.intros)
  show "loads_slot F P v \<Longrightarrow> reaches (ll_size F) (expand_load F P) v ()"
  proof (induction rule: loads_slot.induct)
    case (load V q)
    then show ?case by (auto simp: expand_load_hit intro: hit)
  next
    case (gep V q z)
    then show ?case by (auto simp: expand_load_hop intro: hop)
  next
    case (phi V ivs iv)
    then show ?case by (auto simp: expand_load_hop intro: hop)
  next
    case (sel V c t f u)
    then show ?case by (fastforce simp: expand_load_hop intro: hop)
  qed
qed

lemma tracesToLoadOfSlot_decides: "\<exists>s. tracesToLoadOfSlot F (fuel F) V P [] = Some (loads_slot F P V, s)"
proof -
  obtain r s where rs: "found () (tracesToLoadOfSlot F (fuel F) V P []) = Some (r, (), s)"
    using load_search.search_total [where F = F and P = P and v = V and f = "()"] by auto
  from load_search.search_decides [OF rs] have "r = None \<longleftrightarrow> \<not> loads_slot F P V"
    by (simp add: reaches_load)
  with rs show ?thesis by (auto simp: found_def split: if_splits)
qed

lemma expand_global_hit: "expand_global F v = Inl (Some r) \<longleftrightarrow> ll_val F (ll_strip F v) = VGlobalVariable"
  by (cases "ll_val F (ll_strip F v)") (simp_all add: expand_global_def ll_view)

lemma expand_global_hop: "expand_global F v = Inr vs \<longleftrightarrow>
    (\<exists>q. dyn_GEPOperator (ll_val F (ll_strip F v)) = Some q \<and> vs = [q])
    \<or> ll_val F (ll_strip F v) = IPHI vs
    \<or> (\<exists>c t f. ll_val F (ll_strip F v) = ISelect c t f \<and> vs = [t, f])"
  by (cases "ll_val F (ll_strip F v)") (auto simp: expand_global_def ll_view)

lemma reaches_global: "reaches (ll_size F) (expand_global F) v () \<longleftrightarrow> global_addr F v"
proof
  show "reaches (ll_size F) (expand_global F) v () \<Longrightarrow> global_addr F v"
    by (induction v "()" rule: reaches.induct)
      (auto simp: expand_global_hit expand_global_hop intro: global_addr.intros)
  show "global_addr F v \<Longrightarrow> reaches (ll_size F) (expand_global F) v ()"
  proof (induction rule: global_addr.induct)
    case (global V)
    then show ?case by (auto simp: expand_global_hit intro: hit)
  next
    case (gep V q)
    then show ?case by (auto simp: expand_global_hop intro: hop)
  next
    case (phi V ivs iv)
    then show ?case by (auto simp: expand_global_hop intro: hop)
  next
    case (sel V c t f u)
    then show ?case by (fastforce simp: expand_global_hop intro: hop)
  qed
qed

lemma ptrIsGlobalAddr_decides: "\<exists>s. ptrIsGlobalAddr F (fuel F) v [] = Some (global_addr F v, s)"
proof -
  obtain r s where rs: "found () (ptrIsGlobalAddr F (fuel F) v []) = Some (r, (), s)"
    using global_search.search_total [where F = F and v = v and f = "()"] by auto
  from global_search.search_decides [OF rs] have "r = None \<longleftrightarrow> \<not> global_addr F v"
    by (simp add: reaches_global)
  with rs show ?thesis by (auto simp: found_def split: if_splits)
qed

lemma detectCursor_decides:
  "detectCursor F P = Some
     (\<exists>U\<in>set (ll_users F P). \<exists>x. ll_val F U = IStore x P \<and> isPointerTy (ll_ty F x) \<and> loads_slot F P x)"
proof -
  have "detectCursorUsers F P us = Some
     (\<exists>U\<in>set us. \<exists>x. ll_val F U = IStore x P \<and> isPointerTy (ll_ty F x) \<and> loads_slot F P x)" for us
  proof (induction us)
    case Nil
    then show ?case by simp
  next
    case (Cons U us)
    show ?case
    proof (cases "dyn_Store (ll_val F U)")
      case None
      then have "ll_val F U \<noteq> IStore x P" for x by (auto simp: ll_view)
      with None Cons show ?thesis by simp
    next
      case (Some xp)
      then obtain x p where [simp]: "xp = (x, p)" "ll_val F U = IStore x p"
        by (cases xp; cases "ll_val F U") (auto simp: ll_view)
      obtain s where "tracesToLoadOfSlot F (fuel F) x P [] = Some (loads_slot F P x, s)"
        using tracesToLoadOfSlot_decides by blast
      with Some Cons show ?thesis by (auto simp del: tracesToLoadOfSlot.simps)
    qed
  qed
  then show ?thesis by (simp add: detectCursor_def)
qed

text \<open>The cursor detector returns, and answers whether some store into the slot itself writes
  back a pointer loaded from that slot.\<close>

theorem detectCursor_correct:
  "detectCursor F P = Some
     (\<exists>U\<in>set (ll_users F P). \<exists>x. ll_val F U = IStore x P \<and> isPointerTy (ll_ty F x) \<and> loads_slot F P x)"
  by (rule detectCursor_decides)

lemma returnDerivesFromGlobal_decides:
  "returnDerivesFromGlobal F = Some (return_values F \<noteq> [] \<and> list_all (global_addr F) (return_values F))"
proof -
  have "returnsGlobalLoop F rvs any = Some ((rvs \<noteq> [] \<or> any) \<and> list_all (global_addr F) rvs)" for rvs any
  proof (induction rvs arbitrary: any)
    case Nil
    then show ?case by simp
  next
    case (Cons rv rvs)
    obtain s where "ptrIsGlobalAddr F (fuel F) rv [] = Some (global_addr F rv, s)"
      using ptrIsGlobalAddr_decides by blast
    with Cons show ?case by (simp del: ptrIsGlobalAddr.simps)
  qed
  then show ?thesis by (simp add: returnDerivesFromGlobal_def)
qed

text \<open>The caller may treat a returned pointer as the address of static storage exactly when
  there is a returned value and every returned value is derived from the address of a global; the
  check always returns.\<close>

theorem returnDerivesFromGlobal_correct:
  "returnDerivesFromGlobal F = Some (return_values F \<noteq> [] \<and> list_all (global_addr F) (return_values F))"
  by (rule returnDerivesFromGlobal_decides)

lemma retDerivesFromCursor_decides: "retDerivesFromCursor F P = Some (list_ex (loads_slot F P) (return_values F))"
proof -
  have "retCursorLoop F P rvs = Some (list_ex (loads_slot F P) rvs)" for rvs
  proof (induction rvs)
    case (Cons rv rvs)
    obtain s where "tracesToLoadOfSlot F (fuel F) rv P [] = Some (loads_slot F P rv, s)"
      using tracesToLoadOfSlot_decides by blast
    with Cons show ?case by (simp del: tracesToLoadOfSlot.simps)
  qed simp
  then show ?thesis by (simp add: retDerivesFromCursor_def)
qed

section \<open>Which argument a pointer derives from\<close>

text \<open>Chains of integer casts end. In the SSA form of reachable code an operand is defined before
  its use, so they do.\<close>

definition casts_wf :: "llfun \<Rightarrow> bool" where
  "casts_wf F \<longleftrightarrow> wf {(u, v). dyn_Cast (ll_val F v) = Some u \<and> isIntegerTy (ll_ty F v)}"

lemma stripIntCasts_total:
  assumes "casts_wf F"
  shows "\<exists>u. stripIntCasts F v = Some u"
  using assms [unfolded casts_wf_def]
proof (induction v rule: wf_induct_rule)
  case (less v)
  show ?case
  proof (cases "dyn_Cast (ll_val F v)")
    case None
    then show ?thesis by (simp add: stripIntCasts.simps [of F v])
  next
    case (Some u)
    with less.IH [of u] show ?thesis by (simp add: stripIntCasts.simps [of F v])
  qed
qed

lemma stripIntCasts_end:
  assumes "stripIntCasts F v = Some u"
  shows "dyn_Cast (ll_val F u) = None \<or> \<not> isIntegerTy (ll_ty F u)"
  by (rule stripIntCasts.raw_induct [where P = "\<lambda>F _ u. dyn_Cast (ll_val F u) = None
      \<or> \<not> isIntegerTy (ll_ty F u)", OF _ assms]) (auto split: option.splits if_splits)

definition expand_int :: "llfun \<Rightarrow> vid \<Rightarrow> vid option + vid list" where
  "expand_int F v =
     (case stripIntCasts F v of None \<Rightarrow> Inl None
      | Some v' \<Rightarrow> (case dyn_BinaryOperator (ll_val F v') of
          Some (a, b) \<Rightarrow> Inr [a, b] | None \<Rightarrow> Inl (dyn_PtrToInt (ll_val F v'))))"

definition int_offset :: "llfun \<Rightarrow> vid \<Rightarrow> bool" where
  "int_offset F v = (case expand_int F v of Inl _ \<Rightarrow> False | Inr _ \<Rightarrow> True)"

fun underlyingList ::
  "llfun \<Rightarrow> nat \<Rightarrow> vid list \<Rightarrow> bool \<Rightarrow> vid list \<Rightarrow> (vid option \<times> bool \<times> vid list) option" where
  "underlyingList F n [] h s = Some (None, h, s)"
| "underlyingList F n (v # vs) h s =
     (case underlyingPtrOfInt F n v h s of
        None \<Rightarrow> None
      | Some (Some p, h', s') \<Rightarrow> Some (Some p, h', s')
      | Some (None, h', s') \<Rightarrow> underlyingList F n vs h' s')"

lemma int_search:
  assumes "casts_wf F"
  shows "seen_dfs (ll_size F) (expand_int F) (\<lambda>v h. h \<or> int_offset F v) (underlyingPtrOfInt F) (underlyingList F)"
proof (unfold_locales, goal_cases)
  case (2 n v f seen)
  obtain u where "stripIntCasts F v = Some u" using stripIntCasts_total [OF assms] by blast
  then show ?case
    by (simp add: expand_int_def int_offset_def split: option.split prod.split)
qed simp_all

text \<open>Every \<^verbatim>\<open>ptrtoint\<close> of a scalar pointer has an integer type.\<close>

definition ptrtoint_scalar :: "llfun \<Rightarrow> bool" where
  "ptrtoint_scalar F \<longleftrightarrow> (\<forall>v p. ll_val F v = IPtrToInt p \<longrightarrow> isIntegerTy (ll_ty F v))"

lemma underlyingPtr_null:
  assumes "ptrtoint_scalar F"
  shows "underlyingPtrOfInt F n iv hadOffset seen = Some (r, h, s) \<Longrightarrow> r = None"
proof (induction n arbitrary: iv hadOffset seen r h s)
  case 0
  then show ?case by simp
next
  case (Suc n)
  have "dyn_PtrToInt (ll_val F u) = None" if "stripIntCasts F v = Some u" for u v
  proof (cases "ll_val F u")
    case (IPtrToInt p)
    with stripIntCasts_end [OF that] assms show ?thesis
      by (simp add: ptrtoint_scalar_def dyn_Cast_def)
  qed (simp_all add: dyn_PtrToInt_def)
  with Suc.prems Suc.IH show ?case
    by (auto split: if_splits option.splits)
qed

lemma underlyingPtr_flag:
  "underlyingPtrOfInt F n iv h seen =
     map_option (\<lambda>(p, h', s). (p, h \<or> h', s)) (underlyingPtrOfInt F n iv False seen)"
proof (induction n arbitrary: iv h seen)
  case 0
  then show ?case by simp
next
  case (Suc n)
  show ?case
  proof (cases "stripIntCasts F iv")
    case None
    then show ?thesis by simp
  next
    case (Some u)
    have "underlyingPtrOfInt F n b h' s' =
        map_option (\<lambda>(p, h', s). (p, True, s)) (underlyingPtrOfInt F n b False s')" if "h'" for b h' s'
      using that Suc.IH [of b h' s'] by simp
    with Some show ?thesis
      by (auto simp: Suc.IH [of _ True] option.map_comp comp_def case_prod_unfold split: option.splits prod.splits)
  qed
qed

definition int_ptr :: "llfun \<Rightarrow> vid \<Rightarrow> vid option \<times> bool" where
  "int_ptr F x =
     (case underlyingPtrOfInt F (fuel F) x False [] of Some (p, h, _) \<Rightarrow> (p, h) | None \<Rightarrow> (None, False))"

definition expand_ret :: "llfun \<Rightarrow> nat \<Rightarrow> vid \<Rightarrow> int option + vid list" where
  "expand_ret F off v0 =
     (let v = ll_strip F v0; idx = dwarfIndexOf F v off in
      if 0 \<le> idx then Inl (Some idx)
      else case dyn_GEP (ll_val F v) of Some (p, _) \<Rightarrow> Inr [p]
      | None \<Rightarrow> (case dyn_IntToPtr (ll_val F v) of
          Some x \<Rightarrow> (case fst (int_ptr F x) of Some p \<Rightarrow> Inr [p] | None \<Rightarrow> Inl None)
      | None \<Rightarrow> (case dyn_PHI (ll_val F v) of Some ivs \<Rightarrow> Inr ivs
      | None \<Rightarrow> (case dyn_Select (ll_val F v) of Some (t, f) \<Rightarrow> Inr [t, f] | None \<Rightarrow> Inl None))))"

definition ret_offset :: "llfun \<Rightarrow> nat \<Rightarrow> vid \<Rightarrow> bool" where
  "ret_offset F off v0 =
     (let v = ll_strip F v0 in
      dwarfIndexOf F v off < 0 \<and>
      (case dyn_GEP (ll_val F v) of Some (_, allZero) \<Rightarrow> \<not> allZero
       | None \<Rightarrow> (case dyn_IntToPtr (ll_val F v) of Some x \<Rightarrow> snd (int_ptr F x) | None \<Rightarrow> False)))"

definition found_arg :: "(int \<times> bool \<times> vid list) option \<Rightarrow> (int option \<times> bool \<times> vid list) option" where
  "found_arg = map_option (\<lambda>(i, h, s). (if 0 \<le> i then Some i else None, h, s))"

lemma found_arg_simps [simp]:
  "found_arg None = None"
  "found_arg (Some (i, h, s)) = Some (if 0 \<le> i then Some i else None, h, s)"
  by (simp_all add: found_arg_def)

lemma int_ptr_step:
  assumes "casts_wf F"
  shows "\<exists>s. underlyingPtrOfInt F (fuel F) x h [] = Some (fst (int_ptr F x), h \<or> snd (int_ptr F x), s)"
proof -
  obtain p h' s where "underlyingPtrOfInt F (fuel F) x False [] = Some (p, h', s)"
    using seen_dfs.search_total [OF int_search [OF assms]] by blast
  with underlyingPtr_flag [of F "fuel F" x h "[]"] show ?thesis
    by (simp add: int_ptr_def del: underlyingPtrOfInt.simps)
qed

lemma return_search:
  assumes "casts_wf F"
  shows "seen_dfs (ll_size F) (expand_ret F off) (\<lambda>v h. h \<or> ret_offset F off v)
    (\<lambda>n v h s. found_arg (traceReturnPtr F n v off h s))
    (\<lambda>n vs h s. found_arg (traceReturnPhi F n vs off h s))"
proof (unfold_locales, goal_cases)
  case (2 n v h s)
  show ?case
  proof (cases "dyn_IntToPtr (ll_val F (ll_strip F v))")
    case None
    then show ?thesis
      by (simp add: expand_ret_def ret_offset_def Let_def split: option.split prod.split)
  next
    case (Some x)
    then have x: "ll_val F (ll_strip F v) = IIntToPtr x"
      by (cases "ll_val F (ll_strip F v)") (simp_all add: ll_view)
    obtain s' where "underlyingPtrOfInt F (fuel F) x h [] = Some (fst (int_ptr F x), h \<or> snd (int_ptr F x), s')"
      using int_ptr_step [OF assms] by blast
    with x show ?thesis
      by (simp add: expand_ret_def ret_offset_def Let_def ll_view dwarfIndexOf_def
          del: underlyingPtrOfInt.simps split: option.split prod.split)
  qed
next
  case (4 n v vs h s)
  show ?case by (simp split: option.split prod.split)
qed simp_all

text \<open>The contract: \<open>v\<close> derives from argument \<open>i\<close> through casts, address computations, phis and
  selects; with \<open>moved\<close> false, only through address computations whose indices are all zero.\<close>

inductive derives_arg :: "llfun \<Rightarrow> nat \<Rightarrow> bool \<Rightarrow> vid \<Rightarrow> int \<Rightarrow> bool" for F off moved where
  arg: "v < ll_size F \<Longrightarrow> ll_val F (ll_strip F v) = VArgument a \<Longrightarrow> off \<le> a \<Longrightarrow>
    derives_arg F off moved v (int a - int off)"
| gep: "v < ll_size F \<Longrightarrow> ll_val F (ll_strip F v) = IGEP p z \<Longrightarrow> z \<or> moved \<Longrightarrow> derives_arg F off moved p i \<Longrightarrow>
    derives_arg F off moved v i"
| phi: "v < ll_size F \<Longrightarrow> ll_val F (ll_strip F v) = IPHI ivs \<Longrightarrow> iv \<in> set ivs \<Longrightarrow> derives_arg F off moved iv i \<Longrightarrow>
    derives_arg F off moved v i"
| sel: "v < ll_size F \<Longrightarrow> ll_val F (ll_strip F v) = ISelect c t f \<Longrightarrow> u \<in> {t, f} \<Longrightarrow> derives_arg F off moved u i \<Longrightarrow>
    derives_arg F off moved v i"

lemma int_ptr_null:
  assumes "ptrtoint_scalar F"
  shows "fst (int_ptr F x) = None"
proof (cases "underlyingPtrOfInt F (fuel F) x False []")
  case None
  then show ?thesis by (simp add: int_ptr_def del: underlyingPtrOfInt.simps)
next
  case (Some r)
  obtain p h s where [simp]: "r = (p, h, s)" by (cases r)
  from underlyingPtr_null [OF assms, of "fuel F" x False "[]" p h s] Some show ?thesis
    by (simp add: int_ptr_def del: underlyingPtrOfInt.simps)
qed

lemma expand_ret_hit: "expand_ret F off v = Inl (Some i) \<longleftrightarrow>
    (\<exists>a. ll_val F (ll_strip F v) = VArgument a \<and> off \<le> a \<and> i = int a - int off)"
  by (cases "ll_val F (ll_strip F v)")
    (auto simp: expand_ret_def ll_view dwarfIndexOf_def Let_def split: option.splits if_splits)

lemma expand_ret_hop:
  assumes "ptrtoint_scalar F"
  shows "expand_ret F off v = Inr vs \<longleftrightarrow>
    (\<exists>p z. ll_val F (ll_strip F v) = IGEP p z \<and> vs = [p])
    \<or> ll_val F (ll_strip F v) = IPHI vs
    \<or> (\<exists>c t f. ll_val F (ll_strip F v) = ISelect c t f \<and> vs = [t, f])"
  using int_ptr_null [OF assms]
  by (cases "ll_val F (ll_strip F v)") (auto simp: expand_ret_def ll_view dwarfIndexOf_def Let_def)

lemma ret_offset_gep: "ll_val F (ll_strip F v) = IGEP p z \<Longrightarrow> ret_offset F off v = (\<not> z)"
  by (simp add: ret_offset_def ll_view dwarfIndexOf_def)

lemma reaches_ret:
  assumes "ptrtoint_scalar F"
  shows "reaches (ll_size F) (expand_ret F off) v i \<longleftrightarrow> derives_arg F off True v i"
proof
  show "reaches (ll_size F) (expand_ret F off) v i \<Longrightarrow> derives_arg F off True v i"
    by (induction rule: reaches.induct)
      (auto simp: expand_ret_hit expand_ret_hop [OF assms] intro: derives_arg.intros)
  show "derives_arg F off True v i \<Longrightarrow> reaches (ll_size F) (expand_ret F off) v i"
  proof (induction rule: derives_arg.induct)
    case (arg v a)
    then show ?case by (auto simp: expand_ret_hit intro: hit)
  next
    case (gep v p z i)
    then show ?case by (auto simp: expand_ret_hop [OF assms] intro: hop)
  next
    case (phi v ivs iv i)
    then show ?case by (auto simp: expand_ret_hop [OF assms] intro: hop)
  next
    case (sel v c t f u i)
    then show ?case by (fastforce simp: expand_ret_hop [OF assms] intro: hop)
  qed
qed

lemma reaches_ret_clear:
  assumes "ptrtoint_scalar F"
  shows "reaches (ll_size F) (\<lambda>v. if ret_offset F off v then Inl None else expand_ret F off v) v i \<Longrightarrow>
    derives_arg F off False v i"
  by (induction rule: reaches.induct)
    (auto simp: expand_ret_hit expand_ret_hop [OF assms] ret_offset_gep intro: derives_arg.intros
      split: if_splits)

lemma traceReturnPtr_decides:
  assumes "casts_wf F" and "ptrtoint_scalar F"
  shows "\<exists>i h s. traceReturnPtr F (fuel F) v off False [] = Some (i, h, s)
    \<and> (i < 0 \<longleftrightarrow> (\<forall>j. \<not> derives_arg F off True v j))
    \<and> (0 \<le> i \<longrightarrow> derives_arg F off h v i)"
proof -
  note S = return_search [OF assms(1), of off]
  obtain r h s where rs: "found_arg (traceReturnPtr F (fuel F) v off False []) = Some (r, h, s)"
    using seen_dfs.search_total [OF S] by blast
  then obtain i where i: "traceReturnPtr F (fuel F) v off False [] = Some (i, h, s)"
    and r: "r = (if 0 \<le> i then Some i else None)"
    by (auto simp: found_arg_def simp del: traceReturnPtr.simps)
  have none: "r = None \<longleftrightarrow> (\<forall>j. \<not> derives_arg F off True v j)"
    using seen_dfs.search_decides [OF S rs] by (simp add: reaches_ret [OF assms(2)])
  have any: "derives_arg F off True v i" if "0 \<le> i"
    using seen_dfs.search_sound(1) [OF S, of "fuel F" v False "[]" i h s] rs r that
    by (simp add: reaches_ret [OF assms(2)] del: traceReturnPtr.simps)
  have exact: "derives_arg F off False v i" if "0 \<le> i" "\<not> h"
    using seen_dfs.search_clear(1) [OF S, of "\<lambda>h. h" "ret_offset F off" "fuel F" v False "[]" r h s] rs r that
      reaches_ret_clear [OF assms(2), of off v i] by (simp del: traceReturnPtr.simps)
  have "derives_arg F off h v i" if "0 \<le> i"
    using any exact that by (cases h) simp_all
  with none r i show ?thesis by (auto simp del: traceReturnPtr.simps split: if_splits)
qed

lemma traceReturnPtr_total:
  assumes "casts_wf F"
  shows "\<exists>i h s. traceReturnPtr F (fuel F) v off h0 [] = Some (i, h, s)"
proof -
  obtain r h s where "found_arg (traceReturnPtr F (fuel F) v off h0 []) = Some (r, h, s)"
    using seen_dfs.search_total [OF return_search [OF assms, of off]] by blast
  then show ?thesis by (auto simp: found_arg_def simp del: traceReturnPtr.simps)
qed

lemma derives_arg_mono: "derives_arg F off m v i \<Longrightarrow> derives_arg F off True v i"
  by (induction rule: derives_arg.induct) (auto intro: derives_arg.intros)

lemma traceReturnPtr_arg:
  assumes "casts_wf F" and "ptrtoint_scalar F"
    and "traceReturnPtr F (fuel F) v off False [] = Some (i, h, s)" and "0 \<le> i"
  shows "derives_arg F off True v i"
  using traceReturnPtr_decides [OF assms(1,2), of v off] assms(3,4)
  by (auto intro: derives_arg_mono simp del: traceReturnPtr.simps)

text \<open>The addresses \<^verbatim>\<open>detectOutPtrIntoArg\<close> follows: the slot, and address computations and bit casts of
  an address it follows.\<close>

inductive slot_addr :: "llfun \<Rightarrow> vid \<Rightarrow> vid \<Rightarrow> bool" for F P where
  slot: "slot_addr F P P"
| gep: "slot_addr F P D \<Longrightarrow> U \<in> set (ll_users F D) \<Longrightarrow> ll_val F U = IGEP D z \<Longrightarrow> slot_addr F P U"
| bitcast: "slot_addr F P D \<Longrightarrow> U \<in> set (ll_users F D) \<Longrightarrow> isa_BitCast (ll_val F U) \<Longrightarrow> slot_addr F P U"

definition stores_arg :: "llfun \<Rightarrow> nat \<Rightarrow> vid \<Rightarrow> int \<Rightarrow> bool" where
  "stores_arg F off P q \<longleftrightarrow>
     (\<exists>D U x. slot_addr F P D \<and> U \<in> set (ll_users F D) \<and> ll_val F U = IStore x D
       \<and> isPointerTy (ll_ty F x) \<and> derives_arg F off True x q)"

lemma dyn_Store_inv: "dyn_Store x = Some (y, p) \<longleftrightarrow> x = IStore y p"
  by (cases x) (simp_all add: ll_view)

lemma derives_arg_nonneg: "derives_arg F off m v i \<Longrightarrow> 0 \<le> i"
  by (induction rule: derives_arg.induct) simp_all

lemma outPtrUsers_sound:
  assumes F: "casts_wf F" "ptrtoint_scalar F" and D: "slot_addr F P D"
  shows "set us \<subseteq> set (ll_users F D) \<Longrightarrow> (\<forall>d\<in>set (fst ws). slot_addr F P d) \<Longrightarrow>
    (\<exists>q. outPtrUsers F off pIdx D us ws = Some (Inl q) \<and> 0 \<le> q \<and> q \<noteq> pIdx \<and> stores_arg F off P q)
    \<or> (\<exists>ws'. outPtrUsers F off pIdx D us ws = Some (Inr ws') \<and> (\<forall>d\<in>set (fst ws'). slot_addr F P d))"
proof (induction us arbitrary: ws)
  case Nil
  then show ?case by simp
next
  case (Cons U us)
  have U: "U \<in> set (ll_users F D)" and us: "set us \<subseteq> set (ll_users F D)" using Cons.prems(1) by auto
  have push: "\<forall>d\<in>set (fst (push_new N U ws)). slot_addr F P d" if "slot_addr F P U" for N
    using Cons.prems(2) that by (cases ws) (auto simp: push_new_def)
  note step = Cons.IH [OF us]
  show ?case
  proof (cases "dyn_Store (ll_val F U)")
    case None
    show ?thesis
    proof (cases "dyn_GEP (ll_val F U)")
      case no: None
      have "slot_addr F P U" if "isa_BitCast (ll_val F U)"
        using slot_addr.bitcast [OF D U that] .
      with None no step Cons.prems(2) push show ?thesis by simp
    next
      case (Some pz)
      then obtain p z where pz: "pz = (p, z)" "ll_val F U = IGEP p z"
        by (cases pz) (simp add: dyn_inv)
      have "slot_addr F P U" if "p = D" using slot_addr.gep [OF D U] pz that by simp
      with None Some pz step Cons.prems(2) push show ?thesis by simp
    qed
  next
    case (Some xp)
    then obtain x p where xp: "xp = (x, p)" "ll_val F U = IStore x p"
      by (cases xp) (simp add: dyn_Store_inv)
    obtain i h s where t: "traceReturnPtr F (fuel F) x off False [] = Some (i, h, s)"
      and i: "0 \<le> i \<longrightarrow> derives_arg F off h x i" "i < 0 \<longleftrightarrow> (\<forall>j. \<not> derives_arg F off True x j)"
      using traceReturnPtr_decides [OF F] by blast
    have "derives_arg F off True x i" if "0 \<le> i"
      using traceReturnPtr_arg [OF F t that] .
    then have "stores_arg F off P i" if "0 \<le> i" "p = D" "isPointerTy (ll_ty F x)"
      unfolding stores_arg_def using D U xp(2) that by blast
    with Some xp t step [OF Cons.prems(2)] show ?thesis
      by (simp del: traceReturnPtr.simps)
  qed
qed

lemma outPtrLoop_sound:
  assumes "casts_wf F" "ptrtoint_scalar F" and "\<forall>d\<in>set (fst ws). slot_addr F P d"
  shows "\<exists>q. outPtrLoop F off pIdx ws = Some q \<and> (q = -1 \<or> 0 \<le> q \<and> q \<noteq> pIdx \<and> stores_arg F off P q)"
  using assms
proof (induction F off pIdx ws rule: outPtrLoop.induct)
  case (1 F off pIdx seen)
  then show ?case by simp
next
  case (2 F off pIdx D work seen)
  from 2(2-4) have "slot_addr F P D" by simp
  from outPtrUsers_sound [OF 2(2,3) this, of "ll_users F D" "(work, seen)" off pIdx] 2(4)
  consider q where "outPtrUsers F off pIdx D (ll_users F D) (work, seen) = Some (Inl q)"
      "0 \<le> q \<and> q \<noteq> pIdx \<and> stores_arg F off P q"
    | ws where "outPtrUsers F off pIdx D (ll_users F D) (work, seen) = Some (Inr ws)"
      "\<forall>d\<in>set (fst ws). slot_addr F P d" by fastforce
  then show ?case
  proof cases
    case 1
    then show ?thesis by simp
  next
    case (2 ws)
    with "2.IH" [OF 2(1) refl] "2.prems" show ?thesis by simp
  qed
qed


lemma detectOutPtrIntoArg_sound:
  assumes "casts_wf F" and "ptrtoint_scalar F"
  shows "\<exists>q. detectOutPtrIntoArg F P sretOffset = Some q
    \<and> (q = -1 \<or> 0 \<le> q \<and> q \<noteq> dwarfIndexOf F P sretOffset \<and> stores_arg F sretOffset P q)"
  unfolding detectOutPtrIntoArg_def by (rule outPtrLoop_sound [OF assms]) (simp add: slot)

text \<open>Looking for a pointer that a function stores through one of its parameters into another
  argument always returns, and an index it reports is one of another parameter that some store
  through the parameter really writes.\<close>

theorem detectOutPtrIntoArg_correct:
  assumes "casts_wf F" and "ptrtoint_scalar F"
  shows "\<exists>q. detectOutPtrIntoArg F P sretOffset = Some q
    \<and> (q = -1 \<or> 0 \<le> q \<and> q \<noteq> dwarfIndexOf F P sretOffset \<and> stores_arg F sretOffset P q)"
  by (rule detectOutPtrIntoArg_sound [OF assms])

text \<open>The search for the pointer under an integer never finds one: \<^verbatim>\<open>stripIntCasts\<close> also peels
  the \<^verbatim>\<open>ptrtoint\<close> whose operand the search wants, because its result type is an integer.\<close>

theorem underlyingPtrOfInt_null:
  assumes "ptrtoint_scalar F" and "underlyingPtrOfInt F n iv hadOffset seen = Some (r, h, s)"
  shows "r = None"
  using assms by (rule underlyingPtr_null)

lemma list_fun_casts_wf:
  assumes "list_all (\<lambda>v. case dyn_Cast (fst (vs ! v)) of Some u \<Rightarrow> u < v | None \<Rightarrow> True) [0..<length vs]"
  shows "casts_wf (list_fun vs as t)"
proof -
  have "u < v" if "dyn_Cast (ll_val (list_fun vs as t) v) = Some u" for u v
  proof (cases "v < length vs")
    case True
    with assms that show ?thesis by (auto simp: list_all_iff list_fun_def split: option.splits)
  next
    case False
    with that show ?thesis by (simp add: list_fun_def dyn_Cast_def)
  qed
  then show ?thesis
    unfolding casts_wf_def by (intro wf_subset [OF wf_measure [of id]]) (auto simp: measure_def)
qed

lemma list_fun_ptrtoint:
  assumes "list_all (\<lambda>x. case fst x of IPtrToInt p \<Rightarrow> isIntegerTy (snd x) | _ \<Rightarrow> True) vs"
  shows "ptrtoint_scalar (list_fun vs as t)"
  unfolding ptrtoint_scalar_def
proof (intro allI impI)
  fix v p
  assume v: "ll_val (list_fun vs as t) v = IPtrToInt p"
  then have "v < length vs" by (auto simp: list_fun_def split: if_splits)
  with assms v show "isIntegerTy (ll_ty (list_fun vs as t) v)"
    by (force simp: list_fun_def list_all_length)
qed

text \<open>A search function: it stores a pointer into its first argument through the second one and
  returns that pointer or null, after a round trip of it through an integer.\<close>

definition search_fun :: llfun where
  "search_fun = list_fun
     [(VArgument 0, TyPtr), (VArgument 1, TyPtr), (IGEP 0 False, TyPtr), (IPtrToInt 2, TyInt 32),
      (IIntToPtr 3, TyPtr), (VNull, TyPtr), (IPHI [4, 5, 2], TyPtr), (IStore 2 1, TyVoid),
      (IReturn (Some 6), TyVoid)]
     [plain_arg 0, plain_arg 1] TyPtr"

lemma search_fun_wf: "casts_wf search_fun" "ptrtoint_scalar search_fun"
  unfolding search_fun_def
  by (rule list_fun_casts_wf, simp add: dyn_Cast_def upt_rec nth_Cons')
    (rule list_fun_ptrtoint, simp)


theorem detectOutPtrIntoArg_correct_witness:
  "detectOutPtrIntoArg search_fun 1 0 = Some 0 \<and> stores_arg search_fun 0 1 0"
proof -
  have "detectOutPtrIntoArg search_fun 1 0 = Some 0"
    by code_simp
  with detectOutPtrIntoArg_correct [OF search_fun_wf, of 1 0] show ?thesis by simp
qed

theorem underlyingPtrOfInt_null_witness:
  "ll_val search_fun 3 = IPtrToInt 2 \<and>
   (\<exists>h s. underlyingPtrOfInt search_fun (fuel search_fun) 3 False [] = Some (None, h, s))"
proof
  show "ll_val search_fun 3 = IPtrToInt 2" by (simp add: search_fun_def list_fun_def)
  obtain r h s where "underlyingPtrOfInt search_fun (fuel search_fun) 3 False [] = Some (r, h, s)"
    using seen_dfs.search_total [OF int_search [OF search_fun_wf(1)]] by blast
  with underlyingPtrOfInt_null [OF search_fun_wf(2) this]
  show "\<exists>h s. underlyingPtrOfInt search_fun (fuel search_fun) 3 False [] = Some (None, h, s)" by blast
qed

end
