(* ===== verification/Access.thy ===== *)
theory Access
  imports Value_Trace
begin

text \<open>
  How a function accesses the memory behind a pointer argument (\<^verbatim>\<open>Infer.cpp\<close>: \<^verbatim>\<open>Access\<close>,
  \<^verbatim>\<open>LibRole\<close>, \<^verbatim>\<open>classifyLibArg\<close>, \<^verbatim>\<open>analyzeAccess\<close>, \<^verbatim>\<open>directionFrom\<close>): a worklist over the values
  derived from the argument accumulates a summary, which decides the copy direction.
\<close>

section \<open>Summaries\<close>

record Access =
  acc_read :: bool
  acc_written :: bool
  acc_escapes :: bool
  acc_stringOp :: bool
  acc_unknownCallee :: bool
  acc_lengths :: "vid list"

definition no_access :: Access where
  "no_access = \<lparr> acc_read = False, acc_written = False, acc_escapes = False, acc_stringOp = False,
     acc_unknownCallee = False, acc_lengths = [] \<rparr>"

record LibRole =
  role_known :: bool
  role_reads :: bool
  role_writes :: bool
  role_isString :: bool
  role_lenOperand :: int

definition no_role :: LibRole where
  "no_role = \<lparr> role_known = False, role_reads = False, role_writes = False, role_isString = False,
     role_lenOperand = -1 \<rparr>"

definition set_role :: "bool \<Rightarrow> bool \<Rightarrow> bool \<Rightarrow> int \<Rightarrow> LibRole" where
  "set_role rd wr str len =
     \<lparr> role_known = True, role_reads = rd, role_writes = wr, role_isString = str,
       role_lenOperand = len \<rparr>"

definition classifyLibArg :: "string \<Rightarrow> nat \<Rightarrow> LibRole" where
  "classifyLibArg name opIdx =
     (if name \<in> {''memcpy'', ''memmove'', ''mempcpy''} then
        if opIdx = 0 then set_role False True False 2
        else if opIdx = 1 then set_role True False False 2 else no_role
      else if name = ''memset'' then
        if opIdx = 0 then set_role False True False 2 else no_role
      else if name = ''memcmp'' then
        if opIdx \<le> 1 then set_role True False False 2 else no_role
      else if name \<in> {''strcpy'', ''stpcpy'', ''strcat''} then
        if opIdx = 0 then set_role False True True (-1)
        else if opIdx = 1 then set_role True False True (-1) else no_role
      else if name \<in> {''strncpy'', ''stpncpy'', ''strncat''} then
        if opIdx = 0 then set_role False True False 2
        else if opIdx = 1 then set_role True False False 2 else no_role
      else if name = ''strlen'' then
        if opIdx = 0 then set_role True False True (-1) else no_role
      else if name = ''strnlen'' then
        if opIdx = 0 then set_role True False False 1 else no_role
      else if name \<in> {''strcmp'', ''strchr'', ''strrchr'', ''strstr'', ''strspn'', ''strcspn'',
          ''strpbrk'', ''strdup'', ''puts''} then
        set_role True False True (-1)
      else if name = ''strncmp'' then
        if opIdx \<le> 1 then set_role True False False 2 else no_role
      else no_role)"

section \<open>The walk\<close>

text \<open>The loop over the operands of a call to a named function; the flag is \<^verbatim>\<open>handled\<close>.\<close>

fun call_args :: "string \<Rightarrow> vid list \<Rightarrow> vid \<Rightarrow> nat list \<Rightarrow> bool \<times> Access \<Rightarrow> bool \<times> Access" where
  "call_args nm args V [] hacc = hacc"
| "call_args nm args V (oi # ois) (handled, acc) =
     (if args ! oi \<noteq> V then call_args nm args V ois (handled, acc)
      else let role = classifyLibArg nm oi in
        if role_known role then
          call_args nm args V ois
            (True,
             acc\<lparr> acc_read := acc_read acc \<or> role_reads role,
                  acc_written := acc_written acc \<or> role_writes role,
                  acc_stringOp := acc_stringOp acc \<or> role_isString role,
                  acc_lengths := acc_lengths acc @
                    (if 0 \<le> role_lenOperand role \<and> nat (role_lenOperand role) < length args
                     then [args ! nat (role_lenOperand role)] else []) \<rparr>)
        else call_args nm args V ois (handled, acc))"

definition access_call :: "string option \<Rightarrow> vid list \<Rightarrow> vid \<Rightarrow> Access \<Rightarrow> Access" where
  "access_call callee args V acc =
     (let (handled, acc') =
        (case callee of
           Some nm \<Rightarrow> call_args nm args V [0..<length args] (False, acc)
         | None \<Rightarrow> (False, acc))
      in if \<not> handled \<and> V \<in> set args
         then acc'\<lparr> acc_escapes := True, acc_unknownCallee := True \<rparr> else acc')"

text \<open>One user of a derived pointer: the summary and the worklist after it.\<close>

definition access_user ::
  "llfun \<Rightarrow> vid \<Rightarrow> vid \<Rightarrow> Access \<times> vid list \<times> vid list \<Rightarrow> Access \<times> vid list \<times> vid list" where
  "access_user F V U st =
     (let (acc, ws) = st; N = ll_size F in
      case ll_val F U of
        ILoad p \<Rightarrow> (if p = V then acc\<lparr> acc_read := True \<rparr> else acc, ws)
      | IStore x p \<Rightarrow>
          (let acc1 = (if p = V then acc\<lparr> acc_written := True \<rparr> else acc)
           in (if x = V then acc1\<lparr> acc_escapes := True \<rparr> else acc1, ws))
      | IGEP p z \<Rightarrow> (acc, if p = V then push_new N U ws else ws)
      | IBitCast x \<Rightarrow> (acc, push_new N U ws)
      | IAddrSpaceCast x \<Rightarrow> (acc, push_new N U ws)
      | IPHI ivs \<Rightarrow> (acc, push_new N U ws)
      | ISelect c t f \<Rightarrow> (acc, push_new N U ws)
      | IMemTransfer d s l x \<Rightarrow>
          (let acc1 = (if ll_strip F d = V
                       then acc\<lparr> acc_written := True, acc_lengths := acc_lengths acc @ [l] \<rparr> else acc)
           in (if ll_strip F s = V
               then acc1\<lparr> acc_read := True, acc_lengths := acc_lengths acc1 @ [l] \<rparr> else acc1, ws))
      | IMemSet d y l x \<Rightarrow>
          (if ll_strip F d = V
           then acc\<lparr> acc_written := True, acc_lengths := acc_lengths acc @ [l] \<rparr> else acc, ws)
      | ICall c args \<Rightarrow> (access_call (called_name (ll_val F U)) args V acc, ws)
      | _ \<Rightarrow> (acc, ws))"

definition access_users ::
  "llfun \<Rightarrow> vid \<Rightarrow> Access \<times> vid list \<times> vid list \<Rightarrow> Access \<times> vid list \<times> vid list" where
  "access_users F V st = fold (access_user F V) (ll_users F V) st"

text \<open>What one user adds to the summary, and whether it is pushed.\<close>

definition user_access :: "llfun \<Rightarrow> vid \<Rightarrow> vid \<Rightarrow> Access \<Rightarrow> Access" where
  "user_access F V U acc = fst (access_user F V U (acc, [], []))"

definition derived_user :: "llfun \<Rightarrow> vid \<Rightarrow> vid \<Rightarrow> bool" where
  "derived_user F V U =
     (case ll_val F U of
        IGEP p z \<Rightarrow> p = V
      | IBitCast x \<Rightarrow> True | IAddrSpaceCast x \<Rightarrow> True | IPHI ivs \<Rightarrow> True | ISelect c t f \<Rightarrow> True
      | _ \<Rightarrow> False)"

lemma access_user_split:
  "access_user F V U (acc, ws) =
     (user_access F V U acc, if derived_user F V U then push_new (ll_size F) U ws else ws)"
  by (cases "ll_val F U") (simp_all add: access_user_def user_access_def derived_user_def Let_def)

lemma access_users_split:
  "fold (access_user F V) us (acc, ws) =
     (fold (user_access F V) us acc, fold (push_new (ll_size F)) (filter (derived_user F V) us) ws)"
  by (induction us arbitrary: acc ws) (simp_all add: access_user_split)

function access_loop :: "llfun \<Rightarrow> Access \<Rightarrow> vid list \<times> vid list \<Rightarrow> Access" where
  "access_loop F acc ([], seen) = acc"
| "access_loop F acc (V # work, seen) =
     (let (acc', ws) = access_users F V (acc, work, seen) in access_loop F acc' ws)"
  by pat_completeness auto
termination
proof (relation "measure (\<lambda>(F, acc, ws). weight (ll_size F) ws)", simp)
  fix F V acc seen work x acc' ws
  assume x: "x = access_users F V (acc, work, seen)" and split: "(acc', ws) = x"
  from split x have "ws = fold (push_new (ll_size F)) (filter (derived_user F V) (ll_users F V)) (work, seen)"
    by (simp add: access_users_def access_users_split)
  then show "((F, acc', ws), F, acc, V # work, seen) \<in> measure (\<lambda>(F, acc, ws). weight (ll_size F) ws)"
    using weight_fold_push [of "ll_size F" _ "(work, seen)"] weight_pop [of "ll_size F" work seen V]
    by (auto intro: le_less_trans)
qed

definition analyzeAccess :: "llfun \<Rightarrow> vid \<Rightarrow> Access" where
  "analyzeAccess F A = access_loop F no_access ([A], [A])"

section \<open>Directions\<close>

definition directionFrom :: "ll_arg \<Rightarrow> Access \<Rightarrow> Dir" where
  "directionFrom A acc =
     (let written = (acc_written acc \<and> \<not> arg_onlyReads A);
          read = (acc_read acc \<and> \<not> arg_writeOnly A)
      in if read \<and> written then Dir_InOut
         else if read then Dir_In
         else if written then Dir_Out
         else Dir_Unknown)"

section \<open>What the walk sees\<close>

interpretation access_walk: worklist "ll_size F" "\<lambda>V. filter (derived_user F V) (ll_users F V)"
  "\<lambda>V. fold (user_access F V) (ll_users F V)" "access_loop F"
  for F
  by unfold_locales (simp_all add: access_users_def access_users_split)

text \<open>The values derived from \<open>A\<close> by address computations, casts, phis and selects.\<close>

definition derives_from :: "llfun \<Rightarrow> vid \<Rightarrow> vid \<Rightarrow> bool" where
  "derives_from F A V = visits (ll_size F) (\<lambda>V. filter (derived_user F V) (ll_users F V)) A V"

text \<open>The accesses of one instruction through the pointer \<open>V\<close>.\<close>

definition user_reads :: "llfun \<Rightarrow> vid \<Rightarrow> vid \<Rightarrow> bool" where
  "user_reads F V U =
     (case ll_val F U of
        ILoad p \<Rightarrow> p = V
      | IMemTransfer d s l x \<Rightarrow> ll_strip F s = V
      | ICall c args \<Rightarrow>
          (case called_name (ll_val F U) of
             Some nm \<Rightarrow> list_ex (\<lambda>oi. args ! oi = V \<and> role_reads (classifyLibArg nm oi)) [0..<length args]
           | None \<Rightarrow> False)
      | _ \<Rightarrow> False)"

definition user_writes :: "llfun \<Rightarrow> vid \<Rightarrow> vid \<Rightarrow> bool" where
  "user_writes F V U =
     (case ll_val F U of
        IStore x p \<Rightarrow> p = V
      | IMemTransfer d s l x \<Rightarrow> ll_strip F d = V
      | IMemSet d y l x \<Rightarrow> ll_strip F d = V
      | ICall c args \<Rightarrow>
          (case called_name (ll_val F U) of
             Some nm \<Rightarrow> list_ex (\<lambda>oi. args ! oi = V \<and> role_writes (classifyLibArg nm oi)) [0..<length args]
           | None \<Rightarrow> False)
      | _ \<Rightarrow> False)"

definition user_escapes :: "llfun \<Rightarrow> vid \<Rightarrow> vid \<Rightarrow> bool" where
  "user_escapes F V U =
     (case ll_val F U of
        IStore x p \<Rightarrow> x = V
      | ICall c args \<Rightarrow> V \<in> set args \<and>
          (case called_name (ll_val F U) of
             Some nm \<Rightarrow> list_all (\<lambda>oi. args ! oi = V \<longrightarrow> \<not> role_known (classifyLibArg nm oi)) [0..<length args]
           | None \<Rightarrow> True)
      | _ \<Rightarrow> False)"

definition role_ok :: "LibRole \<Rightarrow> bool" where
  "role_ok r \<longleftrightarrow> r = no_role \<or> role_known r"

lemma role_ok_intros:
  "role_ok r \<Longrightarrow> role_ok r' \<Longrightarrow> role_ok (if c then r else r')"
  "role_ok (set_role rd wr str len)"
  "role_ok no_role"
  by (simp_all add: role_ok_def set_role_def)

lemma role_ok: "role_ok (classifyLibArg nm oi)"
  unfolding classifyLibArg_def by (intro role_ok_intros)

lemma role_unknown: "\<not> role_known (classifyLibArg nm oi) \<Longrightarrow> classifyLibArg nm oi = no_role"
  using role_ok [of nm oi] by (simp add: role_ok_def)

lemma role_known_if:
  "role_reads (classifyLibArg nm oi) \<Longrightarrow> role_known (classifyLibArg nm oi)"
  "role_writes (classifyLibArg nm oi) \<Longrightarrow> role_known (classifyLibArg nm oi)"
  by (rule ccontr, simp add: role_unknown no_role_def)+

lemma call_args_flags:
  "fst (call_args nm args V ois hacc)
     = (fst hacc \<or> list_ex (\<lambda>oi. args ! oi = V \<and> role_known (classifyLibArg nm oi)) ois)"
  "acc_read (snd (call_args nm args V ois hacc))
     = (acc_read (snd hacc) \<or> list_ex (\<lambda>oi. args ! oi = V \<and> role_reads (classifyLibArg nm oi)) ois)"
  "acc_written (snd (call_args nm args V ois hacc))
     = (acc_written (snd hacc) \<or> list_ex (\<lambda>oi. args ! oi = V \<and> role_writes (classifyLibArg nm oi)) ois)"
  "acc_escapes (snd (call_args nm args V ois hacc)) = acc_escapes (snd hacc)"
  by (induction nm args V ois hacc rule: call_args.induct)
    (auto simp: Let_def dest: role_known_if)

lemma access_call_flags:
  "acc_read (access_call f args V acc) = (acc_read acc \<or>
     (case f of Some nm \<Rightarrow> list_ex (\<lambda>oi. args ! oi = V \<and> role_reads (classifyLibArg nm oi)) [0..<length args]
      | None \<Rightarrow> False))"
  "acc_written (access_call f args V acc) = (acc_written acc \<or>
     (case f of Some nm \<Rightarrow> list_ex (\<lambda>oi. args ! oi = V \<and> role_writes (classifyLibArg nm oi)) [0..<length args]
      | None \<Rightarrow> False))"
  "acc_escapes (access_call f args V acc) = (acc_escapes acc \<or> V \<in> set args \<and>
     (case f of Some nm \<Rightarrow> list_all (\<lambda>oi. args ! oi = V \<longrightarrow> \<not> role_known (classifyLibArg nm oi)) [0..<length args]
      | None \<Rightarrow> True))"
  by (cases f; simp add: access_call_def case_prod_unfold Let_def call_args_flags list_all_iff list_ex_iff;
      blast)+

lemma user_access_flags:
  "acc_read (user_access F V U acc) = (acc_read acc \<or> user_reads F V U)"
  "acc_written (user_access F V U acc) = (acc_written acc \<or> user_writes F V U)"
  "acc_escapes (user_access F V U acc) = (acc_escapes acc \<or> user_escapes F V U)"
  by (cases "ll_val F U";
      simp add: user_access_def access_user_def user_reads_def user_writes_def user_escapes_def
        Let_def access_call_flags)+

lemma users_access_flags:
  "acc_read (fold (user_access F V) us acc) = (acc_read acc \<or> list_ex (user_reads F V) us)"
  "acc_written (fold (user_access F V) us acc) = (acc_written acc \<or> list_ex (user_writes F V) us)"
  "acc_escapes (fold (user_access F V) us acc) = (acc_escapes acc \<or> list_ex (user_escapes F V) us)"
  by (induction us arbitrary: acc) (simp_all add: user_access_flags disj_assoc)

lemma walk_flags:
  "acc_read (fold (\<lambda>V. fold (user_access F V) (ll_users F V)) order acc)
     = (acc_read acc \<or> (\<exists>V\<in>set order. list_ex (user_reads F V) (ll_users F V)))"
  "acc_written (fold (\<lambda>V. fold (user_access F V) (ll_users F V)) order acc)
     = (acc_written acc \<or> (\<exists>V\<in>set order. list_ex (user_writes F V) (ll_users F V)))"
  "acc_escapes (fold (\<lambda>V. fold (user_access F V) (ll_users F V)) order acc)
     = (acc_escapes acc \<or> (\<exists>V\<in>set order. list_ex (user_escapes F V) (ll_users F V)))"
  by (induction order arbitrary: acc) (simp_all add: users_access_flags disj_assoc)

lemma analyzeAccess_flags:
  "acc_read (analyzeAccess F A) \<longleftrightarrow> (\<exists>V. derives_from F A V \<and> list_ex (user_reads F V) (ll_users F V))"
  "acc_written (analyzeAccess F A) \<longleftrightarrow> (\<exists>V. derives_from F A V \<and> list_ex (user_writes F V) (ll_users F V))"
  "acc_escapes (analyzeAccess F A) \<longleftrightarrow> (\<exists>V. derives_from F A V \<and> list_ex (user_escapes F V) (ll_users F V))"
proof -
  obtain order where "access_loop F no_access ([A], [A])
      = fold (\<lambda>V. fold (user_access F V) (ll_users F V)) order no_access"
    and "set order = {V. derives_from F A V}"
    using access_walk.loop_visits [of F no_access A] unfolding derives_from_def by auto
  then show
    "acc_read (analyzeAccess F A) \<longleftrightarrow> (\<exists>V. derives_from F A V \<and> list_ex (user_reads F V) (ll_users F V))"
    "acc_written (analyzeAccess F A) \<longleftrightarrow> (\<exists>V. derives_from F A V \<and> list_ex (user_writes F V) (ll_users F V))"
    "acc_escapes (analyzeAccess F A) \<longleftrightarrow> (\<exists>V. derives_from F A V \<and> list_ex (user_escapes F V) (ll_users F V))"
    by (simp_all add: analyzeAccess_def walk_flags no_access_def)
qed

text \<open>C6: The access summary of an argument is exact: it reports a read, a write or an escape iff
  some instruction reads, writes or leaks through a value derived from the argument.\<close>

theorem analyzeAccess_correct:
  "(acc_read (analyzeAccess F A) \<longleftrightarrow> (\<exists>V. derives_from F A V \<and> list_ex (user_reads F V) (ll_users F V)))
   \<and> (acc_written (analyzeAccess F A) \<longleftrightarrow> (\<exists>V. derives_from F A V \<and> list_ex (user_writes F V) (ll_users F V)))
   \<and> (acc_escapes (analyzeAccess F A) \<longleftrightarrow> (\<exists>V. derives_from F A V \<and> list_ex (user_escapes F V) (ll_users F V)))"
  by (simp add: analyzeAccess_flags)

text \<open>The copy direction never drops a copy that is needed. An argument that some instruction
  reads is copied in unless the optimizer proved it write-only, and one that some instruction
  writes is copied out unless it was proved read-only; an argument gets no direction only if
  nothing is left of either.\<close>

theorem directionFrom_covers:
  "(directionFrom a (analyzeAccess F A) \<in> {Dir_In, Dir_InOut} \<longleftrightarrow>
      \<not> arg_writeOnly a \<and> (\<exists>V. derives_from F A V \<and> list_ex (user_reads F V) (ll_users F V)))
   \<and> (directionFrom a (analyzeAccess F A) \<in> {Dir_Out, Dir_InOut} \<longleftrightarrow>
      \<not> arg_onlyReads a \<and> (\<exists>V. derives_from F A V \<and> list_ex (user_writes F V) (ll_users F V)))
   \<and> directionFrom a (analyzeAccess F A) \<noteq> Dir_NA"
  unfolding directionFrom_def Let_def by (auto simp: analyzeAccess_flags)

end
