(* ===== verification/Composite.thy ===== *)
theory Composite
  imports Annotations
begin

text \<open>
  Annotation of records (\<^verbatim>\<open>Infer.cpp\<close>: \<^verbatim>\<open>treeHasUnmappable\<close>, \<^verbatim>\<open>isSizeyTypeName\<close>, \<^verbatim>\<open>sizeyRank\<close>,
  \<^verbatim>\<open>annotateComposite\<close>): every field of a struct or union behind a pointer gets a concrete action,
  or the record is reported as not resolvable.
\<close>

section \<open>Mappable trees\<close>

definition sized :: "SizeKind \<Rightarrow> bool" where
  "sized s \<longleftrightarrow> s = SK_Const \<or> s = SK_FromArg \<or> s = SK_FromArgPointee \<or> s = SK_Cstr \<or> s = SK_PtrArray"

fun treeHasUnmappable :: "TreeNode \<Rightarrow> bool" where
  "treeHasUnmappable (Node a cs) =
     (if isHandle a \<or> ptrIntoArg a then False
      else if kind a = NK_Unknown then True
      else if kind a = NK_Pointer \<and> \<not> sized (sizeKind a) then True
      else list_ex treeHasUnmappable cs)"

definition isSizeyTypeName :: "string \<Rightarrow> bool" where
  "isSizeyTypeName t \<longleftrightarrow>
     t \<in> {''size_t'', ''unsigned long'', ''unsigned long long'', ''long'', ''unsigned int'', ''int'',
          ''unsigned'', ''long unsigned int'', ''long int''}"

definition sizeyRank :: "string \<Rightarrow> nat" where
  "sizeyRank t =
     (if t \<in> {''size_t'', ''unsigned long'', ''unsigned long long'', ''long unsigned int''} then 3
      else if t \<in> {''long'', ''long int'', ''unsigned int'', ''unsigned''} then 2
      else if t = ''int'' then 1
      else 0)"

section \<open>Records\<close>

text \<open>The scan for the tight pair: the number of pointers and of size-like scalars, the size field
  and its rank.\<close>

record pair_scan =
  nPtr :: nat
  nSizeScalar :: nat
  sizeField :: int
  sizeRank :: nat

definition scan_field :: "nat \<Rightarrow> TreeNode \<Rightarrow> pair_scan \<Rightarrow> pair_scan" where
  "scan_field g c s =
     (if n_kind c = NK_Pointer then s\<lparr> nPtr := nPtr s + 1 \<rparr>
      else if n_kind c = NK_Scalar then
        let rk = sizeyRank (typeName (attrs c)) in
        if 2 \<le> rk then
          let s1 = s\<lparr> nSizeScalar := nSizeScalar s + 1 \<rparr> in
          if sizeRank s < rk then s1\<lparr> sizeRank := rk, sizeField := int g \<rparr> else s1
        else s
      else s)"

fun scan_fields :: "nat \<Rightarrow> TreeNode list \<Rightarrow> pair_scan \<Rightarrow> pair_scan" where
  "scan_fields g [] s = s"
| "scan_fields g (c # cs) s = scan_fields (Suc g) cs (scan_field g c s)"

definition scan_pair :: "TreeNode list \<Rightarrow> pair_scan" where
  "scan_pair cs = scan_fields 0 cs \<lparr> nPtr = 0, nSizeScalar = 0, sizeField = -1, sizeRank = 0 \<rparr>"

definition tightPair :: "pair_scan \<Rightarrow> bool" where
  "tightPair s \<longleftrightarrow> nPtr s = 1 \<and> nSizeScalar s = 1"

definition field_warning :: "nat \<Rightarrow> tree_attrs \<Rightarrow> string \<Rightarrow> string" where
  "field_warning topArg a what =
     ''arg'' @ to_string topArg @ '' field '' @ [CHR 0x27] @ fieldName a @ [CHR 0x27] @ '': '' @ what"

definition unknown_why :: "tree_attrs \<Rightarrow> string" where
  "unknown_why a =
     (if depthTruncated a then ''depth-truncated (deep/cyclic struct)''
      else if typeName a = ''<func>'' then ''function pointer''
      else ''unresolved'')"

text \<open>A pointer field whose pointee is neither opaque nor a record.\<close>

definition annotate_plain_pointer ::
  "nat \<Rightarrow> pair_scan \<Rightarrow> tree_attrs \<Rightarrow> TreeNode \<Rightarrow> TreeNode list \<Rightarrow> string list \<Rightarrow>
     bool \<times> TreeNode \<times> string list" where
  "annotate_plain_pointer topArg sc b pe rest w =
     (if n_kind pe = NK_Pointer then
        if children pe \<noteq> [] \<and> n_kind (hd (children pe)) = NK_Scalar
            \<and> sizeBytes (attrs (hd (children pe))) = 1 then
          (True,
           Node (b\<lparr> sizeKind := SK_PtrArray \<rparr>)
             (upd_node (\<lambda>a. a\<lparr> sizeKind := SK_Cstr, dir := Dir_In \<rparr>) pe # rest),
           w @ [field_warning topArg b (''char** treated as NULL-terminated string array; '' @
                  ''verify elements are C-strings (not fixed-size binary)'')])
        else
          (False, Node b (pe # rest),
           w @ [field_warning topArg b (''pointer-to-pointer (non-string) '' @ dash @ '' not marshalable'')])
      else if n_kind pe = NK_Unknown then
        (False, Node b (pe # rest),
         w @ [field_warning topArg b (''pointer to fn/unresolved '' @ dash @ '' not marshalable'')])
      else
        let elem = (if sizeBytes (attrs pe) \<noteq> 0 then sizeBytes (attrs pe) else 1) in
        (True,
         Node (if tightPair sc then b\<lparr> sizeKind := SK_FromArg, sizeArgIndex := sizeField sc \<rparr>
               else if elem = 1 then b\<lparr> sizeKind := SK_Cstr \<rparr>
               else b\<lparr> sizeKind := SK_Const, constSize := elem \<rparr>) (pe # rest),
         w))"

definition nested_warning :: "nat \<Rightarrow> tree_attrs \<Rightarrow> TreeNode \<Rightarrow> string" where
  "nested_warning topArg b pe =
     field_warning topArg b (''nested struct '' @ [CHR 0x27] @ typeName (attrs pe) @ [CHR 0x27] @
       '' not resolvable '' @ dash @ '' not marshalable'')"

function (sequential) annotateComposite ::
    "Annotations \<Rightarrow> nat \<Rightarrow> TreeNode \<Rightarrow> string list \<Rightarrow> bool \<times> TreeNode \<times> string list"
  and annotateFields ::
    "Annotations \<Rightarrow> nat \<Rightarrow> pair_scan \<Rightarrow> TreeNode list \<Rightarrow> string list \<Rightarrow> bool \<times> TreeNode list \<times> string list"
  and annotateField ::
    "Annotations \<Rightarrow> nat \<Rightarrow> pair_scan \<Rightarrow> TreeNode \<Rightarrow> string list \<Rightarrow> bool \<times> TreeNode \<times> string list" where
  "annotateComposite ann topArg (Node a cs) w =
     (let (r, cs', w') = annotateFields ann topArg (scan_pair cs) cs w in (r, Node a cs', w'))"
| "annotateFields ann topArg sc [] w = (True, [], w)"
| "annotateFields ann topArg sc (fld # fs) w =
     (let (r1, fld', w1) = annotateField ann topArg sc fld w;
          (r2, fs', w2) = annotateFields ann topArg sc fs w1
      in (r1 \<and> r2, fld' # fs', w2))"
| "annotateField ann topArg sc (Node a0 cs) w =
     (let a = a0\<lparr> touched := True \<rparr> in
      if kind a = NK_Struct \<or> kind a = NK_Union then annotateComposite ann topArg (Node a cs) w
      else if kind a = NK_Scalar \<or> kind a = NK_Array then (True, Node a cs, w)
      else if kind a \<noteq> NK_Pointer then
        (False, Node a cs,
         w @ [field_warning topArg a (unknown_why a @ '' '' @ dash @ '' not marshalable'')])
      else let b = a\<lparr> dir := Dir_In \<rparr> in
        (case cs of
           [] \<Rightarrow> (True, Node (b\<lparr> isHandle := True, handleClass := ''void'' \<rparr>) cs, w)
         | pe # rest \<Rightarrow>
           if pointeeOpaque b then (True, Node (b\<lparr> isHandle := True, handleClass := ''void'' \<rparr>) cs, w)
           else if isKnownOpaqueStruct ann (Some pe) then
             (True, Node (b\<lparr> isHandle := True,
                handleClass := canonicalHandleClass ann (typeName (attrs pe)) \<rparr>) cs, w)
           else if isComposite pe then
             if 0 < sizeBytes (attrs pe) \<and> \<not> depthTruncated (attrs pe) then
               (let (r, pe', w1) = annotateComposite ann topArg pe w in
                if r then
                  (True, Node (b\<lparr> sizeKind := SK_Const, constSize := sizeBytes (attrs pe) \<rparr>) (pe' # rest), w1)
                else (False, Node b (pe' # rest), w1 @ [nested_warning topArg b pe]))
             else (False, Node b cs, w @ [nested_warning topArg b pe])
           else annotate_plain_pointer topArg sc b pe rest w))"
  by pat_completeness auto
termination
  by (relation "measure (\<lambda>x. case x of
       Inl (_, _, t, _) \<Rightarrow> 2 * size t
     | Inr (Inl (_, _, _, ts, _)) \<Rightarrow> 2 * size_list size ts
     | Inr (Inr (_, _, _, t, _)) \<Rightarrow> 2 * size t + 1)") simp_all

section \<open>Case analysis\<close>

text \<open>One case per branch of the loop over the fields.\<close>

lemma plain_pointer_cases:
  assumes "annotate_plain_pointer k sc b pe rest w = (r, t', w')"
  obtains
    (strings) c cs m where "r" "n_kind pe = NK_Pointer" "children pe = c # cs" "n_kind c = NK_Scalar"
      "t' = Node (b\<lparr> sizeKind := SK_PtrArray \<rparr>)
         (Node ((attrs pe)\<lparr> sizeKind := SK_Cstr, dir := Dir_In \<rparr>) (children pe) # rest)"
      "w' = w @ [m]"
  | (refused) m where "\<not> r" "t' = Node b (pe # rest)" "w' = w @ [m]"
  | (tight) "r" "n_kind pe \<noteq> NK_Pointer" "n_kind pe \<noteq> NK_Unknown" "tightPair sc"
      "t' = Node (b\<lparr> sizeKind := SK_FromArg, sizeArgIndex := sizeField sc \<rparr>) (pe # rest)" "w' = w"
  | (single) s n where "r" "n_kind pe \<noteq> NK_Pointer" "n_kind pe \<noteq> NK_Unknown"
      "s = SK_Cstr \<or> s = SK_Const" "t' = Node (b\<lparr> sizeKind := s, constSize := n \<rparr>) (pe # rest)" "w' = w"
proof -
  consider
      "n_kind pe = NK_Pointer" "children pe \<noteq> [] \<and> n_kind (hd (children pe)) = NK_Scalar
         \<and> sizeBytes (attrs (hd (children pe))) = 1"
    | "n_kind pe = NK_Pointer" "\<not> (children pe \<noteq> [] \<and> n_kind (hd (children pe)) = NK_Scalar
         \<and> sizeBytes (attrs (hd (children pe))) = 1)"
    | "n_kind pe = NK_Unknown"
    | "n_kind pe \<noteq> NK_Pointer" "n_kind pe \<noteq> NK_Unknown" "tightPair sc"
    | "n_kind pe \<noteq> NK_Pointer" "n_kind pe \<noteq> NK_Unknown" "\<not> tightPair sc"
    by blast
  then show thesis
  proof cases
    case 1
    obtain c cs where c: "children pe = c # cs" using 1(2) by (cases "children pe") auto
    from 1 c assms show thesis
      by (intro strings [OF _ 1(1) c]) (auto simp: annotate_plain_pointer_def upd_node_def)
  next
    case 2
    have "annotate_plain_pointer k sc b pe rest w = (False, Node b (pe # rest),
        w @ [field_warning k b (''pointer-to-pointer (non-string) '' @ dash @ '' not marshalable'')])"
      unfolding annotate_plain_pointer_def by (simp only: 2 if_True if_False refl)
    with assms show thesis by (intro refused) auto
  next
    case 3
    with assms show thesis by (intro refused) (auto simp: annotate_plain_pointer_def)
  next
    case 4
    with assms show thesis by (intro tight) (auto simp: annotate_plain_pointer_def Let_def)
  next
    case 5
    let ?e = "if sizeBytes (attrs pe) \<noteq> 0 then sizeBytes (attrs pe) else 1"
    have b: "b\<lparr> sizeKind := SK_Cstr \<rparr> = b\<lparr> sizeKind := SK_Cstr, constSize := constSize b \<rparr>" by simp
    show thesis
    proof (cases "?e = 1")
      case True
      with 5 assms show thesis
        by (intro single [where s = SK_Cstr and n = "constSize b"])
          (simp_all add: annotate_plain_pointer_def Let_def del: One_nat_def)
    next
      case False
      with 5 assms show thesis
        by (intro single [where s = SK_Const and n = ?e])
          (simp_all add: annotate_plain_pointer_def Let_def del: One_nat_def)
    qed
  qed
qed

lemma annotateField_cases:
  assumes eq: "annotateField ann k sc (Node a0 cs) w = (r, t', w')"
  obtains
    (byval) "kind a0 = NK_Struct \<or> kind a0 = NK_Union"
      "annotateComposite ann k (Node (a0\<lparr> touched := True \<rparr>) cs) w = (r, t', w')"
  | (data) "kind a0 = NK_Scalar \<or> kind a0 = NK_Array" "r" "t' = Node (a0\<lparr> touched := True \<rparr>) cs" "w' = w"
  | (unknown) m where "kind a0 = NK_Unknown" "\<not> r" "t' = Node (a0\<lparr> touched := True \<rparr>) cs" "w' = w @ [m]"
  | (handle) c where "kind a0 = NK_Pointer" "r" "w' = w"
      "t' = Node (a0\<lparr> touched := True, dir := Dir_In, isHandle := True, handleClass := c \<rparr>) cs"
  | (rec) pe rest pe' where "kind a0 = NK_Pointer" "cs = pe # rest" "isComposite pe" "r"
      "annotateComposite ann k pe w = (True, pe', w')"
      "t' = Node (a0\<lparr> touched := True, dir := Dir_In, sizeKind := SK_Const,
         constSize := sizeBytes (attrs pe) \<rparr>) (pe' # rest)"
  | (rec_no) pe rest pe' w1 m where "kind a0 = NK_Pointer" "cs = pe # rest" "isComposite pe" "\<not> r"
      "annotateComposite ann k pe w = (False, pe', w1) \<or> pe' = pe \<and> w1 = w"
      "t' = Node (a0\<lparr> touched := True, dir := Dir_In \<rparr>) (pe' # rest)" "w' = w1 @ [m]"
  | (plain) pe rest where "kind a0 = NK_Pointer" "cs = pe # rest" "\<not> isComposite pe"
      "annotate_plain_pointer k sc (a0\<lparr> touched := True, dir := Dir_In \<rparr>) pe rest w = (r, t', w')"
proof (cases "kind a0")
  case NK_Scalar
  with eq show thesis by (intro data) auto
next
  case NK_Array
  with eq show thesis by (intro data) auto
next
  case NK_Struct
  with eq show thesis by (intro byval) (auto simp del: annotateComposite.simps)
next
  case NK_Union
  with eq show thesis by (intro byval) (auto simp del: annotateComposite.simps)
next
  case NK_Unknown
  with eq show thesis by (intro unknown) (auto simp: Let_def)
next
  case NK_Pointer
  note [simp del] = annotateComposite.simps
  show thesis
  proof (cases cs)
    case Nil
    with NK_Pointer eq show thesis by (intro handle) auto
  next
    case (Cons pe rest)
    consider "pointeeOpaque a0" | "\<not> pointeeOpaque a0" "isKnownOpaqueStruct ann (Some pe)"
      | "\<not> pointeeOpaque a0" "\<not> isKnownOpaqueStruct ann (Some pe)" "isComposite pe"
        "0 < sizeBytes (attrs pe) \<and> \<not> depthTruncated (attrs pe)"
      | "\<not> pointeeOpaque a0" "\<not> isKnownOpaqueStruct ann (Some pe)" "isComposite pe"
        "\<not> (0 < sizeBytes (attrs pe) \<and> \<not> depthTruncated (attrs pe))"
      | "\<not> pointeeOpaque a0" "\<not> isKnownOpaqueStruct ann (Some pe)" "\<not> isComposite pe" by blast
    then show thesis
    proof cases
      case 1
      with NK_Pointer Cons eq show thesis by (intro handle [where c = "''void''"]) auto
    next
      case 2
      with NK_Pointer Cons eq show thesis
        by (intro handle [where c = "canonicalHandleClass ann (typeName (attrs pe))"]) auto
    next
      case 3
      obtain r1 pe' w1 where s: "annotateComposite ann k pe w = (r1, pe', w1)"
        by (cases "annotateComposite ann k pe w")
      show thesis
      proof (cases r1)
        case True
        with s 3 NK_Pointer Cons eq show thesis by (intro rec) auto
      next
        case False
        with s 3 NK_Pointer Cons eq have t: "\<not> r" "t' = Node (a0\<lparr> touched := True, dir := Dir_In \<rparr>) (pe' # rest)"
          "\<exists>m. w' = w1 @ [m]" by (auto simp: Let_def)
        then show thesis using rec_no [OF NK_Pointer Cons 3(3) t(1), of pe' w1] s False by auto
      qed
    next
      case 4
      with NK_Pointer Cons eq have t: "\<not> r" "t' = Node (a0\<lparr> touched := True, dir := Dir_In \<rparr>) (pe # rest)"
        "\<exists>m. w' = w @ [m]" by (auto simp: Let_def)
      then show thesis using rec_no [OF NK_Pointer Cons 4(3) t(1), of pe w] by blast
    next
      case 5
      with NK_Pointer Cons eq show thesis by (intro plain [OF NK_Pointer Cons]) auto
    qed
  qed
qed

lemma annotateFields_cases:
  assumes "annotateFields ann k sc (fld # fs) w = (r, ts', w')"
  obtains r1 r2 fld' fs' w1 where "annotateField ann k sc fld w = (r1, fld', w1)"
    "annotateFields ann k sc fs w1 = (r2, fs', w')" "r = (r1 \<and> r2)" "ts' = fld' # fs'"
  using assms by (auto simp: Let_def simp del: annotateField.simps split: prod.splits)

lemma annotateComposite_cases:
  assumes "annotateComposite ann k (Node a cs) w = (r, t', w')"
  obtains cs' where "annotateFields ann k (scan_pair cs) cs w = (r, cs', w')" "t' = Node a cs'"
  using assms by (auto simp: Let_def split: prod.splits)

declare annotateField.simps [simp del] annotateComposite.simps [simp del] annotateFields.simps [simp del]

lemma annotate_Nil [simp]: "annotateFields ann k sc [] w = (True, [], w)"
  by (simp add: annotateFields.simps)

text \<open>The recursion of the annotation: into the fields of a record, and from a pointer field into
  its pointee.\<close>

lemma annotate_induct [case_names node nil cons field]:
  assumes node: "\<And>a cs. Q cs \<Longrightarrow> P (Node a cs)"
    and nil: "Q []"
    and cons: "\<And>fld fs. R fld \<Longrightarrow> Q fs \<Longrightarrow> Q (fld # fs)"
    and field: "\<And>a cs. (\<And>a'. P (Node a' cs)) \<Longrightarrow> (\<And>pe rest. cs = pe # rest \<Longrightarrow> P pe) \<Longrightarrow> R (Node a cs)"
  shows "P t" and "Q ts" and "R t"
proof -
  have S: "(\<forall>a. P (Node a (children t))) \<and> R t" for t
  proof (induction t)
    case (Node a cs)
    have "R c" if "c \<in> set cs" for c using Node.IH [OF that] by blast
    then have "Q cs" by (induction cs) (simp_all add: nil cons)
    then have any: "P (Node a' cs)" for a' by (rule node)
    have "P pe" if "cs = pe # rest" for pe rest
    proof -
      have "\<forall>a. P (Node a (children pe))" using Node.IH [of pe] that by simp
      then have "P (Node (attrs pe) (children pe))" by blast
      then show ?thesis by simp
    qed
    with any have "R (Node a cs)" by (rule field)
    with any show ?case by simp
  qed
  have "P (Node (attrs t) (children t))" using S by blast
  then show "P t" by simp
  show "Q ts" by (induction ts) (simp_all add: nil cons S)
  show "R t" using S by blast
qed

section \<open>What the annotation keeps\<close>

text \<open>The members the annotation may write are reset; everything else of a tree is its layout.\<close>

definition layout_attrs :: "tree_attrs \<Rightarrow> tree_attrs" where
  "layout_attrs a = a\<lparr> dir := Dir_NA, sizeKind := SK_NA, sizeArgIndex := -1, constSize := 0,
     isHandle := False, handleClass := [], touched := True \<rparr>"

fun layout :: "TreeNode \<Rightarrow> TreeNode" where
  "layout (Node a cs) = Node (layout_attrs a) (map layout cs)"

lemma layout_attrs_upd [simp]:
  "layout_attrs (a\<lparr> dir := d \<rparr>) = layout_attrs a"
  "layout_attrs (a\<lparr> sizeKind := s \<rparr>) = layout_attrs a"
  "layout_attrs (a\<lparr> sizeArgIndex := i \<rparr>) = layout_attrs a"
  "layout_attrs (a\<lparr> constSize := n \<rparr>) = layout_attrs a"
  "layout_attrs (a\<lparr> isHandle := h \<rparr>) = layout_attrs a"
  "layout_attrs (a\<lparr> handleClass := c \<rparr>) = layout_attrs a"
  "layout_attrs (a\<lparr> touched := t \<rparr>) = layout_attrs a"
  by (simp_all add: layout_attrs_def)

lemma layout_upd_node [simp]: "layout (upd_node f n) = Node (layout_attrs (f (attrs n))) (map layout (children n))"
  by (simp add: upd_node_def)

lemma layout_eq: "layout n = Node (layout_attrs (attrs n)) (map layout (children n))"
  by (cases n) simp

lemma plain_pointer_layout:
  assumes "annotate_plain_pointer k sc b pe rest w = (r, t', w')"
  shows "layout t' = layout (Node b (pe # rest))"
  using assms by (cases rule: plain_pointer_cases) (simp_all add: layout_eq [of pe])

lemma annotate_layout:
  "annotateComposite ann k t w = (r, t', w') \<Longrightarrow> layout t' = layout t \<and> attrs t' = attrs t"
  "annotateFields ann k sc ts w = (r, ts', w') \<Longrightarrow> map layout ts' = map layout ts"
  "annotateField ann k sc t w = (r, t', w') \<Longrightarrow> layout t' = layout t"
proof (induction t and ts and t arbitrary: w r t' w' and sc w r ts' w' and sc w r t' w'
    rule: annotate_induct)
  case (node a cs)
  from node.prems show ?case
    by (cases rule: annotateComposite_cases) (simp add: node.IH)
next
  case nil
  then show ?case by simp
next
  case (cons fld fs)
  from cons.prems show ?case
    by (cases rule: annotateFields_cases) (simp add: cons.IH)
next
  case (field a0 cs)
  from field.prems show ?case
  proof (cases rule: annotateField_cases)
    case byval
    from field.IH(1) [OF this(2)] show ?thesis by simp
  next
    case (rec pe rest pe')
    from field.IH(2) [OF rec(2,5)] rec show ?thesis by simp
  next
    case (rec_no pe rest pe' w1 m)
    from field.IH(2) [OF rec_no(2)] rec_no(5) have "layout pe' = layout pe" by blast
    with rec_no show ?thesis by simp
  next
    case (plain pe rest)
    from plain_pointer_layout [OF plain(4)] plain show ?thesis by simp
  qed simp_all
qed

section \<open>What the verdict means\<close>

text \<open>Warnings are only added, and a refusal adds one.\<close>

lemma plain_pointer_warns:
  assumes "annotate_plain_pointer k sc b pe rest w = (r, t', w')"
  shows "\<exists>ms. w' = w @ ms \<and> (\<not> r \<longrightarrow> ms \<noteq> [])"
  using assms by (cases rule: plain_pointer_cases) auto

lemma annotate_warns:
  "annotateComposite ann k t w = (r, t', w') \<Longrightarrow> \<exists>ms. w' = w @ ms \<and> (\<not> r \<longrightarrow> ms \<noteq> [])"
  "annotateFields ann k sc ts w = (r, ts', w') \<Longrightarrow> \<exists>ms. w' = w @ ms \<and> (\<not> r \<longrightarrow> ms \<noteq> [])"
  "annotateField ann k sc t w = (r, t', w') \<Longrightarrow> \<exists>ms. w' = w @ ms \<and> (\<not> r \<longrightarrow> ms \<noteq> [])"
proof (induction t and ts and t arbitrary: w r t' w' and sc w r ts' w' and sc w r t' w'
    rule: annotate_induct)
  case (node a cs)
  from node.prems show ?case
    by (cases rule: annotateComposite_cases) (simp add: node.IH)
next
  case nil
  then show ?case by simp
next
  case (cons fld fs)
  from cons.prems obtain r1 r2 fld' fs' w1 where s: "annotateField ann k sc fld w = (r1, fld', w1)"
    "annotateFields ann k sc fs w1 = (r2, fs', w')" and r: "r = (r1 \<and> r2)"
    by (rule annotateFields_cases)
  from cons.IH(1) [OF s(1)] cons.IH(2) [OF s(2)] r show ?case by auto
next
  case (field a0 cs)
  from field.prems show ?case
  proof (cases rule: annotateField_cases)
    case byval
    from field.IH(1) [OF this(2)] show ?thesis .
  next
    case (rec pe rest pe')
    from field.IH(2) [OF rec(2,5)] rec show ?thesis by simp
  next
    case (rec_no pe rest pe' w1 m)
    from field.IH(2) [OF rec_no(2)] rec_no(5) have "\<exists>ms. w1 = w @ ms" by blast
    with rec_no show ?thesis by auto
  next
    case (plain pe rest)
    from plain_pointer_warns [OF plain(4)] show ?thesis .
  qed simp_all
qed

text \<open>Arrays count as plain data; \<open>arrays_plain\<close> says that they are.\<close>

fun arrays_plain :: "TreeNode \<Rightarrow> bool" where
  "arrays_plain (Node a cs) \<longleftrightarrow>
     (kind a = NK_Array \<longrightarrow> \<not> list_ex treeHasUnmappable cs) \<and> list_all arrays_plain cs"

lemma leaf_mappable:
  assumes "tree_shape t" "arrays_plain t" "n_kind t = NK_Scalar \<or> n_kind t = NK_Array"
  shows "\<not> treeHasUnmappable t"
  using assms by (cases t) (auto split: if_splits)

lemma plain_pointer_mappable:
  assumes "annotate_plain_pointer k sc b pe rest w = (True, t', w')"
    and "kind b = NK_Pointer" "tree_shape (Node b (pe # rest))" "arrays_plain pe" "\<not> isComposite pe"
  shows "\<not> treeHasUnmappable t'"
proof -
  have rest: "rest = []" and pe: "tree_shape pe" using assms(2,3) by (auto split: if_splits)
  have scalar: "\<not> treeHasUnmappable pe" if "n_kind pe \<noteq> NK_Pointer" "n_kind pe \<noteq> NK_Unknown"
    using that assms(5) leaf_mappable [OF pe assms(4)] by (cases "n_kind pe") (auto simp: isComposite_def)
  from assms(1) show ?thesis
  proof (cases rule: plain_pointer_cases)
    case (strings c cs m)
    have c: "cs = []" "tree_shape c" "arrays_plain c"
      using pe strings(2,3) assms(4) by (cases pe, auto split: if_splits)+
    from leaf_mappable [OF c(2,3)] strings c rest assms(2) show ?thesis by (simp add: sized_def)
  qed (use scalar rest assms(2) in \<open>auto simp: sized_def\<close>)
qed

lemma annotate_mappable:
  "annotateComposite ann k t w = (True, t', w') \<Longrightarrow> tree_shape t \<Longrightarrow> arrays_plain t \<Longrightarrow>
     isComposite t \<Longrightarrow> \<not> treeHasUnmappable t'"
  "annotateFields ann k sc ts w = (True, ts', w') \<Longrightarrow> list_all tree_shape ts \<Longrightarrow> list_all arrays_plain ts \<Longrightarrow>
     \<not> list_ex treeHasUnmappable ts'"
  "annotateField ann k sc t w = (True, t', w') \<Longrightarrow> tree_shape t \<Longrightarrow> arrays_plain t \<Longrightarrow> \<not> treeHasUnmappable t'"
proof (induction t and ts and t arbitrary: w t' w' and sc w ts' w' and sc w t' w' rule: annotate_induct)
  case (node a cs)
  from node.prems(1) obtain cs' where "annotateFields ann k (scan_pair cs) cs w = (True, cs', w')"
    "t' = Node a cs'" by (rule annotateComposite_cases)
  with node show ?case by (auto simp: isComposite_def list_all_iff)
next
  case nil
  then show ?case by simp
next
  case (cons fld fs)
  from cons.prems(1) show ?case
    by (rule annotateFields_cases) (use cons in auto)
next
  case (field a0 cs)
  from field.prems(1) show ?case
  proof (cases rule: annotateField_cases)
    case byval
    with field.IH(1) [OF byval(2)] field.prems(2,3) show ?thesis by (auto simp: isComposite_def)
  next
    case data
    with field.prems(2,3) show ?thesis
      by (auto split: if_splits)
  next
    case (rec pe rest pe')
    then have "\<not> treeHasUnmappable pe'" "rest = []"
      using field.IH(2) [OF rec(2) rec(5)] field.prems(2,3) by (auto split: if_splits)
    with rec show ?thesis by (simp add: sized_def)
  next
    case (plain pe rest)
    show ?thesis
      by (rule plain_pointer_mappable [OF plain(4)]) (use plain field.prems(2,3) in auto)
  qed simp_all
qed

text \<open>A tight pair names a scalar sibling whose type can hold a size.\<close>

definition size_scalar :: "TreeNode list \<Rightarrow> int \<Rightarrow> bool" where
  "size_scalar cs i \<longleftrightarrow> 0 \<le> i \<and> nat i < length cs \<and> n_kind (cs ! nat i) = NK_Scalar
     \<and> 2 \<le> sizeyRank (typeName (attrs (cs ! nat i)))"

lemma scan_field_size:
  assumes "g < length all" and "nSizeScalar s = 0 \<and> sizeRank s = 0 \<or> size_scalar all (sizeField s)"
  shows "nSizeScalar (scan_field g (all ! g) s) = 0 \<and> sizeRank (scan_field g (all ! g) s) = 0
     \<or> size_scalar all (sizeField (scan_field g (all ! g) s))"
  using assms by (auto simp: scan_field_def Let_def size_scalar_def)

lemma scan_fields_size:
  assumes "all = pre @ cs" and "nSizeScalar s = 0 \<and> sizeRank s = 0 \<or> size_scalar all (sizeField s)"
  shows "nSizeScalar (scan_fields (length pre) cs s) = 0 \<or> size_scalar all (sizeField (scan_fields (length pre) cs s))"
  using assms
proof (induction cs arbitrary: pre s)
  case Nil
  then show ?case by auto
next
  case (Cons c cs)
  have c: "all ! length pre = c" "length pre < length all" using Cons.prems(1) by simp_all
  from Cons.IH [of "pre @ [c]" "scan_field (length pre) c s"] Cons.prems(1)
    scan_field_size [OF c(2) Cons.prems(2)] c(1)
  show ?case by simp
qed

lemma tight_pair_size: "tightPair (scan_pair cs) \<Longrightarrow> size_scalar cs (sizeField (scan_pair cs))"
  using scan_fields_size [of cs "[]" cs "\<lparr> nPtr = 0, nSizeScalar = 0, sizeField = -1, sizeRank = 0 \<rparr>"]
  by (simp add: tightPair_def scan_pair_def)

lemma annotateField_from_arg:
  assumes "annotateField ann k sc t w = (r, t', w')" and "sizeKind (attrs t) \<noteq> SK_FromArg"
    and "sizeKind (attrs t') = SK_FromArg"
  shows "tightPair sc \<and> sizeArgIndex (attrs t') = sizeField sc \<and> n_kind t = NK_Pointer"
proof (cases t)
  case (Node a0 cs)
  from assms(1) [unfolded Node] show ?thesis
  proof (cases rule: annotateField_cases)
    case byval
    with annotate_layout(1) [OF byval(2)] assms(2,3) Node show ?thesis by simp
  next
    case (plain pe rest)
    from plain(4) show ?thesis
      by (cases rule: plain_pointer_cases) (use plain assms(2,3) Node in auto)
  qed (use assms(2,3) Node in auto)
qed

lemma annotateFields_nth:
  assumes "annotateFields ann k sc ts w = (r, ts', w')"
  shows "length ts' = length ts \<and> (\<forall>i<length ts. \<exists>r1 w1 w2. annotateField ann k sc (ts ! i) w1 = (r1, ts' ! i, w2))"
  using assms
proof (induction ts arbitrary: w r ts')
  case Nil
  then show ?case by simp
next
  case (Cons fld fs)
  from Cons.prems obtain r1 r2 fld' fs' w1 where s: "annotateField ann k sc fld w = (r1, fld', w1)"
    "annotateFields ann k sc fs w1 = (r2, fs', w')" "ts' = fld' # fs'"
    by (rule annotateFields_cases)
  from Cons.IH [OF s(2)] s show ?case by (auto simp: nth_Cons split: nat.splits)
qed

text \<open>Annotating a record keeps its layout: names, kinds, sizes, offsets, qualifiers and the shape
  of the tree are as before; warnings are only appended; and a record that is refused is
  reported by at least one new warning.\<close>

theorem annotateComposite_layout:
  assumes "annotateComposite ann topArg t w = (r, t', w')"
  shows "layout t' = layout t \<and> attrs t' = attrs t \<and> (\<exists>ms. w' = w @ ms \<and> (\<not> r \<longrightarrow> ms \<noteq> []))"
  using annotate_layout(1) [OF assms] annotate_warns(1) [OF assms] by blast

text \<open>C29: A record the annotation resolves is really mappable: once its arrays hold plain data, no
  node below it is left that the emitted description cannot express.\<close>

theorem annotateComposite_resolved:
  assumes "annotateComposite ann topArg t w = (True, t', w')"
    and "tree_shape t" and "isComposite t" and "arrays_plain t"
  shows "\<not> treeHasUnmappable t'"
  using annotate_mappable(1) [OF assms(1,2,4,3)] .

text \<open>A pointer field that the annotation sizes by a sibling names a scalar sibling, other than
  itself, whose type can hold a size.\<close>

theorem annotateComposite_sizes:
  assumes "annotateComposite ann topArg (Node a cs) w = (r, t', w')" and "i < length cs"
    and "sizeKind (attrs (cs ! i)) \<noteq> SK_FromArg" and "sizeKind (attrs (children t' ! i)) = SK_FromArg"
  shows "size_scalar cs (sizeArgIndex (attrs (children t' ! i)))
    \<and> sizeArgIndex (attrs (children t' ! i)) \<noteq> int i"
proof -
  obtain cs' where f: "annotateFields ann topArg (scan_pair cs) cs w = (r, cs', w')" and t': "t' = Node a cs'"
    using assms(1) by (rule annotateComposite_cases)
  obtain r1 w1 w2 where "annotateField ann topArg (scan_pair cs) (cs ! i) w1 = (r1, cs' ! i, w2)"
    using annotateFields_nth [OF f] assms(2) by blast
  from annotateField_from_arg [OF this assms(3)] assms(4) t'
  have "tightPair (scan_pair cs)" "sizeArgIndex (attrs (cs' ! i)) = sizeField (scan_pair cs)" "n_kind (cs ! i) = NK_Pointer"
    by simp_all
  with tight_pair_size [of cs] t' show ?thesis by (auto simp: size_scalar_def)
qed

text \<open>The buffer of the toy library: \<^verbatim>\<open>struct toy_buffer { char *data; size_t len; }\<close>.\<close>

definition toy_buffer :: TreeNode where
  "toy_buffer = Node (default_attrs\<lparr> kind := NK_Struct, typeName := ''toy_buffer'', sizeBytes := 8 \<rparr>)
     [Node (default_attrs\<lparr> kind := NK_Pointer, fieldName := ''data'', typeName := ''<ptr>'', sizeBytes := 4 \<rparr>)
        [Node (default_attrs\<lparr> kind := NK_Scalar, typeName := ''char'', sizeBytes := 1 \<rparr>) []],
      Node (default_attrs\<lparr> kind := NK_Scalar, fieldName := ''len'', typeName := ''size_t'', sizeBytes := 4,
              offsetBytes := 4 \<rparr>) []]"

definition toy_buffer_annotated :: TreeNode where
  "toy_buffer_annotated = Node (attrs toy_buffer)
     [Node ((attrs (children toy_buffer ! 0))\<lparr> dir := Dir_In, sizeKind := SK_FromArg, sizeArgIndex := 1 \<rparr>)
        (children (children toy_buffer ! 0)),
      children toy_buffer ! 1]"

lemma toy_buffer_run:
  "annotateComposite default_annotations 0 toy_buffer [] = (True, toy_buffer_annotated, [])"
  by code_simp

theorem annotateComposite_layout_witness:
  "layout toy_buffer_annotated = layout toy_buffer"
  using annotateComposite_layout [OF toy_buffer_run] by simp

theorem annotateComposite_resolved_witness:
  "\<not> treeHasUnmappable toy_buffer_annotated"
  by (rule annotateComposite_resolved [OF toy_buffer_run]) code_simp+

theorem annotateComposite_sizes_witness:
  "size_scalar (children toy_buffer) (sizeArgIndex (attrs (children toy_buffer_annotated ! 0)))"
proof -
  have "annotateComposite default_annotations 0 (Node (attrs toy_buffer) (children toy_buffer)) []
      = (True, toy_buffer_annotated, [])"
    using toy_buffer_run by simp
  from annotateComposite_sizes [OF this, of 0] show ?thesis
    by (simp add: toy_buffer_def toy_buffer_annotated_def default_attrs_def)
qed

end
