(* ===== verification/Variadic.thy ===== *)
theory Variadic
  imports Access Composite
begin

text \<open>
  Variadic functions (\<^verbatim>\<open>Infer.cpp\<close>: \<^verbatim>\<open>isVaBookkeepingIntrinsic\<close> to \<^verbatim>\<open>inferVariadic\<close>): recovering the
  arguments a function reads through a \<^verbatim>\<open>va_list\<close>, or deciding that it must run locally.
\<close>

section \<open>Diagnostics\<close>

definition push_warning :: "string \<Rightarrow> FunctionTrees \<Rightarrow> FunctionTrees" where
  "push_warning s ft = ft\<lparr> warnings := warnings ft @ [s] \<rparr>"

definition force_local :: "string \<Rightarrow> FunctionTrees \<Rightarrow> FunctionTrees" where
  "force_local s ft = push_warning s (ft\<lparr> forceLocal := True \<rparr>)"

definition push_param :: "TreeNode \<Rightarrow> FunctionTrees \<Rightarrow> FunctionTrees" where
  "push_param n ft = ft\<lparr> params := params ft @ [n] \<rparr>"

text \<open>A loop that returns true at the first element whose test does; the test may not return.\<close>

primrec oany :: "('a \<Rightarrow> bool option) \<Rightarrow> 'a list \<Rightarrow> bool option" where
  "oany f [] = Some False"
| "oany f (x # xs) = f x \<bind> (\<lambda>b. if b then Some True else oany f xs)"

lemma oany_mono [partial_function_mono]:
  assumes "\<And>y. mono_option (\<lambda>f. B f y)"
  shows "mono_option (\<lambda>f. oany (\<lambda>y. B f y) xs)"
  by (induction xs) (auto intro!: partial_function_mono assms)

lemma oany_total: "(\<And>x. x \<in> set xs \<Longrightarrow> f x = Some (P x)) \<Longrightarrow> oany f xs = Some (list_ex P xs)"
  by (induction xs) simp_all

section \<open>Walk roots\<close>

fun isVaBookkeepingIntrinsic :: "intrinsic \<Rightarrow> bool" where
  "isVaBookkeepingIntrinsic IN_vastart = True"
| "isVaBookkeepingIntrinsic IN_vaend = True"
| "isVaBookkeepingIntrinsic IN_lifetime_start = True"
| "isVaBookkeepingIntrinsic IN_lifetime_end = True"
| "isVaBookkeepingIntrinsic IN_dbg_declare = True"
| "isVaBookkeepingIntrinsic IN_dbg_value = True"
| "isVaBookkeepingIntrinsic IN_dbg_assign = True"
| "isVaBookkeepingIntrinsic _ = False"

definition va_start_slot :: "llfun \<Rightarrow> vid \<Rightarrow> vid option" where
  "va_start_slot F I =
     (if dyn_Intrinsic (ll_val F I) = Some IN_vastart then
        case dyn_CallBase (ll_val F I) of
          Some (x # xs) \<Rightarrow> if isa_Alloca (ll_val F (ll_strip F x)) then Some (ll_strip F x) else None
        | _ \<Rightarrow> None
      else None)"

definition findVaStartAlloca :: "llfun \<Rightarrow> vid option" where
  "findVaStartAlloca F =
     (case filter (\<lambda>I. va_start_slot F I \<noteq> None) (all_insts F) of
        [] \<Rightarrow> None
      | I # _ \<Rightarrow> va_start_slot F I)"

definition hasVaCopyTouching :: "llfun \<Rightarrow> vid \<Rightarrow> bool" where
  "hasVaCopyTouching F root =
     list_ex (\<lambda>U. dyn_Intrinsic (ll_val F U) = Some IN_vacopy) (ll_users F root)"

section \<open>Escapes\<close>

definition escaping_call :: "llfun \<Rightarrow> vid \<Rightarrow> vid \<Rightarrow> bool" where
  "escaping_call F cur U =
     (case dyn_CallBase (ll_val F U) of
        None \<Rightarrow> False
      | Some args \<Rightarrow>
          (case dyn_Intrinsic (ll_val F U) of
             Some i \<Rightarrow> \<not> (isVaBookkeepingIntrinsic i \<or> i = IN_vacopy)
           | None \<Rightarrow> True) \<and> cur \<in> set args)"

text \<open>The pass over the users of \<open>cur\<close>: \<open>None\<close> when the function returns true there.\<close>

fun cursor_users :: "llfun \<Rightarrow> vid \<Rightarrow> vid list \<Rightarrow> vid list \<Rightarrow> vid list option" where
  "cursor_users F cur [] work = Some work"
| "cursor_users F cur (U # us) work =
     (if dyn_CallBase (ll_val F U) \<noteq> None then
        if escaping_call F cur U then None else cursor_users F cur us work
      else case dyn_Load (ll_val F U) of
        Some p \<Rightarrow> cursor_users F cur us (if p = cur then U # work else work)
      | None \<Rightarrow> cursor_users F cur us (if isa_BitCast (ll_val F U) then U # work else work))"

definition cursor_succ :: "llfun \<Rightarrow> vid \<Rightarrow> vid \<Rightarrow> bool" where
  "cursor_succ F cur U \<longleftrightarrow> ll_val F U = ILoad cur \<or> isa_BitCast (ll_val F U)"

lemma cursor_succ_cases:
  "dyn_CallBase (ll_val F U) \<noteq> None \<Longrightarrow> \<not> cursor_succ F cur U"
  "dyn_Load (ll_val F U) = Some p \<Longrightarrow> cursor_succ F cur U = (p = cur)"
  "dyn_Load (ll_val F U) = None \<Longrightarrow> cursor_succ F cur U = isa_BitCast (ll_val F U)"
  by (cases "ll_val F U"; auto simp: cursor_succ_def ll_view)+

lemma cursor_users_eq:
  "cursor_users F cur us work =
     (if list_ex (escaping_call F cur) us then None
      else Some (rev (filter (cursor_succ F cur) us) @ work))"
proof (induction us arbitrary: work)
  case Nil
  then show ?case by simp
next
  case (Cons U us)
  show ?case
  proof (cases "dyn_CallBase (ll_val F U)")
    case None
    then have "\<not> escaping_call F cur U" by (simp add: escaping_call_def)
    with None Cons show ?thesis
      by (cases "dyn_Load (ll_val F U)") (simp_all add: cursor_succ_cases)
  next
    case (Some args)
    with Cons show ?thesis by (simp add: cursor_succ_cases)
  qed
qed

function cursor_loop :: "llfun \<Rightarrow> vid list \<times> vid list \<Rightarrow> bool" where
  "cursor_loop F ([], seen) = False"
| "cursor_loop F (cur # work, seen) =
     (if \<not> cur < ll_size F \<or> cur \<in> set seen then cursor_loop F (work, seen)
      else case cursor_users F cur (ll_users F cur) work of
             None \<Rightarrow> True
           | Some work' \<Rightarrow> cursor_loop F (work', cur # seen))"
  by pat_completeness auto
termination
  by (relation "inv_image (less_than <*lex*> less_than)
        (\<lambda>(F, work, seen). (unseen (ll_size F) seen, length work))")
    (auto simp: unseen_Cons)

definition cursorEscapesToCall :: "llfun \<Rightarrow> vid \<Rightarrow> bool" where
  "cursorEscapesToCall F v = cursor_loop F ([v], [])"

section \<open>Reads\<close>

record VarargRead =
  valueLoad :: vid
  read_type :: ll_type

definition isCursorCandidate :: "llfun \<Rightarrow> vid \<Rightarrow> vid \<Rightarrow> bool option" where
  "isCursorCandidate F cand root =
     (case dyn_Load (ll_val F cand) of
        Some p \<Rightarrow> Some (p = root)
      | None \<Rightarrow>
          if dyn_PHI (ll_val F cand) \<noteq> None
          then map_option fst (tracesToLoadOfSlot F (fuel F) cand root [])
          else Some False)"

fun cursorPhis :: "llfun \<Rightarrow> vid \<Rightarrow> vid list \<Rightarrow> vid list option" where
  "cursorPhis F root [] = Some []"
| "cursorPhis F root (I # is) =
     (if dyn_PHI (ll_val F I) \<noteq> None then
        do { b \<leftarrow> isCursorCandidate F I root;
             rest \<leftarrow> cursorPhis F root is;
             Some (if b then I # rest else rest) }
      else cursorPhis F root is)"

definition advanced :: "llfun \<Rightarrow> vid \<Rightarrow> vid \<Rightarrow> bool" where
  "advanced F root cand =
     list_ex (\<lambda>U2. dyn_GEP (ll_val F U2) \<noteq> None \<and>
       list_ex (\<lambda>U3. dyn_Store (ll_val F U3) = Some (U2, root)) (ll_users F U2)) (ll_users F cand)"

text \<open>\<^verbatim>\<open>collectVarargReads\<close>: whether a cursor was confirmed, and the reads.\<close>

definition collectVarargReads :: "llfun \<Rightarrow> vid \<Rightarrow> (bool \<times> VarargRead list) option" where
  "collectVarargReads F root =
     do { phis \<leftarrow> cursorPhis F root (all_insts F);
          let candidates = filter (\<lambda>U. dyn_Load (ll_val F U) = Some root) (ll_users F root) @ phis;
          let confirmed = filter (advanced F root) candidates;
          if confirmed = [] then Some (False, [])
          else Some (True,
            map (\<lambda>I. \<lparr> valueLoad = I, read_type = ll_ty F I \<rparr>)
              (filter (\<lambda>I. case dyn_Load (ll_val F I) of Some p \<Rightarrow> p \<in> set confirmed | None \<Rightarrow> False)
                (all_insts F))) }"

section \<open>Cycles and sentinels\<close>

definition bb_succ :: "llfun \<Rightarrow> nat \<Rightarrow> nat list" where
  "bb_succ F b = (if b < length (ll_blocks F) then bb_succs (ll_blocks F ! b) else [])"

function cycle_loop :: "llfun \<Rightarrow> nat \<Rightarrow> nat list \<times> nat list \<Rightarrow> bool" where
  "cycle_loop F bb ([], visited) = False"
| "cycle_loop F bb (cur # work, visited) =
     (if \<not> cur < length (ll_blocks F) then cycle_loop F bb (work, visited)
      else if cur = bb then True
      else if cur \<in> set visited then cycle_loop F bb (work, visited)
      else cycle_loop F bb (rev (bb_succ F cur) @ work, cur # visited))"
  by pat_completeness auto
termination
  by (relation "inv_image (less_than <*lex*> less_than)
        (\<lambda>(F, bb, work, visited). (unseen (length (ll_blocks F)) visited, length work))")
    (auto simp: unseen_Cons)

definition blockInCycle :: "llfun \<Rightarrow> nat \<Rightarrow> bool" where
  "blockInCycle F bb = cycle_loop F bb (rev (bb_succ F bb), [])"

definition sentinel_test :: "llfun \<Rightarrow> vid \<Rightarrow> vid \<Rightarrow> bool" where
  "sentinel_test F val U =
     (case dyn_ICmp (ll_val F U) of
        None \<Rightarrow> False
      | Some (p, a, b) \<Rightarrow>
          (p = ICMP_EQ \<or> p = ICMP_NE)
          \<and> isa_NullLike (ll_val F (if a = val then b else a))
          \<and> list_ex (\<lambda>U2. isa_Branch (ll_val F U2)) (ll_users F U))"

partial_function (option) feedsNullSentinelBranch :: "llfun \<Rightarrow> vid \<Rightarrow> bool option" where
  "feedsNullSentinelBranch F val =
     oany (\<lambda>U. if isa_BitCast (ll_val F U) then feedsNullSentinelBranch F U
                else Some (sentinel_test F val U)) (ll_users F val)"

declare feedsNullSentinelBranch.simps [code]

section \<open>The va\_list parameter\<close>

definition va_list_name :: "string \<Rightarrow> bool" where
  "va_list_name n \<longleftrightarrow> n = ''va_list'' \<or> n = ''__builtin_va_list'' \<or> n = ''__gnuc_va_list''"

partial_function (option) typedef_va_list :: "dwarf \<Rightarrow> di_ref \<Rightarrow> bool option" where
  "typedef_va_list g ty =
     (case ty of
        None \<Rightarrow> Some False
      | Some r \<Rightarrow>
          if di_class (g r) = DIDerivedType \<and> di_tag (g r) = DW_TAG_typedef then
            if va_list_name (di_name (g r)) then Some True
            else typedef_va_list g (di_baseType (g r))
          else Some False)"

declare typedef_va_list.simps [code]

fun va_list_index :: "dwarf \<Rightarrow> nat \<Rightarrow> di_ref list \<Rightarrow> int option" where
  "va_list_index g i [] = Some (-1)"
| "va_list_index g i (ty # tys) =
     do { b \<leftarrow> typedef_va_list g ty;
          if b then Some (int i - 1) else va_list_index g (Suc i) tys }"

definition findVaListParam :: "dwarf \<Rightarrow> di_subprogram option \<Rightarrow> int option" where
  "findVaListParam g sp =
     (case sp of
        None \<Rightarrow> Some (-1)
      | Some s \<Rightarrow>
          (case sp_types s of None \<Rightarrow> Some (-1) | Some types \<Rightarrow> va_list_index g 1 (drop 1 types)))"

definition findSpillAlloca :: "llfun \<Rightarrow> vid \<Rightarrow> vid option" where
  "findSpillAlloca F arg =
     (case filter (\<lambda>U. case dyn_Store (ll_val F U) of
                         Some (x, p) \<Rightarrow> x = arg \<and> isa_Alloca (ll_val F p)
                       | None \<Rightarrow> False) (ll_users F arg) of
        [] \<Rightarrow> None
      | U # _ \<Rightarrow> map_option snd (dyn_Store (ll_val F U)))"

section \<open>Classification\<close>

definition synthNodeFromType :: "ll_type \<Rightarrow> TreeNode" where
  "synthNodeFromType ty =
     (if isPointerTy ty then
        Node (default_attrs\<lparr> kind := NK_Pointer, typeName := ''<variadic ptr>'', sizeBytes := 4,
                pointeeOpaque := True \<rparr>) []
      else
        Node (default_attrs\<lparr> kind := NK_Scalar, typeName := ''<variadic scalar>'',
                sizeBytes := primSizeInBits ty div 8 \<rparr>) [])"

text \<open>\<^verbatim>\<open>provenDirectDereference\<close>: the width and the direction, if the pointer is dereferenced.\<close>

definition deref_user :: "llfun \<Rightarrow> vid \<Rightarrow> vid \<Rightarrow> bool \<times> bool \<times> nat \<Rightarrow> bool \<times> bool \<times> nat" where
  "deref_user F ptrVal U st =
     (let (rd, wr, width) = st in
      case dyn_Load (ll_val F U) of
        Some p \<Rightarrow> if p = ptrVal then (True, wr, max width (primSizeInBits (ll_ty F U) div 8)) else st
      | None \<Rightarrow>
          (case dyn_Store (ll_val F U) of
             Some (x, p) \<Rightarrow>
               if p = ptrVal then (rd, True, max width (primSizeInBits (ll_ty F x) div 8)) else st
           | None \<Rightarrow> st))"

definition provenDirectDereference :: "llfun \<Rightarrow> vid \<Rightarrow> (nat \<times> Dir) option" where
  "provenDirectDereference F ptrVal =
     (let (rd, wr, width) = fold (deref_user F ptrVal) (ll_users F ptrVal) (False, False, 0) in
      if \<not> rd \<and> \<not> wr then None
      else Some (if width \<noteq> 0 then width else 4,
                 if rd \<and> wr then Dir_InOut else if wr then Dir_Out else Dir_In))"

definition ptr_array_node :: TreeNode where
  "ptr_array_node =
     Node (default_attrs\<lparr> kind := NK_Pointer, typeName := ''<variadic ptr_array>'', sizeBytes := 4,
             dir := Dir_In, sizeKind := SK_PtrArray \<rparr>)
       [Node (default_attrs\<lparr> kind := NK_Pointer, typeName := ''<variadic ptr_array element>'',
                sizeBytes := 4, dir := Dir_In, sizeKind := SK_Cstr \<rparr>)
          [Node (default_attrs\<lparr> kind := NK_Scalar, typeName := ''char'', sizeBytes := 1 \<rparr>) []]]"

text \<open>The loop over the reads outside of cycles.\<close>

definition fixed_read :: "llfun \<Rightarrow> VarargRead \<Rightarrow> FunctionTrees \<Rightarrow> FunctionTrees" where
  "fixed_read F r ft =
     (let node = synthNodeFromType (read_type r) in
      if n_kind node = NK_Scalar then push_param node ft
      else case provenDirectDereference F (valueLoad r) of
        Some (width, d) \<Rightarrow>
          push_warning (''variadic: opaque pointer slot proven dereferenced in-body ('' @ to_string width @
              '' bytes) '' @ dash @ '' marshalled'')
            (push_param (upd_node (\<lambda>a. a\<lparr> dir := d, sizeKind := SK_Const, constSize := width \<rparr>) node) ft)
      | None \<Rightarrow>
          push_warning (''variadic: opaque pointer slot, meaning gated by an earlier value '' @
              ''with no proven in-body dereference '' @ dash @ '' force_local (B'' @ [CHR 0x27] @
              '', no unlock condition met)'')
            (push_param node ft))"

definition is_bookkeeping :: "llfun \<Rightarrow> vid \<Rightarrow> bool" where
  "is_bookkeeping F U =
     (case dyn_Intrinsic (ll_val F U) of Some i \<Rightarrow> isVaBookkeepingIntrinsic i | None \<Rightarrow> False)"

definition classify_loop :: "llfun \<Rightarrow> VarargRead list \<Rightarrow> FunctionTrees \<Rightarrow> FunctionTrees option" where
  "classify_loop F loopGroup ft =
     do { notSentinel \<leftarrow> oany (\<lambda>r. map_option Not (feedsNullSentinelBranch F (valueLoad r))) loopGroup;
          Some (if \<not> list_all (\<lambda>r. isPointerTy (read_type r)) loopGroup \<or> notSentinel then
                  force_local (''variadic: loop-shaped va_arg read is not a proven pointer sentinel loop '' @
                    dash @ '' force_local'') ft
                else
                  push_warning (''variadic: sentinel-terminated loop over pointer reads '' @ dash @
                    '' treated as a NULL-terminated array of C-string pointers (ptr_array)'')
                    (push_param ptr_array_node ft)) }"

definition classify_reads :: "llfun \<Rightarrow> VarargRead list \<Rightarrow> FunctionTrees \<Rightarrow> FunctionTrees option" where
  "classify_reads F reads ft =
     (let loopGroup = filter (\<lambda>r. blockInCycle F (ll_parent F (valueLoad r))) reads;
          fixedGroup = filter (\<lambda>r. \<not> blockInCycle F (ll_parent F (valueLoad r))) reads
      in if loopGroup \<noteq> [] then
           if fixedGroup \<noteq> [] then
             Some (force_local (''variadic: sentinel loop plus additional fixed reads (composed shape) '' @
               dash @ '' force_local'') ft)
           else classify_loop F loopGroup ft
         else Some (fold (fixed_read F) fixedGroup ft))"

definition classifyVarargRoot ::
  "llfun \<Rightarrow> vid \<Rightarrow> vid option \<Rightarrow> FunctionTrees \<Rightarrow> FunctionTrees option" where
  "classifyVarargRoot F rootForEscape rootForCollection ft0 =
     (let ft = ft0\<lparr> isVariadic := True \<rparr> in
      if hasVaCopyTouching F rootForEscape
          \<or> (case rootForCollection of Some r \<Rightarrow> hasVaCopyTouching F r | None \<Rightarrow> False) then
        Some (force_local (''variadic: va_copy present (independently-walked va_list) '' @ dash @
          '' force_local'') ft)
      else if cursorEscapesToCall F rootForEscape then
        Some (force_local (''variadic: va_list escapes to another call before being read; '' @
          ''type sequence not statically recoverable '' @ dash @ '' force_local'') ft)
      else case rootForCollection of
        None \<Rightarrow>
          Some (force_local (''variadic: va_list parameter with unrecognized usage pattern '' @ dash @
            '' force_local'') ft)
      | Some root \<Rightarrow>
          do { (sawCursor, reads) \<leftarrow> collectVarargReads F root;
               if \<not> sawCursor then
                 if list_all (is_bookkeeping F) (ll_users F root) then
                   Some (push_warning (''variadic: tail never read '' @ dash @
                     '' no marshalling needed'') ft)
                 else
                   Some (force_local (''variadic: va_arg walk shape not recognized '' @
                     ''(unmatched cursor usage) '' @ dash @ '' force_local'') ft)
               else classify_reads F reads ft })"

definition variadic_tail :: "llfun \<Rightarrow> FunctionTrees \<Rightarrow> FunctionTrees option" where
  "variadic_tail F ft =
     (if ll_isVarArg F then
        case findVaStartAlloca F of
          Some slot \<Rightarrow> classifyVarargRoot F slot (Some slot) ft
        | None \<Rightarrow>
            Some (push_warning (''variadic: no va_start found '' @ dash @
              '' tail never read, no marshalling needed'') (ft\<lparr> isVariadic := True \<rparr>))
      else Some ft)"

definition va_list_param :: "llfun \<Rightarrow> nat \<Rightarrow> FunctionTrees \<Rightarrow> FunctionTrees option" where
  "va_list_param F sretOffset ft =
     (if ll_subprogram F = None then Some ft
      else do { i \<leftarrow> findVaListParam (ll_dwarf F) (ll_subprogram F);
                if 0 \<le> i \<and> nat i + sretOffset < length (ll_args F) then
                  (let arg = arg_vid (ll_args F ! (nat i + sretOffset))
                   in classifyVarargRoot F arg (findSpillAlloca F arg) ft)
                else Some ft })"

definition inferVariadic :: "llfun \<Rightarrow> nat \<Rightarrow> FunctionTrees \<Rightarrow> FunctionTrees option" where
  "inferVariadic F sretOffset ft = variadic_tail F ft \<bind> va_list_param F sretOffset"

section \<open>The searches decide\<close>

interpretation cursor_walk: pop_search "ll_size F" "\<lambda>cur. filter (cursor_succ F cur) (ll_users F cur)"
  "\<lambda>cur. list_ex (escaping_call F cur) (ll_users F cur)" "cursor_loop F"
  for F
  by unfold_locales (auto simp: cursor_users_eq)

interpretation cycle_walk: pop_search "length (ll_blocks F)" "bb_succ F" "\<lambda>cur. cur = bb" "cycle_loop F bb"
  for F bb
  by unfold_locales auto

text \<open>The values a cursor flows into: loads through it and bit casts.\<close>

definition cursor_flows :: "llfun \<Rightarrow> vid \<Rightarrow> vid \<Rightarrow> bool" where
  "cursor_flows F v cur = visits (ll_size F) (\<lambda>cur. filter (cursor_succ F cur) (ll_users F cur)) v cur"

lemma cursorEscapes_eq:
  "v < ll_size F \<Longrightarrow> cursorEscapesToCall F v \<longleftrightarrow>
     (\<exists>cur. cursor_flows F v cur \<and> list_ex (escaping_call F cur) (ll_users F cur))"
  using cursor_walk.loop_start [of F "[v]"] by (simp add: cursorEscapesToCall_def cursor_flows_def)

text \<open>The edges of the control-flow graph.\<close>

definition cfg :: "llfun \<Rightarrow> (nat \<times> nat) set" where
  "cfg F = {(u, v). v \<in> set (bb_succ F u) \<and> v < length (ll_blocks F)}"

lemma visits_rtrancl: "visits N succs u x \<longleftrightarrow> (u, x) \<in> {(u, v). v \<in> set (succs u) \<and> v < N}\<^sup>*"
proof
  show "visits N succs u x \<Longrightarrow> (u, x) \<in> {(u, v). v \<in> set (succs u) \<and> v < N}\<^sup>*"
  proof (induction rule: visits.induct)
    case (onward y w)
    then show ?case by (intro rtrancl_into_rtrancl [OF onward.IH]) auto
  qed simp
  show "(u, x) \<in> {(u, v). v \<in> set (succs u) \<and> v < N}\<^sup>* \<Longrightarrow> visits N succs u x"
    by (induction rule: rtrancl_induct) (auto intro: visits.intros)
qed

text \<open>C33: The loop test of the variadic classifier is exact: it answers whether the block lies on a
  cycle of the control-flow graph.\<close>

theorem blockInCycle_correct: "blockInCycle F bb \<longleftrightarrow> (bb, bb) \<in> (cfg F)\<^sup>+"
proof -
  have "blockInCycle F bb \<longleftrightarrow> (\<exists>u. (bb, u) \<in> cfg F \<and> (u, bb) \<in> (cfg F)\<^sup>*)"
    using cycle_walk.loop_start [of F bb "bb_succ F bb"]
    by (auto simp: blockInCycle_def visits_rtrancl cfg_def)
  also have "\<dots> \<longleftrightarrow> (bb, bb) \<in> (cfg F)\<^sup>+" by (meson r_into_trancl trancl_rtrancl_trancl tranclD)
  finally show ?thesis .
qed

section \<open>The analysis returns\<close>

lemma ex_bool [simp]: "\<exists>b. b" "\<exists>b. \<not> b" "Ex Not"
  by (rule exI [of _ True], simp) (rule exI [of _ False], simp)+

definition bitcasts_wf :: "llfun \<Rightarrow> bool" where
  "bitcasts_wf F \<longleftrightarrow> wf {(U, v). U \<in> set (ll_users F v) \<and> isa_BitCast (ll_val F U)}"

lemma feedsNullSentinelBranch_total:
  assumes "bitcasts_wf F"
  shows "\<exists>b. feedsNullSentinelBranch F v = Some b"
  using assms [unfolded bitcasts_wf_def]
proof (induction v rule: wf_induct_rule)
  case (less v)
  let ?f = "\<lambda>U. if isa_BitCast (ll_val F U) then feedsNullSentinelBranch F U else Some (sentinel_test F v U)"
  have "\<exists>b. ?f U = Some b" if "U \<in> set (ll_users F v)" for U
    using less.IH [of U] that by (cases "isa_BitCast (ll_val F U)") auto
  then have "?f U = Some (the (?f U))" if "U \<in> set (ll_users F v)" for U
    using that by fastforce
  from oany_total [of "ll_users F v" ?f, OF this] show ?case
    by (subst feedsNullSentinelBranch.simps) blast
qed

lemma typedef_va_list_total:
  assumes "wrappers_wf g"
  shows "\<exists>b. typedef_va_list g ty = Some b"
proof (cases ty)
  case None
  then show ?thesis by (intro exI [of _ False]) (simp add: typedef_va_list.simps)
next
  case (Some r)
  have "\<exists>b. typedef_va_list g (Some r) = Some b"
    using assms [unfolded wrappers_wf_def]
  proof (induction r rule: wfp_induct_rule)
    case (less r)
    show ?case
    proof (cases "di_class (g r) = DIDerivedType \<and> di_tag (g r) = DW_TAG_typedef")
      case False
      then show ?thesis by (subst typedef_va_list.simps) auto
    next
      case True
      show ?thesis
      proof (cases "di_baseType (g r)")
        case None
        with True show ?thesis by (subst typedef_va_list.simps) (simp add: typedef_va_list.simps [of g None])
      next
        case (Some r')
        with True have "wrapper_step g r' r" by (simp add: wrapper_step_def is_wrapper_def)
        from less.IH [OF this] True Some show ?thesis by (subst typedef_va_list.simps) auto
      qed
    qed
  qed
  with Some show ?thesis by simp
qed

lemma va_list_index_total:
  assumes "wrappers_wf g"
  shows "\<exists>i. va_list_index g n tys = Some i"
proof (induction tys arbitrary: n)
  case (Cons ty tys)
  obtain b where "typedef_va_list g ty = Some b" using typedef_va_list_total [OF assms] by blast
  with Cons [of "Suc n"] show ?case by simp
qed simp

lemma findVaListParam_total: "wrappers_wf g \<Longrightarrow> \<exists>i. findVaListParam g sp = Some i"
  using va_list_index_total by (auto simp: findVaListParam_def split: option.split)

lemma cursorPhis_total: "\<exists>ps. cursorPhis F root is = Some ps"
proof (induction "is")
  case (Cons I "is")
  obtain s where "tracesToLoadOfSlot F (fuel F) I root [] = Some (loads_slot F root I, s)"
    using tracesToLoadOfSlot_decides by blast
  with Cons show ?case
    by (auto simp: isCursorCandidate_def simp del: tracesToLoadOfSlot.simps split: option.splits)
qed simp

lemma collectVarargReads_total: "\<exists>b rs. collectVarargReads F root = Some (b, rs)"
  using cursorPhis_total [of F root "all_insts F"] by (auto simp: collectVarargReads_def Let_def)

lemma classify_reads_total:
  assumes "bitcasts_wf F"
  shows "\<exists>ft'. classify_reads F reads ft = Some ft'"
proof -
  have "\<exists>b. oany (\<lambda>r. map_option Not (feedsNullSentinelBranch F (valueLoad r))) rs = Some b" for rs
  proof (induction rs)
    case (Cons r rs)
    with feedsNullSentinelBranch_total [OF assms, of "valueLoad r"] show ?case by auto
  qed simp
  then obtain b where "oany (\<lambda>r. map_option Not (feedsNullSentinelBranch F (valueLoad r)))
      (filter (\<lambda>r. blockInCycle F (ll_parent F (valueLoad r))) reads) = Some b" by blast
  then show ?thesis by (simp add: classify_reads_def classify_loop_def Let_def)
qed

lemma classifyVarargRoot_total:
  assumes "bitcasts_wf F"
  shows "\<exists>ft'. classifyVarargRoot F e c ft = Some ft'"
proof (cases c)
  case None
  then show ?thesis by (simp add: classifyVarargRoot_def Let_def)
next
  case (Some root)
  obtain b rs where "collectVarargReads F root = Some (b, rs)" using collectVarargReads_total by blast
  with Some classify_reads_total [OF assms] show ?thesis
    by (simp add: classifyVarargRoot_def Let_def)
qed

lemma inferVariadic_total:
  assumes "bitcasts_wf F" and "wrappers_wf (ll_dwarf F)"
  shows "\<exists>ft'. inferVariadic F off ft = Some ft'"
proof -
  obtain ft1 where 1: "variadic_tail F ft = Some ft1"
    using classifyVarargRoot_total [OF assms(1)] by (fastforce simp: variadic_tail_def split: option.split)
  obtain i where "findVaListParam (ll_dwarf F) (ll_subprogram F) = Some i"
    using findVaListParam_total [OF assms(2)] by blast
  then have "\<exists>ft2. va_list_param F off ft1 = Some ft2"
    using classifyVarargRoot_total [OF assms(1)] by (simp add: va_list_param_def Let_def)
  with 1 show ?thesis by (simp add: inferVariadic_def)
qed

section \<open>What the analysis may change\<close>

definition known_dir :: "Dir \<Rightarrow> bool" where
  "known_dir d \<longleftrightarrow> d = Dir_In \<or> d = Dir_Out \<or> d = Dir_InOut"

text \<open>The nodes it appends: a scalar, the array of strings of a sentinel loop, or a pointer without
  pointee that is either sized or left unsized, hence unmappable.\<close>

definition tail_node :: "TreeNode \<Rightarrow> bool" where
  "tail_node n \<longleftrightarrow> abiSlots (attrs n) = 1 \<and>
     (n = ptr_array_node
      \<or> n_kind n = NK_Scalar \<and> children n = [] \<and> sizeKind (attrs n) = SK_NA
      \<or> n_kind n = NK_Pointer \<and> children n = [] \<and> sizeKind (attrs n) = SK_Const \<and> known_dir (dir (attrs n))
      \<or> n_kind n = NK_Pointer \<and> children n = [] \<and> sizeKind (attrs n) = SK_NA \<and> treeHasUnmappable n)"

definition trees_frame :: "FunctionTrees \<Rightarrow> FunctionTrees" where
  "trees_frame ft = ft\<lparr> params := [], isVariadic := False, forceLocal := False, warnings := [] \<rparr>"

definition tail_extends :: "FunctionTrees \<Rightarrow> FunctionTrees \<Rightarrow> bool" where
  "tail_extends ft ft' \<longleftrightarrow>
     trees_frame ft' = trees_frame ft
     \<and> (\<exists>ns. params ft' = params ft @ ns \<and> list_all tail_node ns)
     \<and> (\<exists>ws. warnings ft' = warnings ft @ ws)
     \<and> (forceLocal ft \<longrightarrow> forceLocal ft')"

lemma tail_extends_refl [simp, intro]: "tail_extends ft ft"
  by (simp add: tail_extends_def)

lemma tail_extends_trans [trans]: "tail_extends a b \<Longrightarrow> tail_extends b c \<Longrightarrow> tail_extends a c"
  unfolding tail_extends_def by auto

lemma tail_extends_steps [intro]:
  "tail_extends ft (push_warning s ft)"
  "tail_extends ft (force_local s ft)"
  "tail_extends ft (ft\<lparr> isVariadic := True \<rparr>)"
  "tail_node n \<Longrightarrow> tail_extends ft (push_param n ft)"
  by (auto simp: tail_extends_def trees_frame_def push_warning_def force_local_def push_param_def)

lemma tail_node_synth:
  "tail_node (synthNodeFromType ty)"
  "known_dir d \<Longrightarrow>
     tail_node (upd_node (\<lambda>a. a\<lparr> dir := d, sizeKind := SK_Const, constSize := w \<rparr>) (synthNodeFromType ty))
     \<or> n_kind (synthNodeFromType ty) = NK_Scalar"
  "tail_node ptr_array_node"
  by (simp_all add: tail_node_def synthNodeFromType_def upd_node_def default_attrs_def sized_def
      ptr_array_node_def)

lemma proven_dir: "provenDirectDereference F v = Some (w, d) \<Longrightarrow> known_dir d"
  by (auto simp: provenDirectDereference_def known_dir_def split: prod.splits if_splits)

lemma fixed_read_extends: "tail_extends ft (fixed_read F r ft)"
proof (cases "n_kind (synthNodeFromType (read_type r)) = NK_Scalar")
  case True
  then show ?thesis by (auto simp: fixed_read_def Let_def intro: tail_node_synth)
next
  case False
  show ?thesis
  proof (cases "provenDirectDereference F (valueLoad r)")
    case None
    with False show ?thesis
      using tail_extends_trans [OF tail_extends_steps(4) [OF tail_node_synth(1)] tail_extends_steps(1)]
      by (simp add: fixed_read_def Let_def)
  next
    case (Some wd)
    obtain w d where wd: "wd = (w, d)" by (cases wd)
    have "tail_node (upd_node (\<lambda>a. a\<lparr> dir := d, sizeKind := SK_Const, constSize := w \<rparr>)
        (synthNodeFromType (read_type r)))"
      using False tail_node_synth(2) [of d] proven_dir Some wd by blast
    from tail_extends_trans [OF tail_extends_steps(4) [OF this] tail_extends_steps(1)] Some wd False
    show ?thesis by (simp add: fixed_read_def Let_def)
  qed
qed

lemma fixed_reads_extend: "tail_extends ft (fold (fixed_read F) rs ft)"
proof (induction rs arbitrary: ft)
  case (Cons r rs)
  from tail_extends_trans [OF fixed_read_extends Cons] show ?case by simp
qed simp

lemma classify_reads_extends: "classify_reads F reads ft = Some ft' \<Longrightarrow> tail_extends ft ft'"
  using tail_extends_trans [OF tail_extends_steps(4) [OF tail_node_synth(3)] tail_extends_steps(1)]
  by (auto simp: classify_reads_def classify_loop_def Let_def bind_eq_Some_conv fixed_reads_extend
      split: if_splits)

lemma classifyVarargRoot_extends:
  assumes "classifyVarargRoot F e c ft = Some ft'"
  shows "tail_extends ft ft'"
proof -
  let ?ft = "ft\<lparr> isVariadic := True \<rparr>"
  have "(\<exists>s. ft' = force_local s ?ft) \<or> (\<exists>s. ft' = push_warning s ?ft) \<or> (\<exists>rs. classify_reads F rs ?ft = Some ft')"
    using assms by (auto simp: classifyVarargRoot_def Let_def bind_eq_Some_conv split: if_splits option.splits)
  then have "tail_extends ?ft ft'" using classify_reads_extends by blast
  with tail_extends_steps(3) show ?thesis by (rule tail_extends_trans)
qed

lemma variadic_tail_extends: "variadic_tail F ft = Some ft' \<Longrightarrow> tail_extends ft ft'"
  using tail_extends_trans [OF tail_extends_steps(3) tail_extends_steps(1)]
  by (auto simp: variadic_tail_def dest: classifyVarargRoot_extends split: if_splits option.splits)

lemma va_list_param_extends: "va_list_param F off ft = Some ft' \<Longrightarrow> tail_extends ft ft'"
  by (auto simp: va_list_param_def Let_def bind_eq_Some_conv dest: classifyVarargRoot_extends
      split: if_splits option.splits)

lemma inferVariadic_extends: "inferVariadic F off ft = Some ft' \<Longrightarrow> tail_extends ft ft'"
  by (auto simp: inferVariadic_def bind_eq_Some_conv
      intro: tail_extends_trans dest: variadic_tail_extends va_list_param_extends)

text \<open>Analysing the variadic tail returns; it only appends parameters and warnings, never takes
  back a decision to run locally, and every parameter it appends is a plain scalar, an array
  of strings, a pointer of known size and direction or a pointer the final check refuses.\<close>

theorem inferVariadic_appends:
  assumes "bitcasts_wf F" and "wrappers_wf (ll_dwarf F)"
  shows "\<exists>ft'. inferVariadic F sretOffset ft = Some ft' \<and> tail_extends ft ft'"
  using inferVariadic_total [OF assms] inferVariadic_extends by blast

lemma root_refused:
  assumes "classifyVarargRoot F slot c ft = Some ft'"
    and "hasVaCopyTouching F slot \<or> cursorEscapesToCall F slot"
  shows "forceLocal ft'"
  using assms by (auto simp: classifyVarargRoot_def Let_def force_local_def push_warning_def split: if_splits)

text \<open>C34: A variadic function that copies its \<^verbatim>\<open>va_list\<close>, or lets it flow, through loads and bit casts,
  into a call, is always run locally.\<close>

theorem inferVariadic_escape:
  assumes "ll_isVarArg F" and "findVaStartAlloca F = Some slot" and "slot < ll_size F"
    and "hasVaCopyTouching F slot
      \<or> (\<exists>cur. cursor_flows F slot cur \<and> list_ex (escaping_call F cur) (ll_users F cur))"
    and "inferVariadic F sretOffset ft = Some ft'"
  shows "forceLocal ft'"
proof -
  obtain ft1 where 1: "variadic_tail F ft = Some ft1" and 2: "va_list_param F sretOffset ft1 = Some ft'"
    using assms(5) by (auto simp: inferVariadic_def bind_eq_Some_conv)
  from 1 assms(1,2) have "classifyVarargRoot F slot (Some slot) ft = Some ft1"
    by (simp add: variadic_tail_def)
  then have "forceLocal ft1"
    by (rule root_refused) (use assms(4) cursorEscapes_eq [OF assms(3)] in blast)
  with va_list_param_extends [OF 2] show ?thesis by (simp add: tail_extends_def)
qed

text \<open>A wrapper around \<^verbatim>\<open>vprintf\<close>: \<^verbatim>\<open>va_start\<close> on a stack slot, and the loaded list passed on.\<close>

definition forward_fun :: llfun where
  "forward_fun = (list_fun
     [(IAlloca, TyPtr), (ICall (Intrin IN_vastart ''llvm.va_start'') [0], TyVoid), (ILoad 0, TyPtr),
      (ICall (Direct ''vprintf'') [2], TyInt 32), (ICall (Intrin IN_vaend ''llvm.va_end'') [0], TyVoid)]
     [] (TyInt 32))\<lparr> ll_isVarArg := True \<rparr>"

lemma list_fun_upd_sel [simp]:
  "ll_val (F\<lparr> ll_isVarArg := b \<rparr>) = ll_val F"
  "ll_users (F\<lparr> ll_isVarArg := b \<rparr>) = ll_users F"
  by simp_all

lemma forward_fun_wf: "bitcasts_wf forward_fun" "wrappers_wf (ll_dwarf forward_fun)"
proof -
  have "\<not> isa_BitCast (ll_val forward_fun U)" for U
    by (simp add: forward_fun_def list_fun_def isa_BitCast_def nth_Cons')
  then show "bitcasts_wf forward_fun" by (simp add: bitcasts_wf_def)
  show "wrappers_wf (ll_dwarf forward_fun)"
    by (simp add: forward_fun_def list_fun_def list_dwarf_wf)
qed

theorem inferVariadic_appends_witness:
  "\<exists>ft'. inferVariadic forward_fun 0 default_trees = Some ft' \<and> tail_extends default_trees ft'"
  by (rule inferVariadic_appends [OF forward_fun_wf])

theorem inferVariadic_escape_witness:
  "\<exists>ft'. inferVariadic forward_fun 0 default_trees = Some ft' \<and> forceLocal ft'"
proof -
  obtain ft' where ft': "inferVariadic forward_fun 0 default_trees = Some ft'"
    using inferVariadic_total [OF forward_fun_wf] by blast
  have slot: "ll_isVarArg forward_fun" "findVaStartAlloca forward_fun = Some 0" "0 < ll_size forward_fun"
    by (simp add: forward_fun_def, code_simp, code_simp)
  have "2 \<in> set (filter (cursor_succ forward_fun 0) (ll_users forward_fun 0))" by code_simp
  then have "cursor_flows forward_fun 0 2"
    unfolding cursor_flows_def by (intro visits.onward [OF visits.start]) (simp_all, code_simp)
  moreover have "list_ex (escaping_call forward_fun 2) (ll_users forward_fun 2)" by code_simp
  ultimately have "forceLocal ft'"
    using inferVariadic_escape [OF slot _ ft'] by blast
  with ft' show ?thesis by blast
qed

end
