(* ===== verification/Infer.thy ===== *)
theory Infer
  imports Variadic
begin

text \<open>
  \<^verbatim>\<open>inferFunction\<close> (\<^verbatim>\<open>Infer.cpp\<close>): the WebAssembly ABI lowering of arguments and returns, the analysis
  of each parameter, the classification of the return value and the cap on raw argument slots.
  The state is the \<open>FunctionTrees\<close> of the function; a node under analysis is written back into its
  parameter slot at the end of its iteration.
\<close>

section \<open>ABI lowering\<close>

definition lowerFp128Arg :: "nat \<Rightarrow> FunctionTrees \<Rightarrow> FunctionTrees" where
  "lowerFp128Arg p ft =
     push_warning (''arg'' @ to_string p @ '': long double argument (fp128) '' @ dash @
         '' the wasm32 backend splits this into '' @
         ''2 raw i64 slots (low half, then high half); represented as 2 '' @
         ''plain-scalar args, no address translation needed'')
       (ft\<lparr> params := (params ft)[p := upd_node (\<lambda>a. a\<lparr> abiSlots := 2 \<rparr>) (params ft ! p)] \<rparr>)"

definition byval_wrapper :: "TreeNode \<Rightarrow> nat \<Rightarrow> TreeNode" where
  "byval_wrapper pointee byvalSize =
     Node (default_attrs\<lparr> kind := NK_Pointer, typeName := typeName (attrs pointee), sizeBytes := 4,
             dir := Dir_In, sizeKind := SK_Const, constSize := byvalSize \<rparr>) [pointee]"

definition lowerByvalArg :: "Annotations \<Rightarrow> llfun \<Rightarrow> nat \<Rightarrow> ll_arg \<Rightarrow> FunctionTrees \<Rightarrow> FunctionTrees" where
  "lowerByvalArg ann F p A ft =
     (let node = params ft ! p;
          byvalSize = (case arg_byvalTy A of Some bt \<Rightarrow> ll_allocSize F bt | None \<Rightarrow> sizeBytes (attrs node));
          (pointee, w) =
            (if isComposite node \<and> 0 < sizeBytes (attrs node) \<and> \<not> depthTruncated (attrs node)
             then snd (annotateComposite ann p node (warnings ft)) else (node, warnings ft))
      in push_warning (''arg'' @ to_string p @ '': byval-lowered aggregate (complex/large struct) '' @ dash @
             '' marshalled as a const-sized IN pointer, no copy-back'')
           (ft\<lparr> params := (params ft)[p := byval_wrapper pointee byvalSize], warnings := w \<rparr>))"

definition sret_node :: "nat \<Rightarrow> TreeNode" where
  "sret_node sretSize =
     Node (default_attrs\<lparr> kind := NK_Pointer, typeName := ''<sret>'', sizeBytes := 4, dir := Dir_Out,
             sizeKind := SK_Const, constSize := sretSize \<rparr>) []"

definition lowerAbiReturn :: "llfun \<Rightarrow> bool \<Rightarrow> FunctionTrees \<Rightarrow> FunctionTrees" where
  "lowerAbiReturn F trueSret ft =
     (let sretSize =
        (case (if trueSret then arg_sretTy (ll_args F ! 0) else None) of
           Some st \<Rightarrow> ll_allocSize F st
         | None \<Rightarrow> ll_allocSize F (ll_retTy F))
      in push_warning
           (if trueSret then
              ''return: sret-shaped (struct/complex-by-value) '' @ dash @ '' copied out via a '' @
              ''synthetic leading pointer argument, not a return value''
            else
              ''return: long double (fp128) is sret-lowered by the wasm32 '' @
              ''backend, invisible at this IR level '' @ dash @ '' copied out via a '' @
              ''synthetic leading pointer argument, not a return value'')
           (ft\<lparr> retSretArg := Some (sret_node sretSize) \<rparr>))"

definition kMaxRawArgSlots :: nat where
  "kMaxRawArgSlots = 6"

definition raw_slots :: "FunctionTrees \<Rightarrow> nat" where
  "raw_slots ft =
     (if retSretArg ft \<noteq> None then 1 else 0) + sum_list (map (\<lambda>p. max 1 (abiSlots (attrs p))) (params ft))"

definition enforceRawArgSlotCap :: "FunctionTrees \<Rightarrow> FunctionTrees" where
  "enforceRawArgSlotCap ft =
     (if raw_slots ft \<le> kMaxRawArgSlots then ft
      else force_local
        (''function needs '' @ to_string (raw_slots ft) @ '' raw ABI slots'' @
         (if retSretArg ft \<noteq> None then '' (including a synthetic sret/fp128-return pointer)'' else []) @
         '' but the interposition runtime'' @ [CHR 0x27] @ ''s transport is fixed at '' @
         to_string kMaxRawArgSlots @
         '' (LIND_RAW_ARGS_MAX) '' @ dash @ '' force_local (a wider spec would abort the '' @
         ''whole grate process on the first real call, not just fail this one)'') ft)"

section \<open>The size of a buffer\<close>

text \<open>The loop over the lengths the access analysis paired with the pointer: the argument that holds
  the size, and whether it holds a pointer to it.\<close>

fun pairedLength :: "llfun \<Rightarrow> nat \<Rightarrow> vid list \<Rightarrow> (int \<times> bool) option" where
  "pairedLength F sretOffset [] = Some (-1, False)"
| "pairedLength F sretOffset (lv # lvs) =
     do { s \<leftarrow> stripIntCasts F lv;
          if 0 \<le> dwarfIndexOf F s sretOffset then Some (dwarfIndexOf F s sretOffset, False)
          else case dyn_Load (ll_val F s) of
            Some q \<Rightarrow>
              (if 0 \<le> dwarfIndexOf F (ll_strip F q) sretOffset
               then Some (dwarfIndexOf F (ll_strip F q) sretOffset, True)
               else pairedLength F sretOffset lvs)
          | None \<Rightarrow> pairedLength F sretOffset lvs }"

record size_pick =
  sizeArg :: int
  fromPointee :: bool
  sizeHeuristic :: bool

definition isCharPointee :: "TreeNode list \<Rightarrow> bool" where
  "isCharPointee cs =
     (case cs of [] \<Rightarrow> False | pe # _ \<Rightarrow> n_kind pe = NK_Scalar \<and> sizeBytes (attrs pe) = 1)"

definition isOpaquePointee :: "TreeNode \<Rightarrow> bool" where
  "isOpaquePointee node \<longleftrightarrow> pointeeOpaque (attrs node) \<or> children node = []"

text \<open>The \<^verbatim>\<open>(buf, *lenptr)\<close> idiom.\<close>

definition lenptrFollows :: "TreeNode list \<Rightarrow> nat \<Rightarrow> bool" where
  "lenptrFollows ps p \<longleftrightarrow>
     Suc p < length ps \<and> n_kind (ps ! Suc p) = NK_Pointer \<and>
     (case children (ps ! Suc p) of
        [] \<Rightarrow> False
      | lenPointee # _ \<Rightarrow> n_kind lenPointee = NK_Scalar \<and> 2 \<le> sizeyRank (typeName (attrs lenPointee)))"

text \<open>\<^verbatim>\<open>bestSizey\<close>: the loop over all parameters, with the best index and its rank so far.\<close>

definition sizey_step :: "nat \<Rightarrow> TreeNode \<Rightarrow> nat \<Rightarrow> bool \<Rightarrow> nat \<Rightarrow> int \<times> nat \<Rightarrow> int \<times> nat" where
  "sizey_step q n p after minR best =
     (if q = p \<or> n_kind n \<noteq> NK_Scalar then best
      else if (if after then q < p else p < q) then best
      else let rk = sizeyRank (typeName (attrs n)) in
        if minR \<le> rk \<and> snd best < rk then (int q, rk) else best)"

fun bestSizeyFrom :: "nat \<Rightarrow> TreeNode list \<Rightarrow> nat \<Rightarrow> bool \<Rightarrow> nat \<Rightarrow> int \<times> nat \<Rightarrow> int" where
  "bestSizeyFrom q [] p after minR best = fst best"
| "bestSizeyFrom q (n # ns) p after minR best =
     bestSizeyFrom (Suc q) ns p after minR (sizey_step q n p after minR best)"

definition bestSizey :: "TreeNode list \<Rightarrow> nat \<Rightarrow> bool \<Rightarrow> nat \<Rightarrow> int" where
  "bestSizey ps p after minR = bestSizeyFrom 0 ps p after minR (-1, 0)"

definition heuristicSize :: "TreeNode list \<Rightarrow> nat \<Rightarrow> bool \<Rightarrow> int" where
  "heuristicSize ps p charPointee =
     (let b1 = bestSizey ps p True 2;
          b2 = (if b1 < 0 then bestSizey ps p False 2 else b1);
          b3 = (if b2 < 0 \<and> \<not> charPointee then bestSizey ps p True 1 else b2)
      in if b3 < 0 \<and> \<not> charPointee then bestSizey ps p False 1 else b3)"

definition pickSize :: "TreeNode list \<Rightarrow> nat \<Rightarrow> int \<times> bool \<Rightarrow> size_pick" where
  "pickSize ps p paired =
     (let node = ps ! p; charPointee = isCharPointee (children node) in
      if 0 \<le> fst paired then \<lparr> sizeArg = fst paired, fromPointee = snd paired, sizeHeuristic = False \<rparr>
      else if (charPointee \<or> isOpaquePointee node) \<and> lenptrFollows ps p then
        \<lparr> sizeArg = int (Suc p), fromPointee = True, sizeHeuristic = True \<rparr>
      else let best = heuristicSize ps p charPointee in
        if 0 \<le> best then \<lparr> sizeArg = best, fromPointee = snd paired, sizeHeuristic = True \<rparr>
        else \<lparr> sizeArg = fst paired, fromPointee = snd paired, sizeHeuristic = False \<rparr>)"

section \<open>One parameter\<close>

definition arg_warning :: "nat \<Rightarrow> string \<Rightarrow> FunctionTrees \<Rightarrow> FunctionTrees" where
  "arg_warning p s = push_warning (''arg'' @ to_string p @ s)"

definition size_kind_of :: "size_pick \<Rightarrow> SizeKind" where
  "size_kind_of pk = (if fromPointee pk then SK_FromArgPointee else SK_FromArg)"

definition sized_by :: "size_pick \<Rightarrow> TreeNode \<Rightarrow> TreeNode" where
  "sized_by pk = upd_node (\<lambda>a. a\<lparr> sizeKind := size_kind_of pk, sizeArgIndex := sizeArg pk \<rparr>)"

definition sized_const :: "nat \<Rightarrow> TreeNode \<Rightarrow> TreeNode" where
  "sized_const n = upd_node (\<lambda>a. a\<lparr> sizeKind := SK_Const, constSize := n \<rparr>)"

text \<open>A \<^verbatim>\<open>void *\<close>: a sized buffer, or a handle.\<close>

definition sizeOpaque :: "nat \<Rightarrow> size_pick \<Rightarrow> TreeNode \<Rightarrow> FunctionTrees \<Rightarrow> TreeNode \<times> FunctionTrees" where
  "sizeOpaque p pk node ft =
     (if 0 \<le> sizeArg pk then
        (sized_by pk node,
         if sizeHeuristic pk then
           arg_warning p ((if fromPointee pk then '': void* size taken from *arg''
                           else '': void* size paired to arg'') @
             to_string_int (sizeArg pk) @ '' heuristically'') ft
         else ft)
      else
        (upd_node (\<lambda>a. a\<lparr> isHandle := True, handleClass := ''void'', sizeKind := SK_Unknown,
            note_text := ''opaque void* with no length '' @ dash @ '' handle candidate'' \<rparr>) node,
         arg_warning p '': opaque void* treated as handle (verify; could be an unsized buffer)'' ft))"

text \<open>A pointer to a record: a handle, a deep copy, or a refusal. \<open>pointee\<close> is the first child.\<close>

definition sizeComposite ::
  "Annotations \<Rightarrow> nat \<Rightarrow> TreeNode \<Rightarrow> TreeNode \<Rightarrow> FunctionTrees \<Rightarrow> TreeNode \<times> FunctionTrees" where
  "sizeComposite ann p node pointee ft =
     (let refuse = force_local (''arg'' @ to_string p @ '': struct '' @ [CHR 0x27] @ typeName (attrs pointee) @
            [CHR 0x27] @ '' not fully resolvable '' @ dash @ '' force_local'')
      in if isKnownOpaqueStruct ann (Some pointee) then
           (upd_node (\<lambda>a. a\<lparr> isHandle := True,
              handleClass := canonicalHandleClass ann (typeName (attrs pointee)) \<rparr>) node, ft)
         else if 0 < sizeBytes (attrs pointee) \<and> \<not> depthTruncated (attrs pointee) then
           (let (r, pointee', w) = annotateComposite ann p pointee (warnings ft);
                node' = set_children (pointee' # tl (children node)) node;
                ft' = ft\<lparr> warnings := w \<rparr>
            in if r then (sized_const (sizeBytes (attrs pointee)) node', ft') else (node', refuse ft'))
         else (node, refuse ft))"

definition upd_pointee :: "(TreeNode \<Rightarrow> TreeNode) \<Rightarrow> TreeNode \<Rightarrow> TreeNode" where
  "upd_pointee f node = set_children (f (hd (children node)) # tl (children node)) node"

definition set_dir :: "Dir \<Rightarrow> TreeNode \<Rightarrow> TreeNode" where
  "set_dir d = upd_node (\<lambda>a. a\<lparr> dir := d \<rparr>)"

definition cstr_node :: "Dir \<Rightarrow> TreeNode \<Rightarrow> TreeNode" where
  "cstr_node d = upd_node (\<lambda>a. a\<lparr> dir := d, sizeKind := SK_Cstr \<rparr>)"

text \<open>\<^verbatim>\<open>argv\<close> and \<^verbatim>\<open>envp\<close>.\<close>

definition sizePtrArray :: "nat \<Rightarrow> TreeNode \<Rightarrow> FunctionTrees \<Rightarrow> TreeNode \<times> FunctionTrees" where
  "sizePtrArray p node ft =
     (upd_pointee (cstr_node Dir_In)
        (upd_node (\<lambda>a. a\<lparr> dir := Dir_In, sizeKind := SK_PtrArray \<rparr>) node),
      arg_warning p '': NULL-terminated array of C-string pointers (argv/envp)'' ft)"

definition word_size :: "TreeNode \<Rightarrow> nat" where
  "word_size pointee = (if sizeBytes (attrs pointee) \<noteq> 0 then sizeBytes (attrs pointee) else 4)"

definition readOnlyNested :: "bool \<Rightarrow> TreeNode \<Rightarrow> bool" where
  "readOnlyNested readOnly pointee \<longleftrightarrow>
     pointeeConst (attrs pointee) \<and> readOnly \<and> children pointee \<noteq> [] \<and>
     isComposite (hd (children pointee)) \<and> \<not> treeHasUnmappable (hd (children pointee))"

text \<open>A pointer to a pointer, given what the detectors found: the argument the inner pointer is
  written from, and whether it walks its own buffer.\<close>

definition ptrPtrNode ::
  "nat \<Rightarrow> int \<Rightarrow> bool \<Rightarrow> bool \<Rightarrow> bool \<Rightarrow> TreeNode \<Rightarrow> TreeNode \<Rightarrow> FunctionTrees \<Rightarrow> int \<Rightarrow>
     TreeNode \<times> FunctionTrees \<times> int" where
  "ptrPtrNode p into byTable isCursor readOnly node pointee ft cursorArg =
     (if 0 \<le> into \<and> isCursor then
        (node,
         force_local (''arg'' @ to_string p @ '': stateful cursor (*p sourced from arg'' @ to_string_int into @
           '' or *p across calls) '' @ dash @ '' force_local'') ft, cursorArg)
      else if 0 \<le> into then
        (upd_pointee (upd_node (\<lambda>a. a\<lparr> ptrIntoArg := True, intoArgIndex := into \<rparr>))
           (set_dir Dir_Out (sized_const (word_size pointee) node)),
         arg_warning p ('': *p translated as offset into arg'' @ to_string_int into @
           (if byTable then '' (parse-family fallback)'' else '' (out-ptr-into-arg)'')) ft, cursorArg)
      else if isCursor then
        (upd_pointee
           (\<lambda>inner. cstr_node (if pointeeConst (attrs inner) then Dir_In else Dir_InOut)
              (upd_node (\<lambda>a. a\<lparr> cursor := True \<rparr>) inner))
           (set_dir Dir_InOut (sized_const (word_size pointee) node)),
         arg_warning p ('': cursor '' @ dash @ '' *p walks its own deep-copied buffer'') ft, int p)
      else if readOnlyNested readOnly pointee then
        (upd_pointee
           (\<lambda>inner. set_dir Dir_In (sized_const (sizeBytes (attrs (hd (children inner)))) inner))
           (set_dir Dir_In (sized_const (word_size pointee) node)),
         arg_warning p ('': const ** read-only '' @ dash @ '' deep-copied as a single element '' @
           ''(comparator-style); verify it is not a NULL-terminated array'') ft, cursorArg)
      else
        (node,
         force_local (''arg'' @ to_string p @ '': pointer-to-pointer (inner pointer untranslatable) '' @ dash @
           '' force_local'') ft, cursorArg))"

definition sizePtrPtr ::
  "llfun \<Rightarrow> nat \<Rightarrow> vid \<Rightarrow> nat \<Rightarrow> TreeNode \<Rightarrow> TreeNode \<Rightarrow> FunctionTrees \<Rightarrow> int \<Rightarrow>
     (TreeNode \<times> FunctionTrees \<times> int) option" where
  "sizePtrPtr F sretOffset A p node pointee ft cursorArg =
     do { into0 \<leftarrow> detectOutPtrIntoArg F A sretOffset;
          let byTable = (into0 < 0 \<and> isParseEndptrFn (funcName ft) \<and> p = 1);
          isCursor \<leftarrow> detectCursor F A;
          Some (ptrPtrNode p (if byTable then 0 else into0) byTable isCursor (slotIsReadOnly F A)
                  node pointee ft cursorArg) }"

text \<open>A pointer to a scalar or an array.\<close>

definition sizeScalar ::
  "nat \<Rightarrow> size_pick \<Rightarrow> Access \<Rightarrow> TreeNode \<Rightarrow> TreeNode \<Rightarrow> FunctionTrees \<Rightarrow> TreeNode \<times> FunctionTrees" where
  "sizeScalar p pk acc node pointee ft =
     (let elem = (if sizeBytes (attrs pointee) \<noteq> 0 then sizeBytes (attrs pointee) else 1);
          charLike = (elem = 1)
      in if 0 \<le> sizeArg pk \<and> \<not> sizeHeuristic pk then (sized_by pk node, ft)
         else if charLike \<and> (acc_stringOp acc \<or> sizeArg pk < 0) then
           (upd_node (\<lambda>a. a\<lparr> sizeKind := SK_Cstr \<rparr>) node,
            if acc_stringOp acc then ft
            else arg_warning p ('': char* assumed NUL-terminated (CSTR) '' @ dash @ '' verify'') ft)
         else if charLike \<and> 0 \<le> sizeArg pk then
           (sized_by pk node,
            arg_warning p ((if fromPointee pk then '': byte buffer size taken from *arg''
                            else '': byte buffer size paired to arg'') @
              to_string_int (sizeArg pk) @ '' heuristically'') ft)
         else (sized_const elem node, ft))"

section \<open>The end of an iteration\<close>

definition constDirection :: "TreeNode \<Rightarrow> TreeNode" where
  "constDirection node =
     (if pointeeConst (attrs node) \<and> \<not> isHandle (attrs node) then set_dir Dir_In node else node)"

definition defaultDirection :: "nat \<Rightarrow> TreeNode \<Rightarrow> FunctionTrees \<Rightarrow> TreeNode \<times> FunctionTrees" where
  "defaultDirection p node ft =
     (if dir (attrs node) = Dir_Unknown \<and> \<not> isHandle (attrs node) then
        if sizeKind (attrs node) = SK_Cstr then (set_dir Dir_In node, ft)
        else if sizeKind (attrs node) \<noteq> SK_Unknown \<and> sizeKind (attrs node) \<noteq> SK_NA then
          (set_dir Dir_InOut node,
           arg_warning p ('': direction unobserved (escapes to callee?) '' @ dash @ '' defaulted to INOUT'') ft)
        else (node, arg_warning p '': pointer direction undetermined'' ft)
      else (node, ft))"

definition unsizedLocal :: "TreeNode \<Rightarrow> FunctionTrees \<Rightarrow> FunctionTrees" where
  "unsizedLocal node ft =
     (if \<not> isHandle (attrs node) \<and> \<not> sized (sizeKind (attrs node)) then ft\<lparr> forceLocal := True \<rparr> else ft)"

definition finishParam :: "nat \<Rightarrow> TreeNode \<Rightarrow> FunctionTrees \<Rightarrow> FunctionTrees" where
  "finishParam p node ft =
     (let (node', ft') = defaultDirection p (constDirection node) ft
      in (unsizedLocal node' ft')\<lparr> params := (params ft)[p := node'] \<rparr>)"

section \<open>The loop over the parameters\<close>

definition inferPointerParam ::
  "Annotations \<Rightarrow> llfun \<Rightarrow> nat \<Rightarrow> nat \<Rightarrow> ll_arg \<Rightarrow> FunctionTrees \<times> int \<Rightarrow> (FunctionTrees \<times> int) option" where
  "inferPointerParam ann F sretOffset p A st =
     (let (ft, cursorArg) = st;
          acc = analyzeAccess F (arg_vid A);
          node = set_dir (directionFrom A acc) (params ft ! p);
          pointee = hd (children node)
      in do { paired \<leftarrow> pairedLength F sretOffset (acc_lengths acc);
              let pk = pickSize (params ft) p paired;
              (node', ft', cursorArg') \<leftarrow>
                (if isOpaquePointee node then
                   (let (n, f) = sizeOpaque p pk node ft in Some (n, f, cursorArg))
                 else if isComposite pointee then
                   (let (n, f) = sizeComposite ann p node pointee ft in Some (n, f, cursorArg))
                 else if n_kind pointee = NK_Unknown then
                   Some (node, force_local (''arg'' @ to_string p @ '': pointer to function/unresolved type '' @
                     dash @ '' force_local'') ft, cursorArg)
                 else if n_kind pointee = NK_Pointer \<and> isPtrArrayArg ann (funcName ft) p then
                   (let (n, f) = sizePtrArray p node ft in Some (n, f, cursorArg))
                 else if n_kind pointee = NK_Pointer then
                   sizePtrPtr F sretOffset (arg_vid A) p node pointee ft cursorArg
                 else
                   (let (n, f) = sizeScalar p pk acc node pointee ft in Some (n, f, cursorArg)));
              Some (finishParam p node' ft', cursorArg') })"

definition inferParam ::
  "Annotations \<Rightarrow> llfun \<Rightarrow> nat \<Rightarrow> nat \<Rightarrow> FunctionTrees \<times> int \<Rightarrow> (FunctionTrees \<times> int) option" where
  "inferParam ann F sretOffset p st =
     (let (ft, cursorArg) = st; node = params ft ! p; irNo = p + sretOffset in
      if irNo < length (ll_args F) \<and> isFP128Ty (ll_ty F (arg_vid (ll_args F ! irNo))) then
        Some (lowerFp128Arg p ft, cursorArg)
      else if n_kind node \<noteq> NK_Pointer \<and> irNo < length (ll_args F) \<and> arg_byval (ll_args F ! irNo) then
        Some (lowerByvalArg ann F p (ll_args F ! irNo) ft, cursorArg)
      else if n_kind node \<noteq> NK_Pointer then Some (ft, cursorArg)
      else if \<not> irNo < length (ll_args F) then Some (ft, cursorArg)
      else inferPointerParam ann F sretOffset p (ll_args F ! irNo) (ft, cursorArg))"

fun inferParams ::
  "Annotations \<Rightarrow> llfun \<Rightarrow> nat \<Rightarrow> nat list \<Rightarrow> FunctionTrees \<times> int \<Rightarrow> (FunctionTrees \<times> int) option" where
  "inferParams ann F sretOffset [] st = Some st"
| "inferParams ann F sretOffset (p # ps) st =
     inferParam ann F sretOffset p st \<bind> inferParams ann F sretOffset ps"

definition unmappableNet :: "FunctionTrees \<Rightarrow> FunctionTrees" where
  "unmappableNet ft =
     (if list_ex treeHasUnmappable (params ft) then
        force_local (''non-mappable component (by-value struct / nested pointer) '' @ dash @ '' force_local'') ft
      else ft)"

section \<open>The return value\<close>

text \<open>The loop over the return instructions: the argument found last, and the offset flag.\<close>

fun aliasLoop :: "llfun \<Rightarrow> nat \<Rightarrow> vid list \<Rightarrow> int \<times> bool \<Rightarrow> (int \<times> bool) option" where
  "aliasLoop F sretOffset [] st = Some st"
| "aliasLoop F sretOffset (rv # rvs) (aliasArg, hadOffset) =
     do { (idx, h, _) \<leftarrow> traceReturnPtr F (fuel F) rv sretOffset hadOffset [];
          aliasLoop F sretOffset rvs (if 0 \<le> idx then idx else aliasArg, h) }"

definition retPointee :: "FunctionTrees \<Rightarrow> TreeNode option" where
  "retPointee ft =
     (case ret ft of
        None \<Rightarrow> None
      | Some r \<Rightarrow> (case children r of [] \<Rightarrow> None | c # _ \<Rightarrow> Some c))"

definition staticReturn :: "bool \<Rightarrow> FunctionTrees \<Rightarrow> FunctionTrees" where
  "staticReturn fromGlobal ft =
     (case (if fromGlobal then retPointee ft else None) of
        Some pe \<Rightarrow>
          if n_kind pe = NK_Scalar \<and> sizeBytes (attrs pe) = 1 then
            push_warning (''return: pointer into a static/global buffer '' @ dash @
                '' copy-out (cstr); valid until next call'')
              (ft\<lparr> retKind := RK_PtrToStatic, retStaticSize := 0 \<rparr>)
          else if (isComposite pe \<or> n_kind pe = NK_Scalar \<or> n_kind pe = NK_Array)
              \<and> sizeBytes (attrs pe) \<noteq> 0 \<and> \<not> treeHasUnmappable pe then
            push_warning (''return: pointer into a static/global buffer '' @ dash @ '' copy-out ('' @
                to_string (sizeBytes (attrs pe)) @ '' bytes); valid until next call'')
              (ft\<lparr> retKind := RK_PtrToStatic, retStaticSize := sizeBytes (attrs pe) \<rparr>)
          else force_local (''return: pointer of undetermined provenance '' @ dash @ '' force_local'') ft
      | None \<Rightarrow> force_local (''return: pointer of undetermined provenance '' @ dash @ '' force_local'') ft)"

definition inferPtrReturn ::
  "Annotations \<Rightarrow> llfun \<Rightarrow> nat \<Rightarrow> FunctionTrees \<Rightarrow> FunctionTrees option" where
  "inferPtrReturn ann F sretOffset ft =
     (let ai = allocatorInfo ann (funcName ft) in
      if ai_forceLocal ai then
        Some (force_local (''return: realloc-style allocation '' @ dash @ '' force_local'') ft)
      else if ai_isAlloc ai then
        Some (ft\<lparr> retKind := RK_PtrAlloc, retAllocSizeArgs := retAllocSizeArgs ft @ ai_sizeArgs ai \<rparr>)
      else if isKnownOpaqueStruct ann (retPointee ft) then
        Some (ft\<lparr> retKind := RK_Handle,
                  retHandleClass := canonicalHandleClass ann (typeName (attrs (the (retPointee ft)))) \<rparr>)
      else do {
        (aliasArg, hadOffset) \<leftarrow> aliasLoop F sretOffset (return_values F) (-1, False);
        if 0 \<le> aliasArg then
          Some (ft\<lparr> retKind := (if hadOffset then RK_PtrIntoArg else RK_PtrAliasArg), retAliasArg := aliasArg \<rparr>)
        else if 0 \<le> searcherReturnsIntoArg0 ann (funcName ft) then
          Some (ft\<lparr> retKind := RK_PtrIntoArg, retAliasArg := searcherReturnsIntoArg0 ann (funcName ft) \<rparr>)
        else map_option (\<lambda>g. staticReturn g ft) (returnDerivesFromGlobal F) })"

definition inferReturn ::
  "Annotations \<Rightarrow> llfun \<Rightarrow> nat \<Rightarrow> int \<Rightarrow> FunctionTrees \<Rightarrow> FunctionTrees option" where
  "inferReturn ann F sretOffset cursorArg ft0 =
     (let rt = ll_retTy F; trueSret = (sretOffset = 1); fp128Ret = isFP128Ty rt;
          ft = (if trueSret \<or> fp128Ret then lowerAbiReturn F trueSret ft0 else ft0)
      in if fp128Ret \<or> isVoidTy rt then Some (ft\<lparr> retKind := RK_Void \<rparr>)
         else if \<not> isPointerTy rt then Some (ft\<lparr> retKind := RK_Scalar \<rparr>)
         else do {
           fromCursor \<leftarrow>
             (if 0 \<le> cursorArg
              then retDerivesFromCursor F (arg_vid (ll_args F ! (nat cursorArg + sretOffset)))
              else Some False);
           if fromCursor then Some (ft\<lparr> retKind := RK_PtrIntoCursor, retAliasArg := cursorArg \<rparr>)
           else inferPtrReturn ann F sretOffset ft })"

section \<open>The whole function\<close>

definition sret_offset :: "llfun \<Rightarrow> nat" where
  "sret_offset F = (if ll_args F \<noteq> [] \<and> arg_sret (ll_args F ! 0) then 1 else 0)"

definition inferFunction :: "Annotations \<Rightarrow> llfun \<Rightarrow> FunctionTrees \<Rightarrow> FunctionTrees option" where
  "inferFunction ann F ft0 =
     do { ft1 \<leftarrow> inferVariadic F (sret_offset F) ft0;
          (ft2, cursorArg) \<leftarrow> inferParams ann F (sret_offset F) [0..<length (params ft1)] (ft1, -1);
          ft3 \<leftarrow> inferReturn ann F (sret_offset F) cursorArg (unmappableNet ft2);
          Some (enforceRawArgSlotCap ft3) }"

section \<open>The analysis returns\<close>

text \<open>What the analysis relies on in its input: no cycles of integer casts, of bit casts or of type
  qualifiers, and integer types for the results of \<^verbatim>\<open>ptrtoint\<close>.\<close>

definition analysable :: "llfun \<Rightarrow> bool" where
  "analysable F \<longleftrightarrow> casts_wf F \<and> ptrtoint_scalar F \<and> bitcasts_wf F \<and> wrappers_wf (ll_dwarf F)"

lemma pairedLength_total: "casts_wf F \<Longrightarrow> \<exists>r. pairedLength F off lvs = Some r"
proof (induction lvs)
  case (Cons lv lvs)
  obtain s where "stripIntCasts F lv = Some s" using stripIntCasts_total [OF Cons.prems] by blast
  with Cons show ?case by (auto split: option.split)
qed simp

lemma sizePtrPtr_total:
  assumes "analysable F"
  shows "sizePtrPtr F off A p node pointee ft c \<noteq> None"
proof -
  obtain q where "detectOutPtrIntoArg F A off = Some q"
    using detectOutPtrIntoArg_sound [of F A off] assms by (auto simp: analysable_def)
  then show ?thesis by (simp add: sizePtrPtr_def Let_def detectCursor_decides)
qed

lemma inferPointerParam_total:
  assumes "analysable F"
  shows "inferPointerParam ann F off p A st \<noteq> None"
proof -
  obtain paired where "pairedLength F off (acc_lengths (analyzeAccess F (arg_vid A))) = Some paired"
    using pairedLength_total [of F off "acc_lengths (analyzeAccess F (arg_vid A))"] assms
    unfolding analysable_def by blast
  with sizePtrPtr_total [OF assms] show ?thesis
    by (simp add: inferPointerParam_def Let_def case_prod_unfold bind_eq_None_conv del: not_None_eq)
qed

lemma inferParam_total: "analysable F \<Longrightarrow> inferParam ann F off p st \<noteq> None"
  using inferPointerParam_total by (simp add: inferParam_def Let_def case_prod_unfold del: not_None_eq)

lemma inferParams_total: "analysable F \<Longrightarrow> inferParams ann F off ps st \<noteq> None"
proof (induction ps arbitrary: st)
  case (Cons p ps)
  obtain st' where "inferParam ann F off p st = Some st'" using inferParam_total [OF Cons.prems] by blast
  with Cons show ?case by simp
qed simp

lemma aliasLoop_total: "casts_wf F \<Longrightarrow> aliasLoop F off rvs st \<noteq> None"
proof (induction rvs arbitrary: st)
  case (Cons rv rvs)
  obtain i h s where "traceReturnPtr F (fuel F) rv off (snd st) [] = Some (i, h, s)"
    using traceReturnPtr_total [OF Cons.prems] by blast
  with Cons show ?case by (cases st) (simp del: traceReturnPtr.simps not_None_eq)
qed simp

lemma inferPtrReturn_total:
  assumes "analysable F"
  shows "inferPtrReturn ann F off ft \<noteq> None"
proof -
  obtain al where "aliasLoop F off (return_values F) (-1, False) = Some al"
    using aliasLoop_total [of F off "return_values F" "(-1, False)"] assms
    unfolding analysable_def by blast
  then show ?thesis
    by (simp add: inferPtrReturn_def Let_def returnDerivesFromGlobal_decides case_prod_unfold
        del: not_None_eq)
qed

lemma inferReturn_total: "analysable F \<Longrightarrow> inferReturn ann F off c ft \<noteq> None"
  using inferPtrReturn_total
  by (simp add: inferReturn_def Let_def retDerivesFromCursor_decides del: not_None_eq)

lemma inferFunction_total:
  assumes "analysable F"
  shows "\<exists>ft'. inferFunction ann F ft = Some ft'"
proof -
  obtain ft1 where 1: "inferVariadic F (sret_offset F) ft = Some ft1"
    using inferVariadic_total [of F "sret_offset F" ft] assms unfolding analysable_def by blast
  obtain ft2 c where 2: "inferParams ann F (sret_offset F) [0..<length (params ft1)] (ft1, -1) = Some (ft2, c)"
    using inferParams_total [OF assms] by fast
  obtain ft3 where "inferReturn ann F (sret_offset F) c (unmappableNet ft2) = Some ft3"
    using inferReturn_total [OF assms] by blast
  with 1 2 show ?thesis by (simp add: inferFunction_def)
qed

section \<open>What one iteration changes\<close>

text \<open>The fields the loop over the parameters leaves alone.\<close>

definition param_frame :: "FunctionTrees \<Rightarrow> FunctionTrees" where
  "param_frame ft = ft\<lparr> params := [], forceLocal := False, warnings := [] \<rparr>"

definition refines :: "FunctionTrees \<Rightarrow> FunctionTrees \<Rightarrow> bool" where
  "refines ft ft' \<longleftrightarrow>
     param_frame ft' = param_frame ft \<and> length (params ft') = length (params ft)
     \<and> (\<exists>ws. warnings ft' = warnings ft @ ws) \<and> (forceLocal ft \<longrightarrow> forceLocal ft')"

definition diagnoses :: "FunctionTrees \<Rightarrow> FunctionTrees \<Rightarrow> bool" where
  "diagnoses ft ft' \<longleftrightarrow> refines ft ft' \<and> params ft' = params ft"

lemma refines_refl [simp]: "refines ft ft"
  by (simp add: refines_def)

lemma refines_trans: "refines a b \<Longrightarrow> refines b c \<Longrightarrow> refines a c"
  by (auto simp: refines_def)

lemma diagnoses_refl [simp]: "diagnoses ft ft"
  by (simp add: diagnoses_def)

lemma diagnoses_steps [simp]:
  "diagnoses ft (push_warning s ft)" "diagnoses ft (arg_warning p s ft)" "diagnoses ft (force_local s ft)"
  "diagnoses ft (ft\<lparr> forceLocal := True \<rparr>)"
  by (simp_all add: diagnoses_def refines_def param_frame_def push_warning_def arg_warning_def force_local_def)

lemma diagnoses_trans: "diagnoses a b \<Longrightarrow> diagnoses b c \<Longrightarrow> diagnoses a c"
  by (auto simp: diagnoses_def intro: refines_trans)

lemma diagnoses_warnings: "diagnoses ft (ft\<lparr> warnings := warnings ft @ ws \<rparr>)"
  by (simp add: diagnoses_def refines_def param_frame_def)

lemma refines_write: "diagnoses ft ft' \<Longrightarrow> refines ft (ft'\<lparr> params := (params ft)[p := n] \<rparr>)"
  by (simp add: diagnoses_def refines_def param_frame_def)

text \<open>A pointer that is copied has a direction.\<close>

definition copy_ok :: "TreeNode \<Rightarrow> bool" where
  "copy_ok n \<longleftrightarrow>
     (n_kind n = NK_Pointer \<and> \<not> isHandle (attrs n) \<and> sized (sizeKind (attrs n)) \<longrightarrow> known_dir (dir (attrs n)))"

lemma sizeOpaque_ok:
  assumes "sizeOpaque p pk node ft = (n, f)"
  shows "diagnoses ft f \<and> dir (attrs n) = dir (attrs node)"
  using assms by (auto simp: sizeOpaque_def sized_by_def upd_node_def split: if_splits)

lemma sizeComposite_ok:
  assumes "sizeComposite ann p node pointee ft = (n, f)"
  shows "diagnoses ft f \<and> dir (attrs n) = dir (attrs node)"
proof -
  obtain r pe w where a: "annotateComposite ann p pointee (warnings ft) = (r, pe, w)"
    by (cases "annotateComposite ann p pointee (warnings ft)")
  obtain ws where w: "w = warnings ft @ ws" using annotate_warns(1) [OF a] by blast
  have "diagnoses ft (force_local s (ft\<lparr> warnings := warnings ft @ ws \<rparr>))" for s
    using diagnoses_trans [OF diagnoses_warnings diagnoses_steps(3)] .
  with assms a w show ?thesis
    by (auto simp: sizeComposite_def Let_def diagnoses_warnings sized_const_def upd_node_def set_children_def
        split: if_splits)
qed

lemma sizePtrArray_ok:
  assumes "sizePtrArray p node ft = (n, f)"
  shows "diagnoses ft f \<and> dir (attrs n) = Dir_In"
  using assms by (auto simp: sizePtrArray_def upd_pointee_def set_children_def upd_node_def)

lemma attrs_upd [simp]:
  "attrs (upd_pointee f n) = attrs n"
  "attrs (set_dir d n) = (attrs n)\<lparr> dir := d \<rparr>"
  "attrs (sized_const m n) = (attrs n)\<lparr> sizeKind := SK_Const, constSize := m \<rparr>"
  "attrs (cstr_node d n) = (attrs n)\<lparr> dir := d, sizeKind := SK_Cstr \<rparr>"
  by (simp_all add: upd_pointee_def set_children_def set_dir_def sized_const_def cstr_node_def upd_node_def)

lemma ptrPtrNode_ok:
  assumes "ptrPtrNode p into byTable isCursor readOnly node pointee ft c = (n, f, c')"
  shows "diagnoses ft f \<and> (known_dir (dir (attrs n)) \<or> n = node)"
proof -
  consider "0 \<le> into" "isCursor" | "0 \<le> into" "\<not> isCursor" | "\<not> 0 \<le> into" "isCursor"
    | "\<not> 0 \<le> into" "\<not> isCursor" "readOnlyNested readOnly pointee"
    | "\<not> 0 \<le> into" "\<not> isCursor" "\<not> readOnlyNested readOnly pointee" by blast
  then show ?thesis
    by cases (use assms in \<open>auto simp: ptrPtrNode_def known_dir_def\<close>)
qed

lemma sizePtrPtr_ok:
  assumes "sizePtrPtr F off A p node pointee ft c = Some (n, f, c')"
  shows "diagnoses ft f \<and> (known_dir (dir (attrs n)) \<or> n = node)"
proof -
  obtain into byTable isCursor
    where "ptrPtrNode p into byTable isCursor (slotIsReadOnly F A) node pointee ft c = (n, f, c')"
    using assms by (auto simp: sizePtrPtr_def Let_def bind_eq_Some_conv)
  then show ?thesis by (rule ptrPtrNode_ok)
qed

lemma sizeScalar_ok:
  assumes "sizeScalar p pk acc node pointee ft = (n, f)"
  shows "diagnoses ft f \<and> dir (attrs n) = dir (attrs node)"
  using assms by (auto simp: sizeScalar_def Let_def sized_by_def sized_const_def upd_node_def split: if_splits)

lemma finishParam_ok:
  assumes "diagnoses ft0 ft" and "p < length (params ft0)" and "dir (attrs node) \<noteq> Dir_NA"
  shows "refines ft0 (finishParam p node ft)
    \<and> (\<exists>n. params (finishParam p node ft) = (params ft0)[p := n] \<and> copy_ok n)"
proof -
  obtain n f where d: "defaultDirection p (constDirection node) ft = (n, f)"
    by (cases "defaultDirection p (constDirection node) ft")
  have "diagnoses ft f" using d by (auto simp: defaultDirection_def split: if_splits)
  then have f: "diagnoses ft f" "diagnoses ft (unsizedLocal n f)"
    using diagnoses_trans [of ft f "unsizedLocal n f"] by (auto simp: unsizedLocal_def)
  have "dir (attrs (constDirection node)) \<noteq> Dir_NA"
    using assms(3) by (simp add: constDirection_def set_dir_def upd_node_def)
  with d have "copy_ok n"
    by (cases "dir (attrs (constDirection node))")
      (auto simp: defaultDirection_def copy_ok_def known_dir_def sized_def set_dir_def upd_node_def
        split: if_splits)
  moreover have "finishParam p node ft = (unsizedLocal n f)\<lparr> params := (params ft0)[p := n] \<rparr>"
    using assms(1) by (simp add: finishParam_def d diagnoses_def)
  moreover have "refines ft0 \<dots>"
    using diagnoses_trans [OF assms(1) f(2)] by (rule refines_write)
  ultimately show ?thesis by (intro conjI exI [of _ n]) simp_all
qed

lemma list_all_update: "list_all P xs \<Longrightarrow> P x \<Longrightarrow> list_all P (xs[i := x])"
  using set_update_subset_insert [of xs i x] by (auto simp: list_all_iff)

lemma directionFrom_not_NA: "directionFrom A acc \<noteq> Dir_NA"
  by (simp add: directionFrom_def Let_def)

lemma inferPointerParam_ok:
  assumes "inferPointerParam ann F off p A (ft, c) = Some (ft', c')" and "p < length (params ft)"
  shows "refines ft ft' \<and> (\<exists>n. params ft' = (params ft)[p := n] \<and> copy_ok n)"
proof -
  let ?acc = "analyzeAccess F (arg_vid A)"
  let ?node = "set_dir (directionFrom A ?acc) (params ft ! p)"
  let ?pe = "hd (children ?node)"
  obtain pk n f where ft': "ft' = finishParam p n f" and
    "(sizeOpaque p pk ?node ft = (n, f) \<or> sizeComposite ann p ?node ?pe ft = (n, f)
      \<or> n = ?node \<and> (\<exists>s. f = force_local s ft) \<or> sizePtrArray p ?node ft = (n, f)
      \<or> sizePtrPtr F off (arg_vid A) p ?node ?pe ft c = Some (n, f, c')
      \<or> sizeScalar p pk ?acc ?node ?pe ft = (n, f))"
    using assms(1)
    by (auto simp: inferPointerParam_def Let_def bind_eq_Some_conv split: if_splits prod.splits)
  then have "diagnoses ft f \<and> dir (attrs n) \<noteq> Dir_NA"
  proof (elim disjE)
    assume "sizeOpaque p pk ?node ft = (n, f)"
    from sizeOpaque_ok [OF this] show ?thesis by (simp add: directionFrom_not_NA)
  next
    assume "sizeComposite ann p ?node ?pe ft = (n, f)"
    from sizeComposite_ok [OF this] show ?thesis by (simp add: directionFrom_not_NA)
  next
    assume "n = ?node \<and> (\<exists>s. f = force_local s ft)"
    then show ?thesis by (auto simp: directionFrom_not_NA)
  next
    assume "sizePtrArray p ?node ft = (n, f)"
    from sizePtrArray_ok [OF this] show ?thesis by simp
  next
    assume "sizePtrPtr F off (arg_vid A) p ?node ?pe ft c = Some (n, f, c')"
    from sizePtrPtr_ok [OF this] show ?thesis by (auto simp: directionFrom_not_NA known_dir_def)
  next
    assume "sizeScalar p pk ?acc ?node ?pe ft = (n, f)"
    from sizeScalar_ok [OF this] show ?thesis by (simp add: directionFrom_not_NA)
  qed
  with finishParam_ok [of ft f p n] assms(2) ft' show ?thesis by simp
qed

lemma lowerFp128Arg_ok:
  "refines ft (lowerFp128Arg p ft)
   \<and> params (lowerFp128Arg p ft) = (params ft)[p := upd_node (\<lambda>a. a\<lparr> abiSlots := 2 \<rparr>) (params ft ! p)]"
  by (simp add: lowerFp128Arg_def refines_def param_frame_def push_warning_def)

lemma lowerByvalArg_ok:
  "refines ft (lowerByvalArg ann F p A ft)
   \<and> (\<exists>n. params (lowerByvalArg ann F p A ft) = (params ft)[p := n] \<and> copy_ok n)"
proof -
  obtain r pe w where a: "annotateComposite ann p (params ft ! p) (warnings ft) = (r, pe, w)"
    by (cases "annotateComposite ann p (params ft ! p) (warnings ft)")
  obtain ws where w: "w = warnings ft @ ws" using annotate_warns(1) [OF a] by blast
  have wrap: "copy_ok (byval_wrapper pe n)" for pe n
    by (simp add: copy_ok_def byval_wrapper_def known_dir_def)
  show ?thesis
    by (auto simp: lowerByvalArg_def Let_def a w refines_def param_frame_def push_warning_def wrap intro!: wrap)
qed

lemma inferParam_ok:
  assumes "inferParam ann F off p (ft, c) = Some (ft', c')" and "p < length (params ft)"
    and "list_all copy_ok (params ft)"
  shows "refines ft ft' \<and> list_all copy_ok (params ft')"
proof -
  have "copy_ok (upd_node (\<lambda>a. a\<lparr> abiSlots := 2 \<rparr>) (params ft ! p))"
    using assms(2,3) by (auto simp: list_all_length copy_ok_def upd_node_def)
  then have fp: "refines ft (lowerFp128Arg p ft) \<and> list_all copy_ok (params (lowerFp128Arg p ft))"
    using lowerFp128Arg_ok list_all_update [OF assms(3)] by simp
  have bv: "refines ft (lowerByvalArg ann F p A ft) \<and> list_all copy_ok (params (lowerByvalArg ann F p A ft))" for A
    using lowerByvalArg_ok [of ft ann F p A] list_all_update [OF assms(3)] by auto
  have ptr: "refines ft ft' \<and> list_all copy_ok (params ft')"
    if "inferPointerParam ann F off p A (ft, c) = Some (ft', c')" for A
    using inferPointerParam_ok [OF that assms(2)] list_all_update [OF assms(3)] by auto
  show ?thesis
    using assms(1,3) fp bv ptr by (auto simp: inferParam_def Let_def split: if_splits)
qed

lemma inferParams_ok:
  assumes "inferParams ann F off ps (ft, c) = Some (ft', c')" and "\<forall>p\<in>set ps. p < length (params ft)"
    and "list_all copy_ok (params ft)"
  shows "refines ft ft' \<and> list_all copy_ok (params ft')"
  using assms
proof (induction ps arbitrary: ft c)
  case Nil
  then show ?case by simp
next
  case (Cons p ps)
  from Cons.prems(1) obtain ft1 c1 where 1: "inferParam ann F off p (ft, c) = Some (ft1, c1)"
    and 2: "inferParams ann F off ps (ft1, c1) = Some (ft', c')"
    by (auto simp: bind_eq_Some_conv)
  have s: "refines ft ft1" "list_all copy_ok (params ft1)"
    using inferParam_ok [OF 1] Cons.prems(2,3) by auto
  then have "\<forall>p\<in>set ps. p < length (params ft1)" using Cons.prems(2) by (simp add: refines_def)
  from Cons.IH [OF 2 this s(2)] refines_trans [OF s(1)] show ?case by blast
qed

section \<open>What the return classification changes\<close>

definition ptr_return_kind :: "RetKind \<Rightarrow> bool" where
  "ptr_return_kind k \<longleftrightarrow>
     k = RK_PtrAliasArg \<or> k = RK_PtrIntoArg \<or> k = RK_PtrIntoCursor \<or> k = RK_PtrToStatic \<or> k = RK_PtrAlloc
     \<or> k = RK_Handle"

lemma ptr_return_kinds [simp]:
  "ptr_return_kind RK_PtrAliasArg" "ptr_return_kind RK_PtrIntoArg" "ptr_return_kind RK_PtrIntoCursor"
  "ptr_return_kind RK_PtrToStatic" "ptr_return_kind RK_PtrAlloc" "ptr_return_kind RK_Handle"
  by (simp_all add: ptr_return_kind_def)

lemma staticReturn_ok:
  "params (staticReturn g ft) = params ft" "retSretArg (staticReturn g ft) = retSretArg ft"
  "forceLocal ft \<Longrightarrow> forceLocal (staticReturn g ft)"
  "\<not> ptr_return_kind (retKind (staticReturn g ft)) \<Longrightarrow> forceLocal (staticReturn g ft)"
  by (auto simp: staticReturn_def force_local_def push_warning_def split: option.split)

lemma inferPtrReturn_ok:
  assumes "inferPtrReturn ann F off ft = Some ft'"
  shows "params ft' = params ft \<and> retSretArg ft' = retSretArg ft \<and> (forceLocal ft \<longrightarrow> forceLocal ft')
    \<and> (forceLocal ft' \<or> ptr_return_kind (retKind ft'))"
  using assms
  by (auto simp: inferPtrReturn_def Let_def bind_eq_Some_conv staticReturn_ok force_local_def push_warning_def
      split: if_splits)

lemma inferReturn_ok:
  assumes "inferReturn ann F off c ft = Some ft'"
  shows "params ft' = params ft \<and> (forceLocal ft \<longrightarrow> forceLocal ft')
    \<and> (isPointerTy (ll_retTy F) \<longrightarrow> forceLocal ft' \<or> ptr_return_kind (retKind ft'))
    \<and> (\<not> isPointerTy (ll_retTy F) \<longrightarrow> retKind ft' = RK_Void \<or> retKind ft' = RK_Scalar)
    \<and> retSretArg ft' = (if off = 1 \<or> isFP128Ty (ll_retTy F) then retSretArg (lowerAbiReturn F (off = 1) ft)
                        else retSretArg ft)"
proof -
  define g where "g = (if off = 1 \<or> isFP128Ty (ll_retTy F) then lowerAbiReturn F (off = 1) ft else ft)"
  have g: "params g = params ft" "forceLocal g = forceLocal ft"
    "(if off = 1 \<or> isFP128Ty (ll_retTy F) then retSretArg (lowerAbiReturn F (off = 1) ft)
      else retSretArg ft) = retSretArg g"
    by (simp_all add: g_def lowerAbiReturn_def push_warning_def Let_def)
  have types: "\<not> (isFP128Ty t \<and> isPointerTy t)" "\<not> (isVoidTy t \<and> isPointerTy t)" for t
    by (simp_all add: isFP128Ty_def isVoidTy_def isPointerTy_def)
  have eq: "inferReturn ann F off c ft =
     (if isFP128Ty (ll_retTy F) \<or> isVoidTy (ll_retTy F) then Some (g\<lparr> retKind := RK_Void \<rparr>)
      else if \<not> isPointerTy (ll_retTy F) then Some (g\<lparr> retKind := RK_Scalar \<rparr>)
      else do {
        fromCursor \<leftarrow>
          (if 0 \<le> c then retDerivesFromCursor F (arg_vid (ll_args F ! (nat c + off))) else Some False);
        if fromCursor then Some (g\<lparr> retKind := RK_PtrIntoCursor, retAliasArg := c \<rparr>)
        else inferPtrReturn ann F off g })"
    unfolding inferReturn_def Let_def g_def by (rule refl)
  let ?cur = "if 0 \<le> c then retDerivesFromCursor F (arg_vid (ll_args F ! (nat c + off))) else Some False"
  show ?thesis
    unfolding g(3)
  proof (cases "isPointerTy (ll_retTy F)")
    case False
    with assms have "ft' = g\<lparr> retKind := RK_Void \<rparr> \<or> ft' = g\<lparr> retKind := RK_Scalar \<rparr>"
      unfolding eq by (simp split: if_split_asm)
    with False show "params ft' = params ft \<and> (forceLocal ft \<longrightarrow> forceLocal ft')
      \<and> (isPointerTy (ll_retTy F) \<longrightarrow> forceLocal ft' \<or> ptr_return_kind (retKind ft'))
      \<and> (\<not> isPointerTy (ll_retTy F) \<longrightarrow> retKind ft' = RK_Void \<or> retKind ft' = RK_Scalar)
      \<and> retSretArg ft' = retSretArg g"
      using g(1,2) by (elim disjE) simp_all
  next
    case True
    with types have no: "\<not> (isFP128Ty (ll_retTy F) \<or> isVoidTy (ll_retTy F))" by blast
    obtain fc where fc: "?cur = Some fc"
      "(if fc then Some (g\<lparr> retKind := RK_PtrIntoCursor, retAliasArg := c \<rparr>)
        else inferPtrReturn ann F off g) = Some ft'"
      using assms True no unfolding eq bind_eq_Some_conv by (simp add: bind_eq_Some_conv del: if_split) blast
    show "params ft' = params ft \<and> (forceLocal ft \<longrightarrow> forceLocal ft')
      \<and> (isPointerTy (ll_retTy F) \<longrightarrow> forceLocal ft' \<or> ptr_return_kind (retKind ft'))
      \<and> (\<not> isPointerTy (ll_retTy F) \<longrightarrow> retKind ft' = RK_Void \<or> retKind ft' = RK_Scalar)
      \<and> retSretArg ft' = retSretArg g"
    proof (cases fc)
      case True
      with fc(2) have "ft' = g\<lparr> retKind := RK_PtrIntoCursor, retAliasArg := c \<rparr>" by simp
      then show ?thesis using g(1,2) \<open>isPointerTy (ll_retTy F)\<close> by simp
    next
      case False
      with fc(2) have "inferPtrReturn ann F off g = Some ft'" by simp
      from inferPtrReturn_ok [OF this] True g(1,2) show ?thesis by simp
    qed
  qed
qed

section \<open>Verdicts\<close>

lemma fresh_copy_ok: "tree_fresh n \<Longrightarrow> copy_ok n"
  by (cases n) (simp add: copy_ok_def fresh_attrs_def sized_def)

lemma tail_copy_ok: "tail_node n \<Longrightarrow> copy_ok n"
  by (auto simp: tail_node_def copy_ok_def sized_def ptr_array_node_def known_dir_def)

lemma list_all_mp: "list_all P xs \<Longrightarrow> (\<And>x. P x \<Longrightarrow> Q x) \<Longrightarrow> list_all Q xs"
  by (simp add: list_all_iff)

lemma inferVariadic_ok:
  assumes "inferVariadic F off ft = Some ft'" and "list_all tree_fresh (params ft)"
  shows "list_all copy_ok (params ft') \<and> retSretArg ft' = retSretArg ft \<and> (forceLocal ft \<longrightarrow> forceLocal ft')"
proof -
  from inferVariadic_extends [OF assms(1)] obtain ns where
    ns: "params ft' = params ft @ ns" "list_all tail_node ns" and f: "trees_frame ft' = trees_frame ft"
    and l: "forceLocal ft \<longrightarrow> forceLocal ft'"
    unfolding tail_extends_def by blast
  have "retSretArg (trees_frame ft') = retSretArg (trees_frame ft)" by (simp only: f)
  then have "retSretArg ft' = retSretArg ft" by (simp add: trees_frame_def)
  moreover have "list_all copy_ok (params ft')"
    using list_all_mp [OF assms(2) fresh_copy_ok] list_all_mp [OF ns(2) tail_copy_ok] ns(1) by simp
  ultimately show ?thesis using l by blast
qed

lemma unmappableNet_ok:
  "params (unmappableNet ft) = params ft" "retSretArg (unmappableNet ft) = retSretArg ft"
  "forceLocal (unmappableNet ft) \<longleftrightarrow> forceLocal ft \<or> list_ex treeHasUnmappable (params ft)"
  by (simp_all add: unmappableNet_def force_local_def push_warning_def)

lemma slotCap_ok:
  "params (enforceRawArgSlotCap ft) = params ft" "retSretArg (enforceRawArgSlotCap ft) = retSretArg ft"
  "retKind (enforceRawArgSlotCap ft) = retKind ft"
  "forceLocal (enforceRawArgSlotCap ft) \<longleftrightarrow> forceLocal ft \<or> kMaxRawArgSlots < raw_slots ft"
  by (auto simp: enforceRawArgSlotCap_def force_local_def push_warning_def)

lemma raw_slots_cap [simp]: "raw_slots (enforceRawArgSlotCap ft) = raw_slots ft"
  by (simp add: raw_slots_def slotCap_ok)

lemma inferFunction_stages:
  assumes "inferFunction ann F ft = Some ft'"
  obtains ft1 ft2 ft3 c where "inferVariadic F (sret_offset F) ft = Some ft1"
    "inferParams ann F (sret_offset F) [0..<length (params ft1)] (ft1, -1) = Some (ft2, c)"
    "inferReturn ann F (sret_offset F) c (unmappableNet ft2) = Some ft3"
    "ft' = enforceRawArgSlotCap ft3"
  using assms by (auto simp: inferFunction_def bind_eq_Some_conv)

definition return_decided :: "llfun \<Rightarrow> FunctionTrees \<Rightarrow> bool" where
  "return_decided F ft \<longleftrightarrow>
     (if isPointerTy (ll_retTy F) then ptr_return_kind (retKind ft)
      else retKind ft = RK_Void \<or> retKind ft = RK_Scalar)"

lemma inferFunction_verdict:
  assumes "inferFunction ann F ft = Some ft'" and "\<not> forceLocal ft'"
  shows "\<not> list_ex treeHasUnmappable (params ft') \<and> return_decided F ft' \<and> raw_slots ft' \<le> kMaxRawArgSlots"
proof -
  from assms(1) obtain ft1 ft2 ft3 c where
    3: "inferReturn ann F (sret_offset F) c (unmappableNet ft2) = Some ft3" and
    4: "ft' = enforceRawArgSlotCap ft3" by (rule inferFunction_stages)
  from assms(2) 4 have "\<not> forceLocal ft3" and cap: "raw_slots ft' \<le> kMaxRawArgSlots"
    by (simp_all add: slotCap_ok)
  with inferReturn_ok [OF 3] have "\<not> forceLocal (unmappableNet ft2)" "params ft3 = params ft2"
    "return_decided F ft3"
    by (auto simp: unmappableNet_ok(1) return_decided_def)
  with 4 cap show ?thesis by (simp add: unmappableNet_ok(3) slotCap_ok return_decided_def)
qed

lemma inferFunction_dirs:
  assumes "inferFunction ann F ft = Some ft'" and "list_all tree_fresh (params ft)"
  shows "list_all copy_ok (params ft')"
proof -
  from assms(1) obtain ft1 ft2 ft3 c where
    1: "inferVariadic F (sret_offset F) ft = Some ft1" and
    2: "inferParams ann F (sret_offset F) [0..<length (params ft1)] (ft1, -1) = Some (ft2, c)" and
    3: "inferReturn ann F (sret_offset F) c (unmappableNet ft2) = Some ft3" and
    4: "ft' = enforceRawArgSlotCap ft3" by (rule inferFunction_stages)
  have "list_all copy_ok (params ft2)"
    using inferParams_ok [OF 2] inferVariadic_ok [OF 1 assms(2)] by simp
  with inferReturn_ok [OF 3] 4 show ?thesis by (simp add: unmappableNet_ok(1) slotCap_ok)
qed

lemma inferFunction_sret:
  assumes "inferFunction ann F ft = Some ft'" and "list_all tree_fresh (params ft)" and "retSretArg ft = None"
  shows "retSretArg ft' \<noteq> None \<longleftrightarrow> sret_offset F = 1 \<or> isFP128Ty (ll_retTy F)"
proof -
  from assms(1) obtain ft1 ft2 ft3 c where
    1: "inferVariadic F (sret_offset F) ft = Some ft1" and
    2: "inferParams ann F (sret_offset F) [0..<length (params ft1)] (ft1, -1) = Some (ft2, c)" and
    3: "inferReturn ann F (sret_offset F) c (unmappableNet ft2) = Some ft3" and
    4: "ft' = enforceRawArgSlotCap ft3" by (rule inferFunction_stages)
  have v: "list_all copy_ok (params ft1)" "retSretArg ft1 = None"
    using inferVariadic_ok [OF 1 assms(2)] assms(3) by simp_all
  have "param_frame ft2 = param_frame ft1" using inferParams_ok [OF 2 _ v(1)] by (simp add: refines_def)
  then have "retSretArg (param_frame ft2) = retSretArg (param_frame ft1)" by simp
  then have "retSretArg ft2 = None" using v(2) by (simp add: param_frame_def)
  moreover have "retSretArg (lowerAbiReturn F b g) \<noteq> None" for b g
    by (simp add: lowerAbiReturn_def push_warning_def Let_def)
  ultimately show ?thesis
    using inferReturn_ok [OF 3] 4 by (simp add: slotCap_ok unmappableNet_ok(2))
qed

text \<open>C35: The inference returns on every function whose casts and type qualifiers run in no circle.\<close>

theorem inferFunction_returns:
  assumes "analysable F"
  shows "\<exists>ft'. inferFunction ann F ft = Some ft'"
  by (rule inferFunction_total [OF assms])


text \<open>A function that is not run locally fits the transport: its raw argument slots, with the
  hidden return pointer that a struct or long double return adds and two slots for each long
  double argument, are at most six.\<close>

theorem inferFunction_slots:
  assumes "inferFunction ann F ft = Some ft'" and "list_all tree_fresh (params ft)" and "retSretArg ft = None"
  shows "(retSretArg ft' \<noteq> None \<longleftrightarrow> sret_offset F = 1 \<or> isFP128Ty (ll_retTy F))
    \<and> (\<not> forceLocal ft' \<longrightarrow>
        (if retSretArg ft' \<noteq> None then 1 else 0) + sum_list (map (\<lambda>p. max 1 (abiSlots (attrs p))) (params ft')) \<le> 6)"
  using inferFunction_sret [OF assms] inferFunction_verdict [OF assms(1)]
  by (auto simp: kMaxRawArgSlots_def raw_slots_def)

section \<open>Examples\<close>

text \<open>\<^verbatim>\<open>char *pick(char *a, char *b)\<close>, which returns \<open>a\<close> on one path and \<open>b\<close> on another.\<close>

definition char_ptr :: TreeNode where
  "char_ptr = Node (default_attrs\<lparr> kind := NK_Pointer, typeName := ''<ptr>'', sizeBytes := 4 \<rparr>)
     [Node (default_attrs\<lparr> kind := NK_Scalar, typeName := ''char'', sizeBytes := 1 \<rparr>) []]"

definition pick_fun :: llfun where
  "pick_fun = (list_fun
     [(VArgument 0, TyPtr), (VArgument 1, TyPtr), (IReturn (Some 0), TyVoid), (IReturn (Some 1), TyVoid)]
     [plain_arg 0, plain_arg 1] TyPtr)
       \<lparr> ll_blocks := [\<lparr> bb_insts = [2], bb_succs = [] \<rparr>, \<lparr> bb_insts = [3], bb_succs = [] \<rparr>] \<rparr>"

definition pick_trees :: FunctionTrees where
  "pick_trees = default_trees\<lparr> funcName := ''pick'', ret := Some char_ptr, params := [char_ptr, char_ptr] \<rparr>"

lemma pick_run:
  "map_option (\<lambda>ft. (retKind ft, retAliasArg ft, forceLocal ft)) (inferFunction default_annotations pick_fun pick_trees)
     = Some (RK_PtrAliasArg, 1, False)"
  by code_simp

section \<open>The size heuristic\<close>

text \<open>The parameters \<^verbatim>\<open>bestSizey\<close> looks at: scalars on one side of the pointer whose type ranks high
  enough to be a size.\<close>

definition size_candidate :: "TreeNode list \<Rightarrow> nat \<Rightarrow> bool \<Rightarrow> nat \<Rightarrow> nat \<Rightarrow> bool" where
  "size_candidate ps p after minR q \<longleftrightarrow>
     q < length ps \<and> q \<noteq> p \<and> n_kind (ps ! q) = NK_Scalar \<and> (if after then p < q else q < p)
     \<and> minR \<le> sizeyRank (typeName (attrs (ps ! q))) \<and> 0 < sizeyRank (typeName (attrs (ps ! q)))"

definition best_so_far :: "TreeNode list \<Rightarrow> nat \<Rightarrow> bool \<Rightarrow> nat \<Rightarrow> nat \<Rightarrow> int \<times> nat \<Rightarrow> bool" where
  "best_so_far ps p after minR n best \<longleftrightarrow>
     (best = (-1, 0) \<and> (\<forall>q<n. \<not> size_candidate ps p after minR q))
     \<or> (\<exists>q<n. best = (int q, sizeyRank (typeName (attrs (ps ! q)))) \<and> size_candidate ps p after minR q
         \<and> (\<forall>q'<n. size_candidate ps p after minR q' \<longrightarrow>
              sizeyRank (typeName (attrs (ps ! q'))) \<le> snd best
              \<and> (sizeyRank (typeName (attrs (ps ! q'))) = snd best \<longrightarrow> q \<le> q')))"

lemma sizey_step_cases:
  assumes "n < length ps"
  obtains (skip) "\<not> size_candidate ps p after minR n" "sizey_step n (ps ! n) p after minR best = best"
  | (better) "size_candidate ps p after minR n" "snd best < sizeyRank (typeName (attrs (ps ! n)))"
      "sizey_step n (ps ! n) p after minR best = (int n, sizeyRank (typeName (attrs (ps ! n))))"
  | (worse) "sizey_step n (ps ! n) p after minR best = best" "sizeyRank (typeName (attrs (ps ! n))) \<le> snd best"
proof -
  consider "n = p \<or> n_kind (ps ! n) \<noteq> NK_Scalar \<or> (if after then n < p else p < n)
      \<or> \<not> minR \<le> sizeyRank (typeName (attrs (ps ! n)))"
    | "\<not> (n = p \<or> n_kind (ps ! n) \<noteq> NK_Scalar \<or> (if after then n < p else p < n))"
      "minR \<le> sizeyRank (typeName (attrs (ps ! n)))" "snd best < sizeyRank (typeName (attrs (ps ! n)))"
    | "\<not> (n = p \<or> n_kind (ps ! n) \<noteq> NK_Scalar \<or> (if after then n < p else p < n))"
      "minR \<le> sizeyRank (typeName (attrs (ps ! n)))" "sizeyRank (typeName (attrs (ps ! n))) \<le> snd best"
    by fastforce
  then show thesis
  proof cases
    case 1
    then show thesis by (intro skip) (auto simp: size_candidate_def sizey_step_def Let_def split: if_splits)
  next
    case 2
    then show thesis
      using assms by (intro better) (auto simp: size_candidate_def sizey_step_def Let_def split: if_splits)
  next
    case 3
    then show thesis by (intro worse) (auto simp: sizey_step_def Let_def)
  qed
qed

lemma best_so_far_step:
  assumes "best_so_far ps p after minR n best" and "n < length ps"
  shows "best_so_far ps p after minR (Suc n) (sizey_step n (ps ! n) p after minR best)"
  using assms(2)
proof (cases rule: sizey_step_cases [of n ps p after minR best])
  case skip
  then show ?thesis using assms(1) unfolding best_so_far_def less_Suc_eq by (auto 0 3)
next
  case better
  have "sizeyRank (typeName (attrs (ps ! q'))) < sizeyRank (typeName (attrs (ps ! n)))"
    if "q' < n" "size_candidate ps p after minR q'" for q'
    using assms(1) that better(2) unfolding best_so_far_def by fastforce
  then have "\<forall>q'<Suc n. size_candidate ps p after minR q' \<longrightarrow>
      sizeyRank (typeName (attrs (ps ! q'))) \<le> sizeyRank (typeName (attrs (ps ! n)))
      \<and> (sizeyRank (typeName (attrs (ps ! q'))) = sizeyRank (typeName (attrs (ps ! n))) \<longrightarrow> n \<le> q')"
    by (metis less_SucE less_imp_le nless_le order_refl)
  with better show ?thesis unfolding best_so_far_def by (intro disjI2 exI [of _ n]) simp
next
  case worse
  from assms(1) consider (none) "best = (-1, 0)" "\<forall>q<n. \<not> size_candidate ps p after minR q"
    | (some) q where "q < n" "best = (int q, sizeyRank (typeName (attrs (ps ! q))))" "size_candidate ps p after minR q"
      "\<forall>q'<n. size_candidate ps p after minR q' \<longrightarrow> sizeyRank (typeName (attrs (ps ! q'))) \<le> snd best
        \<and> (sizeyRank (typeName (attrs (ps ! q'))) = snd best \<longrightarrow> q \<le> q')"
    unfolding best_so_far_def by blast
  then show ?thesis
  proof cases
    case none
    with worse(2) have "\<not> size_candidate ps p after minR n" by (simp add: size_candidate_def)
    with none worse(1) show ?thesis by (simp add: best_so_far_def less_Suc_eq)
  next
    case some
    with worse show ?thesis unfolding best_so_far_def by (intro disjI2 exI [of _ q]) (auto simp: less_Suc_eq)
  qed
qed

lemma bestSizeyFrom_best:
  assumes "ps = pre @ ns" and "best_so_far ps p after minR (length pre) best"
  shows "\<exists>b. bestSizeyFrom (length pre) ns p after minR best = fst b \<and> best_so_far ps p after minR (length ps) b"
  using assms
proof (induction ns arbitrary: pre best)
  case Nil
  then show ?case by (intro exI [of _ best]) simp
next
  case (Cons n ns)
  have n: "ps ! length pre = n" "length pre < length ps" using Cons.prems(1) by simp_all
  note step = best_so_far_step [OF Cons.prems(2) n(2), unfolded n(1)]
  from Cons.IH [of "pre @ [n]" "sizey_step (length pre) n p after minR best"] Cons.prems(1) step
  show ?case by simp
qed

definition best_candidate :: "TreeNode list \<Rightarrow> nat \<Rightarrow> bool \<Rightarrow> nat \<Rightarrow> nat \<Rightarrow> bool" where
  "best_candidate ps p after minR q \<longleftrightarrow>
     size_candidate ps p after minR q
     \<and> (\<forall>q'. size_candidate ps p after minR q' \<longrightarrow>
          sizeyRank (typeName (attrs (ps ! q'))) \<le> sizeyRank (typeName (attrs (ps ! q)))
          \<and> (sizeyRank (typeName (attrs (ps ! q'))) = sizeyRank (typeName (attrs (ps ! q))) \<longrightarrow> q \<le> q'))"

text \<open>The heuristic for an unpaired buffer picks, on the side asked for, a scalar of the highest
  size-like rank, the first one among equals, and answers that there is none only when there
  is no candidate.\<close>

theorem bestSizey_correct:
  "(bestSizey ps p after minR = -1 \<and> (\<forall>q. \<not> size_candidate ps p after minR q))
   \<or> (\<exists>q. bestSizey ps p after minR = int q \<and> best_candidate ps p after minR q)"
proof -
  have "best_so_far ps p after minR 0 (-1, 0)" by (simp add: best_so_far_def)
  then obtain b where b: "bestSizey ps p after minR = fst b" "best_so_far ps p after minR (length ps) b"
    using bestSizeyFrom_best [of ps "[]" ps p after minR "(-1, 0)"] by (auto simp: bestSizey_def)
  have len: "q < length ps" if "size_candidate ps p after minR q" for q
    using that by (simp add: size_candidate_def)
  from b(2) show ?thesis
    unfolding best_so_far_def
  proof (elim disjE exE conjE)
    assume "b = (-1, 0)" "\<forall>q<length ps. \<not> size_candidate ps p after minR q"
    with b(1) len show ?thesis by auto
  next
    fix q
    assume q: "q < length ps" "b = (int q, sizeyRank (typeName (attrs (ps ! q))))" "size_candidate ps p after minR q"
      "\<forall>q'<length ps. size_candidate ps p after minR q' \<longrightarrow>
          sizeyRank (typeName (attrs (ps ! q'))) \<le> snd b
          \<and> (sizeyRank (typeName (attrs (ps ! q'))) = snd b \<longrightarrow> q \<le> q')"
    then show ?thesis
      using b(1) len by (intro disjI2 exI [of _ q]) (auto simp: best_candidate_def)
  qed
qed

lemma pick_result:
  obtains ft' where "inferFunction default_annotations pick_fun pick_trees = Some ft'"
    "retKind ft' = RK_PtrAliasArg" "retAliasArg ft' = 1" "\<not> forceLocal ft'"
  using pick_run by auto

lemma pick_val: "ll_val pick_fun v = (if v < 4 then [VArgument 0, VArgument 1, IReturn (Some 0), IReturn (Some 1)] ! v else VOther)"
  by (simp add: pick_fun_def list_fun_def nth_Cons')

lemma pick_analysable: "analysable pick_fun"
proof -
  have "dyn_Cast (ll_val pick_fun v) = None" "\<not> isa_BitCast (ll_val pick_fun v)" "ll_val pick_fun v \<noteq> IPtrToInt p" for v p
    by (simp_all add: pick_val dyn_Cast_def isa_BitCast_def nth_Cons')
  then have "casts_wf pick_fun" "ptrtoint_scalar pick_fun" "bitcasts_wf pick_fun"
    by (simp_all add: casts_wf_def ptrtoint_scalar_def bitcasts_wf_def)
  moreover have "wrappers_wf (ll_dwarf pick_fun)" by (simp add: pick_fun_def list_fun_def list_dwarf_wf)
  ultimately show ?thesis by (simp add: analysable_def)
qed

lemma pick_fresh: "list_all tree_fresh (params pick_trees)" "retSretArg pick_trees = None"
  by (simp_all add: pick_trees_def char_ptr_def default_trees_def fresh_attrs_def default_attrs_def)

theorem inferFunction_returns_witness:
  "\<exists>ft'. inferFunction default_annotations pick_fun pick_trees = Some ft'"
  by (rule inferFunction_returns [OF pick_analysable])


theorem inferFunction_slots_witness:
  "\<exists>ft'. inferFunction default_annotations pick_fun pick_trees = Some ft' \<and> retSretArg ft' = None
     \<and> sum_list (map (\<lambda>p. max 1 (abiSlots (attrs p))) (params ft')) \<le> 6"
proof -
  obtain ft' where ft': "inferFunction default_annotations pick_fun pick_trees = Some ft'" "\<not> forceLocal ft'"
    by (rule pick_result)
  have "sret_offset pick_fun = 0" "\<not> isFP128Ty (ll_retTy pick_fun)" by code_simp+
  with inferFunction_slots [OF ft'(1) pick_fresh] ft' show ?thesis by simp
qed

text \<open>A function that returns one argument on one path and another argument on another path is
  reported to return an unchanged argument: the one of the last return instruction. The caller
  is then handed the second argument also when the call returned the first one.\<close>

theorem inferFunction_alias_last:
  "derives_arg pick_fun 0 False 0 0 \<and> 0 \<in> set (return_values pick_fun) \<and>
   map_option (\<lambda>ft. (retKind ft, retAliasArg ft, forceLocal ft)) (inferFunction default_annotations pick_fun pick_trees)
     = Some (RK_PtrAliasArg, 1, False)"
proof (intro conjI)
  have "0 < ll_size pick_fun" "ll_val pick_fun (ll_strip pick_fun 0) = VArgument 0"
    by (simp_all add: pick_fun_def list_fun_def)
  then have "derives_arg pick_fun 0 False 0 (int 0 - int 0)" by (rule derives_arg.arg) simp
  then show "derives_arg pick_fun 0 False 0 0" by simp
  show "0 \<in> set (return_values pick_fun)" by code_simp
qed (rule pick_run)

end
