(* ===== verification/Emit.thy ===== *)
theory Emit
  imports Infer
begin

text \<open>
  The two views \<^verbatim>\<open>main.cpp\<close> prints of a forest: the tree for debugging and the JSON record. The
  text is modelled character by character; the grammar of JSON relates it to the value it denotes.
\<close>

section \<open>Text\<close>

definition dq :: string where "dq = [CHR 0x22]"
definition nl :: string where "nl = [CHR 0x0A]"

definition spaces :: "nat \<Rightarrow> string" where
  "spaces n = replicate n (CHR '' '')"

definition quoted :: "string \<Rightarrow> string" where
  "quoted s = dq @ s @ dq"

section \<open>The tree view\<close>

definition node_line :: "nat \<Rightarrow> tree_attrs \<Rightarrow> string" where
  "node_line indent a =
     spaces (2 * indent) @
     (if fieldName a \<noteq> [] then ''.'' @ fieldName a @ '' '' else []) @
     ''['' @ nodeKindName (kind a) @ ''] '' @ typeName a @ '' (size='' @ to_string (sizeBytes a) @
     (if 0 < indent then '', off='' @ to_string (offsetBytes a) else []) @ '')'' @
     (if kind a = NK_Pointer then
        (if dir a \<noteq> Dir_NA then '' dir='' @ dirName (dir a) else []) @
        (if sizeKind a \<noteq> SK_NA then
           '' size='' @ sizeKindName (sizeKind a) @
           (if sizeKind a = SK_FromArg \<or> sizeKind a = SK_FromArgPointee
            then ''(arg'' @ to_string_int (sizeArgIndex a) @ '')'' else []) @
           (if sizeKind a = SK_Const then ''('' @ to_string (constSize a) @ '')'' else [])
         else []) @
        (if isHandle a then '' HANDLE['' @ handleClass a @ '']'' else [])
      else []) @
     (if note_text a \<noteq> [] then ''  // '' @ note_text a else []) @ nl"

fun printNode :: "nat \<Rightarrow> TreeNode \<Rightarrow> string" where
  "printNode indent (Node a cs) = node_line indent a @ concat (map (printNode (Suc indent)) cs)"

definition printFunctionTree :: "FunctionTrees \<Rightarrow> string" where
  "printFunctionTree ft =
     ''=== '' @ funcName ft @ '' ===  ret='' @ retKindName (retKind ft) @
     (if retKind ft = RK_PtrAliasArg then ''(arg'' @ to_string_int (retAliasArg ft) @ '')'' else []) @ nl @
     (case retSretArg ft of None \<Rightarrow> [] | Some s \<Rightarrow> ''  arg0 (sret):'' @ nl @ printNode 2 s) @
     concat (map (\<lambda>i. ''  arg'' @ to_string (i + (if retSretArg ft \<noteq> None then 1 else 0)) @ '':'' @ nl @
                      printNode 2 (params ft ! i)) [0..<length (params ft)]) @
     concat (map (\<lambda>w. ''  ! '' @ w @ nl) (warnings ft)) @ nl"

section \<open>The JSON view\<close>

definition json_escape :: "char \<Rightarrow> string" where
  "json_escape c =
     (if c = CHR 0x22 then [CHR 0x5C, CHR 0x22]
      else if c = CHR 0x5C then [CHR 0x5C, CHR 0x5C]
      else if c = CHR 0x0A then [CHR 0x5C, CHR ''n'']
      else if c = CHR 0x09 then [CHR 0x5C, CHR ''t'']
      else [c])"

definition jsonStr :: "string \<Rightarrow> string" where
  "jsonStr s = dq @ concat (map json_escape s) @ dq"

text \<open>Entries separated by commas; a member is a key and the text of its value.\<close>

fun commas :: "string list \<Rightarrow> string" where
  "commas [] = []"
| "commas [x] = x"
| "commas (x # y # zs) = x @ '','' @ commas (y # zs)"

definition member :: "string \<Rightarrow> string \<Rightarrow> string" where
  "member k t = quoted k @ '':'' @ t"

text \<open>Entries on lines of their own, between the brackets of an array.\<close>

definition entry_lines :: "string list \<Rightarrow> string" where
  "entry_lines es = commas (map (\<lambda>e. nl @ e) es) @ nl"

definition bool_text :: "bool \<Rightarrow> string" where
  "bool_text b = (if b then ''true'' else ''false'')"

definition remapArg :: "nat list option \<Rightarrow> tree_attrs \<Rightarrow> int \<Rightarrow> int" where
  "remapArg argRemap a idx =
     (case argRemap of
        Some r \<Rightarrow> if fieldName a = [] \<and> 0 \<le> idx \<and> nat idx < length r then int (r ! nat idx) else idx
      | None \<Rightarrow> idx)"

definition field_members :: "tree_attrs \<Rightarrow> string list" where
  "field_members a =
     (if fieldName a \<noteq> [] then
        [member ''field'' (jsonStr (fieldName a)), member ''offset'' (to_string (offsetBytes a)),
         member ''touched'' (bool_text (touched a))]
      else [])"

definition handle_members :: "tree_attrs \<Rightarrow> string list" where
  "handle_members a =
     [member ''kind'' (quoted ''handle'')] @ field_members a @
     [member ''handle_class'' (jsonStr (handleClass a))]"

definition pointer_members :: "nat list option \<Rightarrow> tree_attrs \<Rightarrow> string list" where
  "pointer_members argRemap a =
     [member ''dir'' (jsonStr (dirName (dir a))), member ''size_kind'' (jsonStr (sizeKindName (sizeKind a)))] @
     (if sizeKind a = SK_PtrArray then [member ''terminator'' (quoted ''null'')] else []) @
     (if sizeKind a = SK_FromArg \<or> sizeKind a = SK_FromArgPointee then
        [member (if fieldName a \<noteq> [] then ''size_field_index'' else ''size_arg_index'')
           (to_string_int (if fieldName a \<noteq> [] then sizeArgIndex a else remapArg argRemap a (sizeArgIndex a)))]
      else []) @
     (if sizeKind a = SK_Const then [member ''const_size'' (to_string (constSize a))] else []) @
     (if shallow a then [member ''shallow'' (bool_text True)] else []) @
     (if cursor a then [member ''cursor'' (bool_text True)] else [])"

definition node_members :: "nat list option \<Rightarrow> tree_attrs \<Rightarrow> string list" where
  "node_members argRemap a =
     [member ''kind'' (jsonStr (nodeKindName (kind a)))] @ field_members a @
     [member ''type'' (jsonStr (typeName a)), member ''size'' (to_string (sizeBytes a))] @
     (if kind a = NK_Pointer then pointer_members argRemap a else [])"

definition recurses :: "tree_attrs \<Rightarrow> TreeNode list \<Rightarrow> bool" where
  "recurses a cs \<longleftrightarrow> (kind a = NK_Pointer \<or> kind a = NK_Struct \<or> kind a = NK_Union) \<and> cs \<noteq> []"

fun jsonNode :: "nat list option \<Rightarrow> nat \<Rightarrow> TreeNode \<Rightarrow> string" where
  "jsonNode argRemap ind (Node a cs) =
     spaces (2 * ind) @ ''{'' @
     (if isHandle a then commas (handle_members a)
      else if ptrIntoArg a then
        commas [member ''kind'' (quoted ''ptr_into_arg''),
                member ''into_arg'' (to_string_int (remapArg argRemap a (intoArgIndex a)))]
      else commas (node_members argRemap a @
        (if recurses a cs then
           [member (if kind a = NK_Pointer then ''pointee'' else ''fields'')
              (''['' @ entry_lines (map (jsonNode argRemap (Suc ind)) cs) @ spaces (2 * ind) @ '']'')]
         else []))) @ ''}''"

definition abi_label :: "nat \<Rightarrow> nat \<Rightarrow> string" where
  "abi_label slots idx =
     (if slots = 2 then if idx = 0 then '' (lo)'' else '' (hi)''
      else '' (slot '' @ to_string idx @ '')'')"

definition jsonAbiSlot :: "nat \<Rightarrow> nat \<Rightarrow> TreeNode \<Rightarrow> string" where
  "jsonAbiSlot ind idx n =
     (let a = attrs n;
          slotSize = (if abiSlots a \<noteq> 0 then sizeBytes a div abiSlots a else sizeBytes a)
      in spaces (2 * ind) @ ''{'' @
         commas [member ''kind'' (quoted ''scalar''),
                 member ''type'' (jsonStr (typeName a @ abi_label (abiSlots a) idx)),
                 member ''size'' (to_string slotSize)] @ ''}'')"

definition jsonWarnings :: "FunctionTrees \<Rightarrow> string" where
  "jsonWarnings ft =
     member ''warnings''
       (''['' @ commas (map (\<lambda>w. nl @ spaces 8 @ jsonStr w) (warnings ft)) @
        (if warnings ft \<noteq> [] then nl @ spaces 6 else []) @ '']'')"

definition ret_members :: "FunctionTrees \<Rightarrow> string list" where
  "ret_members ft =
     [member ''kind'' (jsonStr (retKindName (retKind ft)))] @
     (if retKind ft = RK_PtrAliasArg \<or> retKind ft = RK_PtrIntoArg then
        [member ''alias_arg'' (to_string_int (retAliasArg ft))]
      else if retKind ft = RK_PtrIntoCursor then [member ''cursor_arg'' (to_string_int (retAliasArg ft))]
      else if retKind ft = RK_PtrToStatic then [member ''copyout_bytes'' (to_string (retStaticSize ft))]
      else if retKind ft = RK_PtrAlloc then
        (case retAllocSizeArgs ft of
           [] \<Rightarrow> []
         | [i] \<Rightarrow> [member ''size_arg_index'' (to_string_int i)]
         | is \<Rightarrow> [member ''size_arg_indices'' (''['' @ commas (map to_string_int is) @ '']'')])
      else if retKind ft = RK_Handle then [member ''handle_class'' (jsonStr (retHandleClass ft))]
      else [])"

text \<open>The position of each parameter among the emitted arguments.\<close>

fun remap_from :: "nat \<Rightarrow> TreeNode list \<Rightarrow> nat list" where
  "remap_from pos [] = []"
| "remap_from pos (p # ps) = pos # remap_from (pos + max 1 (abiSlots (attrs p))) ps"

definition arg_remap :: "FunctionTrees \<Rightarrow> nat list" where
  "arg_remap ft = remap_from (if retSretArg ft \<noteq> None then 1 else 0) (params ft)"

definition param_texts :: "nat list \<Rightarrow> TreeNode \<Rightarrow> string list" where
  "param_texts r p =
     (if 1 < abiSlots (attrs p) then map (\<lambda>s. jsonAbiSlot 4 s p) [0..<abiSlots (attrs p)]
      else [jsonNode (Some r) 4 p])"

definition arg_texts :: "FunctionTrees \<Rightarrow> string list" where
  "arg_texts ft =
     (let r = arg_remap ft in
      (case retSretArg ft of Some s \<Rightarrow> [jsonNode (Some r) 4 s] | None \<Rightarrow> []) @
      concat (map (param_texts r) (params ft)))"

definition function_members :: "FunctionTrees \<Rightarrow> string list" where
  "function_members ft =
     [member ''name'' (jsonStr (funcName ft)),
      member ''decision'' (jsonStr (if forceLocal ft then ''force_local'' else ''marshal''))] @
     (if isVariadic ft then [member ''variadic'' (bool_text True)] else []) @
     (if forceLocal ft then []
      else [member ''ret'' (''{'' @ commas (ret_members ft) @ ''}''),
            member ''args''
              (''['' @ (if arg_texts ft \<noteq> [] then entry_lines (arg_texts ft) @ spaces 6 else []) @ '']'')]) @
     [jsonWarnings ft]"

definition jsonFunction :: "FunctionTrees \<Rightarrow> string" where
  "jsonFunction ft =
     spaces 4 @ ''{'' @ commas (map (\<lambda>m. nl @ spaces 6 @ m) (function_members ft)) @ nl @ spaces 4 @ ''}''"

definition jsonDocument :: "string \<Rightarrow> FunctionTrees list \<Rightarrow> string" where
  "jsonDocument label records =
     ''{'' @ commas
       [nl @ spaces 2 @ member ''module'' (jsonStr label),
        nl @ spaces 2 @ member ''function_count'' (to_string (length records)),
        nl @ spaces 2 @ member ''functions'' (''['' @ entry_lines (map jsonFunction records) @ spaces 2 @ '']'')] @
     nl @ ''}'' @ nl"

section \<open>The grammar\<close>

text \<open>The characters of a string literal, with the escapes of JSON that the tool uses.\<close>

inductive lit :: "string \<Rightarrow> string \<Rightarrow> bool" where
  lit_end: "lit [] []"
| lit_raw: "lit t s \<Longrightarrow> 32 \<le> (of_char c :: nat) \<Longrightarrow> c \<noteq> CHR 0x22 \<Longrightarrow> c \<noteq> CHR 0x5C \<Longrightarrow> lit (c # t) (c # s)"
| lit_quote: "lit t s \<Longrightarrow> lit (CHR 0x5C # CHR 0x22 # t) (CHR 0x22 # s)"
| lit_backslash: "lit t s \<Longrightarrow> lit (CHR 0x5C # CHR 0x5C # t) (CHR 0x5C # s)"
| lit_newline: "lit t s \<Longrightarrow> lit (CHR 0x5C # CHR ''n'' # t) (CHR 0x0A # s)"
| lit_tab: "lit t s \<Longrightarrow> lit (CHR 0x5C # CHR ''t'' # t) (CHR 0x09 # s)"

definition blank :: "string \<Rightarrow> bool" where
  "blank w \<longleftrightarrow> set w \<subseteq> {CHR '' '', CHR 0x0A, CHR 0x0D, CHR 0x09}"

text \<open>Texts and the values they denote; the values of the members and entries are those of
  \<open>json\<close>, the datatype the annotation files are read into.\<close>

inductive denotes :: "string \<Rightarrow> json \<Rightarrow> bool"
  and member_of :: "string \<Rightarrow> string \<times> json \<Rightarrow> bool"
  and members_of :: "string \<Rightarrow> (string \<times> json) list \<Rightarrow> bool"
  and entries_of :: "string \<Rightarrow> json list \<Rightarrow> bool" where
  den_blank: "denotes t v \<Longrightarrow> blank w \<Longrightarrow> blank w' \<Longrightarrow> denotes (w @ t @ w') v"
| den_null: "denotes ''null'' JNull"
| den_true: "denotes ''true'' (JBool True)"
| den_false: "denotes ''false'' (JBool False)"
| den_int [simp]: "denotes (to_string_int i) (JInt i)"
| den_string: "lit t s \<Longrightarrow> denotes (dq @ t @ dq) (JString s)"
| den_no_members: "blank w \<Longrightarrow> denotes (''{'' @ w @ ''}'') (JObject [])"
| den_object: "members_of t kvs \<Longrightarrow> denotes (''{'' @ t @ ''}'') (JObject kvs)"
| den_no_entries: "blank w \<Longrightarrow> denotes (''['' @ w @ '']'') (JArray [])"
| den_array: "entries_of t vs \<Longrightarrow> denotes (''['' @ t @ '']'') (JArray vs)"
| mem_pair: "lit k s \<Longrightarrow> denotes t v \<Longrightarrow> blank w \<Longrightarrow> blank w' \<Longrightarrow>
    member_of (w @ dq @ k @ dq @ w' @ '':'' @ t) (s, v)"
| mems_one: "member_of t kv \<Longrightarrow> members_of t [kv]"
| mems_more: "member_of t kv \<Longrightarrow> members_of ts kvs \<Longrightarrow> members_of (t @ '','' @ ts) (kv # kvs)"
| ents_one: "denotes t v \<Longrightarrow> entries_of t [v]"
| ents_more: "denotes t v \<Longrightarrow> entries_of ts vs \<Longrightarrow> entries_of (t @ '','' @ ts) (v # vs)"

section \<open>The documents\<close>

definition field_doc :: "tree_attrs \<Rightarrow> (string \<times> json) list" where
  "field_doc a =
     (if fieldName a \<noteq> [] then
        [(''field'', JString (fieldName a)), (''offset'', JInt (int (offsetBytes a))),
         (''touched'', JBool (touched a))]
      else [])"

definition pointer_doc :: "nat list option \<Rightarrow> tree_attrs \<Rightarrow> (string \<times> json) list" where
  "pointer_doc r a =
     [(''dir'', JString (dirName (dir a))), (''size_kind'', JString (sizeKindName (sizeKind a)))] @
     (if sizeKind a = SK_PtrArray then [(''terminator'', JString ''null'')] else []) @
     (if sizeKind a \<in> {SK_FromArg, SK_FromArgPointee} then
        [if fieldName a \<noteq> [] then (''size_field_index'', JInt (sizeArgIndex a))
         else (''size_arg_index'', JInt (remapArg r a (sizeArgIndex a)))]
      else []) @
     (if sizeKind a = SK_Const then [(''const_size'', JInt (int (constSize a)))] else []) @
     (if shallow a then [(''shallow'', JBool True)] else []) @
     (if cursor a then [(''cursor'', JBool True)] else [])"

fun node_doc :: "nat list option \<Rightarrow> TreeNode \<Rightarrow> json" where
  "node_doc r (Node a cs) = JObject
     (if isHandle a then
        [(''kind'', JString ''handle'')] @ field_doc a @ [(''handle_class'', JString (handleClass a))]
      else if ptrIntoArg a then
        [(''kind'', JString ''ptr_into_arg''), (''into_arg'', JInt (remapArg r a (intoArgIndex a)))]
      else
        [(''kind'', JString (nodeKindName (kind a)))] @ field_doc a @
        [(''type'', JString (typeName a)), (''size'', JInt (int (sizeBytes a)))] @
        (if kind a = NK_Pointer then pointer_doc r a else []) @
        (if recurses a cs
         then [(if kind a = NK_Pointer then ''pointee'' else ''fields'', JArray (map (node_doc r) cs))]
         else []))"

definition slot_doc :: "nat \<Rightarrow> TreeNode \<Rightarrow> json" where
  "slot_doc idx n =
     JObject [(''kind'', JString ''scalar''),
              (''type'', JString (typeName (attrs n) @ abi_label (abiSlots (attrs n)) idx)),
              (''size'', JInt (int (if abiSlots (attrs n) \<noteq> 0 then sizeBytes (attrs n) div abiSlots (attrs n)
                                    else sizeBytes (attrs n))))]"

definition param_docs :: "nat list \<Rightarrow> TreeNode \<Rightarrow> json list" where
  "param_docs r p =
     (if 1 < abiSlots (attrs p) then map (\<lambda>s. slot_doc s p) [0..<abiSlots (attrs p)]
      else [node_doc (Some r) p])"

definition arg_docs :: "FunctionTrees \<Rightarrow> json list" where
  "arg_docs ft =
     (case retSretArg ft of Some s \<Rightarrow> [node_doc (Some (arg_remap ft)) s] | None \<Rightarrow> []) @
     concat (map (param_docs (arg_remap ft)) (params ft))"

definition ret_doc :: "FunctionTrees \<Rightarrow> (string \<times> json) list" where
  "ret_doc ft =
     (''kind'', JString (retKindName (retKind ft))) #
     (case retKind ft of
        RK_PtrAliasArg \<Rightarrow> [(''alias_arg'', JInt (retAliasArg ft))]
      | RK_PtrIntoArg \<Rightarrow> [(''alias_arg'', JInt (retAliasArg ft))]
      | RK_PtrIntoCursor \<Rightarrow> [(''cursor_arg'', JInt (retAliasArg ft))]
      | RK_PtrToStatic \<Rightarrow> [(''copyout_bytes'', JInt (int (retStaticSize ft)))]
      | RK_PtrAlloc \<Rightarrow>
          (case retAllocSizeArgs ft of
             [] \<Rightarrow> []
           | [i] \<Rightarrow> [(''size_arg_index'', JInt i)]
           | is \<Rightarrow> [(''size_arg_indices'', JArray (map JInt is))])
      | RK_Handle \<Rightarrow> [(''handle_class'', JString (retHandleClass ft))]
      | _ \<Rightarrow> [])"

definition function_doc :: "FunctionTrees \<Rightarrow> json" where
  "function_doc ft = JObject
     ([(''name'', JString (funcName ft)),
       (''decision'', JString (if forceLocal ft then ''force_local'' else ''marshal''))] @
      (if isVariadic ft then [(''variadic'', JBool True)] else []) @
      (if forceLocal ft then []
       else [(''ret'', JObject (ret_doc ft)), (''args'', JArray (arg_docs ft))]) @
      [(''warnings'', JArray (map JString (warnings ft)))])"

text \<open>The strings of a record the escapes cover.\<close>

definition printable :: "string \<Rightarrow> bool" where
  "printable s \<longleftrightarrow> list_all (\<lambda>c. 32 \<le> (of_char c :: nat) \<or> c = CHR 0x0A \<or> c = CHR 0x09) s"

fun printable_node :: "TreeNode \<Rightarrow> bool" where
  "printable_node (Node a cs) \<longleftrightarrow>
     printable (fieldName a) \<and> printable (typeName a) \<and> printable (handleClass a) \<and>
     list_all printable_node cs"

definition printable_trees :: "FunctionTrees \<Rightarrow> bool" where
  "printable_trees ft \<longleftrightarrow>
     printable (funcName ft) \<and> printable (retHandleClass ft) \<and> list_all printable (warnings ft) \<and>
     (case retSretArg ft of None \<Rightarrow> True | Some s \<Rightarrow> printable_node s) \<and> list_all printable_node (params ft)"

section \<open>The text denotes the document\<close>

lemma blank_intros [simp, intro]:
  "blank []" "blank nl" "blank (spaces n)" "blank v \<Longrightarrow> blank w \<Longrightarrow> blank (v @ w)"
  by (auto simp: blank_def nl_def spaces_def)

lemma lit_jsonStr: "printable s \<Longrightarrow> lit (concat (map json_escape s)) s"
  by (induction s) (auto simp: printable_def json_escape_def intro: lit.intros)

text \<open>Keys are written without escapes.\<close>

definition plain_key :: "string \<Rightarrow> bool" where
  "plain_key k \<longleftrightarrow> list_all (\<lambda>c. 32 \<le> (of_char c :: nat) \<and> c \<noteq> CHR 0x22 \<and> c \<noteq> CHR 0x5C) k"

lemma lit_plain: "plain_key k \<Longrightarrow> lit k k"
  by (induction k) (auto simp: plain_key_def intro: lit.intros)

lemma denotes_jsonStr [simp]: "printable s \<Longrightarrow> denotes (jsonStr s) (JString s)"
  unfolding jsonStr_def by (intro den_string lit_jsonStr)

lemma denotes_quoted [simp]: "plain_key s \<Longrightarrow> denotes (quoted s) (JString s)"
  unfolding quoted_def by (intro den_string lit_plain)

lemma denotes_nat [simp]: "denotes (to_string n) (JInt (int n))"
  using den_int [of "int n"] by (simp add: to_string_int_def)

lemma denotes_bool [simp]: "denotes (bool_text b) (JBool b)"
  by (cases b) (simp_all add: bool_text_def den_true den_false)

lemma member_of_member: "plain_key k \<Longrightarrow> denotes t v \<Longrightarrow> blank w \<Longrightarrow> member_of (w @ member k t) (k, v)"
  using mem_pair [OF lit_plain, of k t v w "[]"] by (simp add: member_def quoted_def)

lemma member_of_member' [simp]: "plain_key k \<Longrightarrow> denotes t v \<Longrightarrow> member_of (member k t) (k, v)"
  using member_of_member [of k t v "[]"] by simp

inductive_cases member_ofE: "member_of t kv"

lemma member_blank:
  assumes "member_of t kv" and "blank w"
  shows "member_of (w @ t) kv"
proof -
  from assms(1) obtain k s t' v w1 w2 where "t = w1 @ dq @ k @ dq @ w2 @ '':'' @ t'" "kv = (s, v)"
    "lit k s" "denotes t' v" "blank w1" "blank w2"
    by (rule member_ofE) auto
  with assms(2) mem_pair [of k s t' v "w @ w1" w2] show ?thesis by simp
qed

lemma members_commas: "list_all2 member_of ts kvs \<Longrightarrow> ts \<noteq> [] \<Longrightarrow> members_of (commas ts) kvs"
proof (induction ts arbitrary: kvs rule: commas.induct)
  case (2 x)
  then show ?case by (auto simp: list_all2_Cons1 intro: mems_one)
next
  case (3 x y zs)
  then obtain kv kvs' where "kvs = kv # kvs'" "member_of x kv" "list_all2 member_of (y # zs) kvs'"
    by (auto simp: list_all2_Cons1)
  with 3 mems_more [of x kv "commas (y # zs)" kvs'] show ?case by simp
qed simp

lemma entries_commas: "list_all2 denotes ts vs \<Longrightarrow> ts \<noteq> [] \<Longrightarrow> entries_of (commas ts) vs"
proof (induction ts arbitrary: vs rule: commas.induct)
  case (2 x)
  then show ?case by (auto simp: list_all2_Cons1 intro: ents_one)
next
  case (3 x y zs)
  then obtain v vs' where "vs = v # vs'" "denotes x v" "list_all2 denotes (y # zs) vs'"
    by (auto simp: list_all2_Cons1)
  with 3 ents_more [of x v "commas (y # zs)" vs'] show ?case by simp
qed simp

text \<open>White space after the last entry belongs to that entry.\<close>

lemma denotes_pre: "denotes t v \<Longrightarrow> blank w \<Longrightarrow> denotes (w @ t) v"
  using den_blank [of t v w "[]"] by simp

lemma denotes_post: "denotes t v \<Longrightarrow> blank w \<Longrightarrow> denotes (t @ w) v"
  using den_blank [of t v "[]" w] by simp

lemma member_post:
  assumes "member_of t kv" and "blank w"
  shows "member_of (t @ w) kv"
proof -
  from assms(1) obtain k s t' v w1 w2 where "t = w1 @ dq @ k @ dq @ w2 @ '':'' @ t'" "kv = (s, v)"
    "lit k s" "denotes t' v" "blank w1" "blank w2"
    by (rule member_ofE) auto
  with denotes_post [OF this(4) assms(2)] mem_pair [of k s "t' @ w" v w1 w2] show ?thesis by simp
qed

lemma members_post: "members_of t kvs \<Longrightarrow> blank w \<Longrightarrow> members_of (t @ w) kvs"
proof (induction kvs arbitrary: t)
  case (Cons kv kvs)
  from Cons.prems(1) show ?case
  proof (cases rule: members_of.cases)
    case mems_one
    with denotes_member_of_members_of_entries_of.mems_one [OF member_post [OF _ Cons.prems(2)]] show ?thesis by simp
  next
    case (mems_more t' ts)
    with Cons denotes_member_of_members_of_entries_of.mems_more [of t' kv "ts @ w" kvs] show ?thesis by simp
  qed
qed (auto elim: members_of.cases)

lemma entries_post: "entries_of t vs \<Longrightarrow> blank w \<Longrightarrow> entries_of (t @ w) vs"
proof (induction vs arbitrary: t)
  case (Cons v vs)
  from Cons.prems(1) show ?case
  proof (cases rule: entries_of.cases)
    case ents_one
    with Cons.prems(2) denotes_post show ?thesis by (auto intro: denotes_member_of_members_of_entries_of.ents_one)
  next
    case (ents_more t' ts)
    with Cons denotes_member_of_members_of_entries_of.ents_more [of t' v "ts @ w" vs] show ?thesis by simp
  qed
qed (auto elim: entries_of.cases)

lemma denotes_object:
  "list_all2 member_of ts kvs \<Longrightarrow> ts \<noteq> [] \<Longrightarrow> blank w \<Longrightarrow> denotes (''{'' @ commas ts @ w @ ''}'') (JObject kvs)"
  using den_object [OF members_post [OF members_commas]] by simp

lemma denotes_array:
  assumes "list_all2 denotes ts vs" and "blank w"
  shows "denotes (''['' @ commas ts @ w @ '']'') (JArray vs)"
proof (cases "ts = []")
  case True
  with assms den_no_entries [of w] show ?thesis by simp
next
  case False
  with assms den_array [OF entries_post [OF entries_commas]] show ?thesis by simp
qed

lemma denotes_entry_lines:
  assumes "list_all2 denotes ts vs" and "blank w"
  shows "denotes (''['' @ entry_lines ts @ w @ '']'') (JArray vs)"
proof -
  from assms have "list_all2 denotes (map (\<lambda>e. nl @ e) ts) vs"
    by (auto simp: list_all2_map1 intro: denotes_pre elim!: list_all2_mono)
  from denotes_array [OF this, of "nl @ w"] assms show ?thesis by (simp add: entry_lines_def)
qed

lemma plain_keys [simp]:
  "plain_key ''kind''" "plain_key ''field''" "plain_key ''offset''" "plain_key ''touched''"
  "plain_key ''handle_class''" "plain_key ''into_arg''" "plain_key ''type''" "plain_key ''size''"
  "plain_key ''dir''" "plain_key ''size_kind''" "plain_key ''terminator''" "plain_key ''size_field_index''"
  "plain_key ''size_arg_index''" "plain_key ''const_size''" "plain_key ''shallow''" "plain_key ''cursor''"
  "plain_key ''pointee''" "plain_key ''fields''" "plain_key ''name''" "plain_key ''decision''"
  "plain_key ''variadic''" "plain_key ''ret''" "plain_key ''args''" "plain_key ''warnings''"
  "plain_key ''alias_arg''" "plain_key ''cursor_arg''" "plain_key ''copyout_bytes''"
  "plain_key ''size_arg_indices''" "plain_key ''module''" "plain_key ''function_count''"
  "plain_key ''functions''" "plain_key ''handle''" "plain_key ''ptr_into_arg''" "plain_key ''null''"
  "plain_key ''scalar''"
  by (simp_all add: plain_key_def)

lemma printable_names [simp]:
  "printable (nodeKindName k)" "printable (dirName d)" "printable (sizeKindName z)" "printable (retKindName rk)"
  "printable ''force_local''" "printable ''marshal''"
proof -
  show "printable (nodeKindName k)" by (cases k) (simp_all add: printable_def)
  show "printable (dirName d)" by (cases d) (simp_all add: printable_def)
  show "printable (sizeKindName z)" by (cases z) (simp_all add: printable_def)
  show "printable (retKindName rk)" by (cases rk) (simp_all add: printable_def)
qed (simp_all add: printable_def)

lemma printable_append [simp]: "printable (s @ t) \<longleftrightarrow> printable s \<and> printable t"
  by (simp add: printable_def)

lemma printable_to_string [simp]: "printable (to_string n)"
  using to_string_digits [of _ n] by (fastforce simp: printable_def list_all_iff)

lemma printable_abi_label [simp]: "printable (abi_label n i)"
  using printable_to_string [of i] by (auto simp: abi_label_def printable_def)

text \<open>Each group of members against its part of the document.\<close>

lemma field_members_ok: "printable (fieldName a) \<Longrightarrow> list_all2 member_of (field_members a) (field_doc a)"
  by (auto simp: field_members_def field_doc_def)

lemma handle_members_ok:
  assumes "printable (fieldName a)" and "printable (handleClass a)"
  shows "list_all2 member_of (handle_members a)
    ([(''kind'', JString ''handle'')] @ field_doc a @ [(''handle_class'', JString (handleClass a))])"
  unfolding handle_members_def using assms
  by (intro list_all2_appendI field_members_ok) auto

lemma pointer_members_ok: "list_all2 member_of (pointer_members r a) (pointer_doc r a)"
  unfolding pointer_members_def pointer_doc_def
  by (intro list_all2_appendI) (auto simp: den_int)

lemma node_members_ok:
  assumes "printable (fieldName a)" and "printable (typeName a)"
  shows "list_all2 member_of (node_members r a)
    ([(''kind'', JString (nodeKindName (kind a)))] @ field_doc a @
     [(''type'', JString (typeName a)), (''size'', JInt (int (sizeBytes a)))] @
     (if kind a = NK_Pointer then pointer_doc r a else []))"
  unfolding node_members_def using assms
  by (intro list_all2_appendI field_members_ok) (simp_all add: pointer_members_ok)

lemma jsonNode_ok: "printable_node n \<Longrightarrow> denotes (jsonNode r ind n) (node_doc r n)"
proof (induction r n arbitrary: ind rule: node_doc.induct)
  case (1 r a cs)
  then have p: "printable (fieldName a)" "printable (typeName a)" "printable (handleClass a)"
    and cs: "list_all printable_node cs" by simp_all
  have kids: "list_all2 denotes (map (jsonNode r (Suc ind)) cs) (map (node_doc r) cs)"
    if "\<not> isHandle a" "\<not> ptrIntoArg a" "recurses a cs"
    using "1.IH" [OF that] cs by (auto simp: list_all2_conv_all_nth list_all_length)
  consider "isHandle a" | "\<not> isHandle a" "ptrIntoArg a" | "\<not> isHandle a" "\<not> ptrIntoArg a" by blast
  then have "denotes (''{'' @ commas (if isHandle a then handle_members a
      else if ptrIntoArg a then [member ''kind'' (quoted ''ptr_into_arg''),
                member ''into_arg'' (to_string_int (remapArg r a (intoArgIndex a)))]
      else node_members r a @
        (if recurses a cs then
           [member (if kind a = NK_Pointer then ''pointee'' else ''fields'')
              (''['' @ entry_lines (map (jsonNode r (Suc ind)) cs) @ spaces (2 * ind) @ '']'')]
         else [])) @ [] @ ''}'') (node_doc r (Node a cs))"
  proof cases
    case 1
    with p show ?thesis unfolding node_doc.simps
      by (intro denotes_object) (simp_all only: if_True handle_members_ok, simp_all add: handle_members_def)
  next
    case 2
    then show ?thesis unfolding node_doc.simps
      by (intro denotes_object) (auto simp: den_int)
  next
    case 3
    have "list_all2 member_of
        (if recurses a cs then [member (if kind a = NK_Pointer then ''pointee'' else ''fields'')
            (''['' @ entry_lines (map (jsonNode r (Suc ind)) cs) @ spaces (2 * ind) @ '']'')] else [])
        (if recurses a cs then [(if kind a = NK_Pointer then ''pointee'' else ''fields'', JArray (map (node_doc r) cs))]
         else [])"
      using denotes_entry_lines [OF kids [OF 3]] by (auto simp del: append.simps)
    from list_all2_appendI [OF node_members_ok [OF p(1,2)] this] 3 show ?thesis unfolding node_doc.simps
      by (intro denotes_object) (simp_all add: node_members_def)
  qed
  from denotes_pre [OF this, of "spaces (2 * ind)"] show ?case by (simp split: if_splits)
qed

lemma denotes_object0:
  "list_all2 member_of ts kvs \<Longrightarrow> ts \<noteq> [] \<Longrightarrow> denotes (''{'' @ commas ts @ ''}'') (JObject kvs)"
  using denotes_object [of ts kvs "[]"] by simp

lemma members_blank: "list_all2 member_of ts kvs \<Longrightarrow> blank w \<Longrightarrow> list_all2 member_of (map (\<lambda>m. w @ m) ts) kvs"
  by (simp add: list_all2_conv_all_nth member_blank)

lemma jsonAbiSlot_ok: "printable (typeName (attrs n)) \<Longrightarrow> denotes (jsonAbiSlot ind idx n) (slot_doc idx n)"
  unfolding jsonAbiSlot_def slot_doc_def Let_def
  by (intro denotes_pre denotes_object0) simp_all

lemma printable_node_attrs: "printable_node n \<Longrightarrow> printable (typeName (attrs n))"
  by (cases n) simp

lemma param_texts_ok: "printable_node p \<Longrightarrow> list_all2 denotes (param_texts r p) (param_docs r p)"
  by (simp add: param_texts_def param_docs_def list_all2_conv_all_nth jsonAbiSlot_ok jsonNode_ok printable_node_attrs)

lemma list_all2_concat_map:
  "(\<And>x. x \<in> set xs \<Longrightarrow> list_all2 P (f x) (g x)) \<Longrightarrow> list_all2 P (concat (map f xs)) (concat (map g xs))"
  by (induction xs) (auto intro: list_all2_appendI)

lemma arg_texts_ok: "printable_trees ft \<Longrightarrow> list_all2 denotes (arg_texts ft) (arg_docs ft)"
  unfolding arg_texts_def arg_docs_def Let_def
  by (intro list_all2_appendI list_all2_concat_map param_texts_ok)
    (auto simp: printable_trees_def list_all_iff jsonNode_ok split: option.splits)

lemma args_ok:
  assumes "printable_trees ft"
  shows "denotes (''['' @ (if arg_texts ft \<noteq> [] then entry_lines (arg_texts ft) @ spaces 6 else []) @ '']'')
    (JArray (arg_docs ft))"
proof (cases "arg_texts ft = []")
  case True
  with arg_texts_ok [OF assms] den_no_entries [of "[]"] show ?thesis by simp
next
  case False
  with denotes_entry_lines [OF arg_texts_ok [OF assms], of "spaces 6"] show ?thesis by simp
qed

lemma ints_ok: "denotes (''['' @ commas (map to_string_int is) @ '']'') (JArray (map JInt is))"
  using denotes_array [of "map to_string_int is" "map JInt is" "[]"] by (simp add: list_all2_conv_all_nth)

lemma ret_members_ok: "printable (retHandleClass ft) \<Longrightarrow> list_all2 member_of (ret_members ft) (ret_doc ft)"
  using ints_ok [of "retAllocSizeArgs ft"]
  by (cases "retKind ft") (auto simp: ret_members_def ret_doc_def simp del: retKindName.simps split: list.splits)

lemma ret_ok: "printable (retHandleClass ft) \<Longrightarrow> denotes (''{'' @ commas (ret_members ft) @ ''}'') (JObject (ret_doc ft))"
  by (intro denotes_object0 ret_members_ok) (simp_all add: ret_members_def)

lemma jsonWarnings_ok:
  assumes "list_all printable (warnings ft)"
  shows "member_of (jsonWarnings ft) (''warnings'', JArray (map JString (warnings ft)))"
proof -
  have "list_all2 denotes (map (\<lambda>w. nl @ spaces 8 @ jsonStr w) (warnings ft)) (map JString (warnings ft))"
    using assms by (simp add: list_all2_conv_all_nth list_all_length denotes_pre flip: append_assoc)
  from denotes_array [OF this, of "if warnings ft \<noteq> [] then nl @ spaces 6 else []"]
  show ?thesis unfolding jsonWarnings_def by (intro member_of_member') simp_all
qed

lemma jsonFunction_ok:
  assumes "printable_trees ft"
  shows "denotes (jsonFunction ft) (function_doc ft)"
proof -
  from assms have p: "printable (funcName ft)" "printable (retHandleClass ft)" "list_all printable (warnings ft)"
    by (simp_all add: printable_trees_def)
  have "list_all2 member_of (function_members ft)
    ([(''name'', JString (funcName ft)),
       (''decision'', JString (if forceLocal ft then ''force_local'' else ''marshal''))] @
      (if isVariadic ft then [(''variadic'', JBool True)] else []) @
      (if forceLocal ft then []
       else [(''ret'', JObject (ret_doc ft)), (''args'', JArray (arg_docs ft))]) @
      [(''warnings'', JArray (map JString (warnings ft)))])" (is "list_all2 _ _ ?d")
    unfolding function_members_def using p ret_ok [OF p(2)] args_ok [OF assms] jsonWarnings_ok [OF p(3)]
    by (intro list_all2_appendI) (auto simp del: append.simps)
  then have "list_all2 member_of (map (\<lambda>m. nl @ spaces 6 @ m) (function_members ft)) ?d"
    using members_blank [of _ _ "nl @ spaces 6"] by simp
  from denotes_object [OF this, of "nl @ spaces 4"] have "denotes (''{'' @
      commas (map (\<lambda>m. nl @ spaces 6 @ m) (function_members ft)) @ (nl @ spaces 4) @ ''}'') (function_doc ft)"
    by (simp add: function_members_def function_doc_def)
  from denotes_pre [OF this, of "spaces 4"] show ?thesis by (simp add: jsonFunction_def)
qed

text \<open>C17: The text written with \<^verbatim>\<open>--json\<close> is a JSON document, whatever the records, as long as their
  strings have no control character other than newline and tab. It denotes the object with the
  module's label, the number of records and, in order, the document of every record.\<close>

theorem jsonDocument_denotes:
  assumes "printable label" and "list_all printable_trees records"
  shows "denotes (jsonDocument label records)
    (JObject [(''module'', JString label), (''function_count'', JInt (int (length records))),
       (''functions'', JArray (map function_doc records))])"
proof -
  have "list_all2 denotes (map jsonFunction records) (map function_doc records)"
    using assms(2) by (simp add: list_all2_conv_all_nth list_all_length jsonFunction_ok)
  from denotes_entry_lines [OF this, of "spaces 2"]
  have "list_all2 member_of (map (\<lambda>m. (nl @ spaces 2) @ m)
      [member ''module'' (jsonStr label), member ''function_count'' (to_string (length records)),
       member ''functions'' (''['' @ entry_lines (map jsonFunction records) @ spaces 2 @ '']'')])
    [(''module'', JString label), (''function_count'', JInt (int (length records))),
       (''functions'', JArray (map function_doc records))]"
    using assms(1) by (simp add: member_of_member del: append_assoc append.simps)
  from denotes_post [OF denotes_object [OF this, of nl], of nl] show ?thesis
    by (simp add: jsonDocument_def)
qed

section \<open>Positions of the arguments\<close>

lemma length_param_docs: "length (param_docs r p) = max 1 (abiSlots (attrs p))"
  by (simp add: param_docs_def)

lemma length_arg_docs: "length (arg_docs ft) = raw_slots ft"
  by (simp add: arg_docs_def raw_slots_def length_concat length_param_docs o_def split: option.splits)

lemma length_remap_from [simp]: "length (remap_from pos ps) = length ps"
  by (induction ps arbitrary: pos) simp_all

lemma remap_from_ge: "i < length ps \<Longrightarrow> pos \<le> remap_from pos ps ! i"
proof (induction ps arbitrary: pos i)
  case (Cons p ps)
  show ?case
  proof (cases i)
    case (Suc j)
    with Cons.prems Cons.IH [of j "pos + max 1 (abiSlots (attrs p))"] show ?thesis by simp
  qed simp
qed simp

lemma param_position:
  "i < length ps \<Longrightarrow> s < max 1 (abiSlots (attrs (ps ! i))) \<Longrightarrow>
   concat (map (param_docs r) ps) ! (remap_from pos ps ! i - pos + s) = param_docs r (ps ! i) ! s"
proof (induction ps arbitrary: pos i)
  case (Cons p ps)
  show ?case
  proof (cases i)
    case 0
    with Cons.prems show ?thesis by (simp add: nth_append length_param_docs)
  next
    case (Suc j)
    let ?pos = "pos + max 1 (abiSlots (attrs p))"
    from Suc Cons.prems have j: "j < length ps" by simp
    with remap_from_ge [of j ps ?pos] have ge: "?pos \<le> remap_from ?pos ps ! j" .
    then have "remap_from ?pos ps ! j - pos + s - max 1 (abiSlots (attrs p)) = remap_from ?pos ps ! j - ?pos + s"
      and "\<not> remap_from ?pos ps ! j - pos + s < max 1 (abiSlots (attrs p))" by simp_all
    with Cons.IH [OF j, of ?pos] Cons.prems Suc show ?thesis by (simp add: nth_append length_param_docs)
  qed
qed simp

lemma arg_position:
  assumes "i < length (params ft)" and "s < max 1 (abiSlots (attrs (params ft ! i)))"
  shows "arg_docs ft ! (arg_remap ft ! i + s) = param_docs (arg_remap ft) (params ft ! i) ! s"
proof -
  define pos where "pos = (if retSretArg ft \<noteq> None then 1 else 0 :: nat)"
  have remap: "arg_remap ft = remap_from pos (params ft)" by (simp add: arg_remap_def pos_def)
  have ge: "pos \<le> arg_remap ft ! i" using assms(1) by (simp add: remap remap_from_ge)
  obtain hd where hd: "arg_docs ft = hd @ concat (map (param_docs (arg_remap ft)) (params ft))" "length hd = pos"
    by (cases "retSretArg ft") (auto simp: arg_docs_def pos_def)
  then have "arg_docs ft ! (arg_remap ft ! i + s) =
      concat (map (param_docs (arg_remap ft)) (params ft)) ! (arg_remap ft ! i - pos + s)"
    using ge by (simp add: nth_append)
  with param_position [OF assms, of _ pos] show ?thesis by (simp add: remap)
qed

lemma remapArg_position: "fieldName a = [] \<Longrightarrow> q < length r \<Longrightarrow> remapArg (Some r) a (int q) = int (r ! q)"
  by (simp add: remapArg_def)

text \<open>C7: The arguments of an emitted record are the raw slots of the call, in order: as many as the
  function has, at most six for a function that is marshalled. The entry at the remapped position
  of a parameter describes that parameter, or its first slot if it takes several; and a size or
  target index that names a parameter is written as the position of that parameter.\<close>

theorem jsonFunction_args:
  assumes "inferFunction ann F ft = Some ft'"
  shows "length (arg_docs ft') = raw_slots ft' \<and> (forceLocal ft' \<or> length (arg_docs ft') \<le> 6)
    \<and> (\<forall>i < length (params ft'). arg_docs ft' ! (arg_remap ft' ! i) =
         (if abiSlots (attrs (params ft' ! i)) \<le> 1 then node_doc (Some (arg_remap ft')) (params ft' ! i)
          else slot_doc 0 (params ft' ! i)))
    \<and> (\<forall>a q. fieldName a = [] \<and> q < length (params ft') \<longrightarrow>
         remapArg (Some (arg_remap ft')) a (int q) = int (arg_remap ft' ! q))"
proof (intro conjI allI impI)
  show "length (arg_docs ft') = raw_slots ft'" by (rule length_arg_docs)
  show "forceLocal ft' \<or> length (arg_docs ft') \<le> 6"
    using inferFunction_verdict [OF assms] by (auto simp: length_arg_docs kMaxRawArgSlots_def)
  fix i assume "i < length (params ft')"
  from arg_position [OF this, of 0] show "arg_docs ft' ! (arg_remap ft' ! i) =
         (if abiSlots (attrs (params ft' ! i)) \<le> 1 then node_doc (Some (arg_remap ft')) (params ft' ! i)
          else slot_doc 0 (params ft' ! i))"
    by (simp add: param_docs_def)
next
  fix a :: tree_attrs and q assume "fieldName a = [] \<and> q < length (params ft')"
  then show "remapArg (Some (arg_remap ft')) a (int q) = int (arg_remap ft' ! q)"
    by (simp add: remapArg_position arg_remap_def)
qed

section \<open>Examples\<close>

text \<open>\<^verbatim>\<open>char *skip(long double x, char *p) { return p; }\<close>\<close>

definition skip_fun :: llfun where
  "skip_fun = list_fun
     [(VArgument 0, TyFP128), (VArgument 1, TyPtr), (IReturn (Some 1), TyVoid)]
     [plain_arg 0, plain_arg 1] TyPtr"

definition skip_trees :: FunctionTrees where
  "skip_trees = default_trees\<lparr> funcName := ''skip'', ret := Some char_ptr,
     params := [Node (default_attrs\<lparr> kind := NK_Scalar, typeName := ''long double'', sizeBytes := 16 \<rparr>) [],
                char_ptr] \<rparr>"

definition skip_record :: FunctionTrees where
  "skip_record = the (inferFunction default_annotations skip_fun skip_trees)"

lemma skip_run: "inferFunction default_annotations skip_fun skip_trees \<noteq> None" "\<not> forceLocal skip_record"
  by code_simp+

theorem jsonFunction_args_witness:
  "inferFunction default_annotations skip_fun skip_trees = Some skip_record \<and> \<not> forceLocal skip_record
   \<and> length (arg_docs skip_record) = 3 \<and> raw_slots skip_record \<le> 6"
proof -
  have run: "inferFunction default_annotations skip_fun skip_trees = Some skip_record"
    using skip_run by (auto simp: skip_record_def)
  have "raw_slots skip_record = 3" by code_simp
  with run skip_run jsonFunction_args [OF run] show ?thesis by simp
qed

theorem jsonDocument_denotes_witness:
  "denotes (jsonDocument ''libm'' [skip_record])
    (JObject [(''module'', JString ''libm''), (''function_count'', JInt 1),
       (''functions'', JArray [function_doc skip_record])])"
proof -
  have "printable ''libm''" "list_all printable_trees [skip_record]" by code_simp+
  from jsonDocument_denotes [OF this] show ?thesis by simp
qed


end
