(* ===== verification/Driver.thy ===== *)
theory Driver
  imports Emit
begin

text \<open>
  The driver \<^verbatim>\<open>main\<close> of \<^verbatim>\<open>main.cpp\<close>: options, the export filter, the collection of one record per
  exported name over all modules, and the report. What it reads from files and from LLVM's IR
  reader are arguments.
\<close>

section \<open>Inputs\<close>

record ir_function =
  fn_name :: string
  fn_declaration :: bool
  fn_local :: bool
  fn_ir :: llfun

text \<open>An alias and the object it stands for, when that is a function.\<close>

record ir_alias =
  al_name :: string
  al_local :: bool
  al_object :: "ir_function option"

record ir_module =
  md_functions :: "ir_function list"
  md_aliases :: "ir_alias list"

record tool_options =
  InputFiles :: "string list"
  AsJson :: bool
  ShowAll :: bool
  OutFile :: string
  ModuleName :: string
  AnnoFile :: string
  ExportsFile :: string

text \<open>The outside of the program: what a file reads as, the JSON and the IR parsers, and the message
  when the output cannot be opened.\<close>

record tool_world =
  w_read :: "string \<Rightarrow> string option"
  w_json :: "string \<Rightarrow> string + json"
  w_open_error :: "string \<Rightarrow> string option"
  w_parseIRFile :: "string \<Rightarrow> ir_module option"

record tool_result =
  r_exit :: nat
  r_out :: string
  r_err :: string

section \<open>The export filter\<close>

text \<open>\<^verbatim>\<open>std::getline\<close> until it fails; \<open>cur\<close> is the line being read, backwards.\<close>

fun getlines :: "string \<Rightarrow> string \<Rightarrow> string list" where
  "getlines cur [] = (if cur = [] then [] else [rev cur])"
| "getlines cur (c # cs) = (if c = CHR 0x0A then rev cur # getlines [] cs else getlines (c # cur) cs)"

definition trim :: "string \<Rightarrow> string" where
  "trim s =
     (let sp = (\<lambda>c. c \<in> {CHR '' '', CHR 0x09, CHR 0x0A, CHR 0x0B, CHR 0x0C, CHR 0x0D})
      in rev (dropWhile sp (rev (dropWhile sp s))))"

definition exports_of :: "string \<Rightarrow> string list" where
  "exports_of txt = remdups (filter (\<lambda>l. l \<noteq> []) (map trim (getlines [] txt)))"

section \<open>Collecting the records\<close>

definition buildRecord :: "Annotations \<Rightarrow> string \<Rightarrow> ir_function \<Rightarrow> FunctionTrees option option" where
  "buildRecord ann name f =
     (case ll_subprogram (fn_ir f) of
        None \<Rightarrow> Some None
      | Some sp \<Rightarrow>
        (case buildFunctionTrees (ll_dwarf (fn_ir f)) (Some sp) 6 of
           None \<Rightarrow> None
         | Some None \<Rightarrow> Some None
         | Some (Some ft) \<Rightarrow> map_option Some (inferFunction ann (fn_ir f) (ft\<lparr> funcName := name \<rparr>))))"

text \<open>The records so far and the names in \<^verbatim>\<open>emitted\<close>.\<close>

type_synonym collected = "FunctionTrees list \<times> string list"

definition wanted :: "string list option \<Rightarrow> collected \<Rightarrow> string \<Rightarrow> bool" where
  "wanted exports st n \<longleftrightarrow>
     (case exports of None \<Rightarrow> True | Some es \<Rightarrow> n \<in> set es) \<and> n \<notin> set (snd st)"

definition emit :: "Annotations \<Rightarrow> string \<Rightarrow> ir_function \<Rightarrow> collected \<Rightarrow> collected option" where
  "emit ann name f st =
     (case buildRecord ann name f of
        None \<Rightarrow> None
      | Some None \<Rightarrow> Some st
      | Some (Some ft) \<Rightarrow> Some (fst st @ [ft], name # snd st))"

definition visit_function ::
  "Annotations \<Rightarrow> bool \<Rightarrow> string list option \<Rightarrow> ir_function \<Rightarrow> collected \<Rightarrow> collected option" where
  "visit_function ann showAll exports f st =
     (if fn_declaration f then Some st
      else if \<not> showAll \<and> fn_local f then Some st
      else if \<not> wanted exports st (fn_name f) then Some st
      else emit ann (fn_name f) f st)"

definition visit_alias ::
  "Annotations \<Rightarrow> bool \<Rightarrow> string list option \<Rightarrow> ir_alias \<Rightarrow> collected \<Rightarrow> collected option" where
  "visit_alias ann showAll exports ga st =
     (if \<not> showAll \<and> al_local ga then Some st
      else if \<not> wanted exports st (al_name ga) then Some st
      else case al_object ga of
             None \<Rightarrow> Some st
           | Some f \<Rightarrow> if fn_declaration f then Some st else emit ann (al_name ga) f st)"

fun ofold :: "('a \<Rightarrow> 's \<Rightarrow> 's option) \<Rightarrow> 'a list \<Rightarrow> 's \<Rightarrow> 's option" where
  "ofold f [] s = Some s"
| "ofold f (x # xs) s = (case f x s of None \<Rightarrow> None | Some s' \<Rightarrow> ofold f xs s')"

definition visit_module ::
  "Annotations \<Rightarrow> bool \<Rightarrow> string list option \<Rightarrow> ir_module \<Rightarrow> collected \<Rightarrow> collected option" where
  "visit_module ann showAll exports md st =
     (case ofold (visit_function ann showAll exports) (md_functions md) st of
        None \<Rightarrow> None
      | Some st' \<Rightarrow> ofold (visit_alias ann showAll exports) (md_aliases md) st')"

text \<open>Unreadable modules are skipped.\<close>

definition collect ::
  "Annotations \<Rightarrow> bool \<Rightarrow> string list option \<Rightarrow> ir_module option list \<Rightarrow> collected option" where
  "collect ann showAll exports mods =
     ofold (visit_module ann showAll exports) (List.map_filter id mods) ([], [])"

section \<open>The program\<close>

definition failed :: "string \<Rightarrow> tool_result" where
  "failed msg = \<lparr> r_exit = 1, r_out = [], r_err = ''marshal-infer: '' @ msg @ nl \<rparr>"

definition output_text :: "tool_options \<Rightarrow> FunctionTrees list \<Rightarrow> string" where
  "output_text opts records =
     (if AsJson opts
      then jsonDocument (if ModuleName opts = [] then hd (InputFiles opts) else ModuleName opts) records
      else concat (map printFunctionTree records))"

definition report_text :: "nat \<Rightarrow> nat \<Rightarrow> nat \<Rightarrow> string list option \<Rightarrow> string" where
  "report_text n modOk modBad exports =
     ''marshal-infer: '' @ to_string n @ '' function(s) from '' @ to_string modOk @ '' module(s)'' @
     (if modBad \<noteq> 0 then '' ('' @ to_string modBad @ '' unreadable)'' else []) @
     (case exports of
        None \<Rightarrow> []
      | Some es \<Rightarrow> ''; '' @ to_string n @ ''/'' @ to_string (length es) @ '' exported symbols covered'') @ nl"

definition run_tool ::
  "tool_options \<Rightarrow> tool_world \<Rightarrow> Annotations \<Rightarrow> string list option \<Rightarrow> tool_result option" where
  "run_tool opts w ann exports =
     (let mods = map (w_parseIRFile w) (InputFiles opts) in
      map_option
        (\<lambda>st. \<lparr> r_exit = 0, r_out = output_text opts (fst st),
                r_err = report_text (length (fst st)) (length (filter (\<lambda>m. m \<noteq> None) mods))
                          (length (filter (\<lambda>m. m = None) mods)) exports \<rparr>)
        (collect ann (ShowAll opts) exports mods))"

definition tool_main :: "tool_options \<Rightarrow> tool_world \<Rightarrow> tool_result option" where
  "tool_main opts w =
     (case (if AnnoFile opts = [] then Inr default_annotations
            else loadAnnotationsFile (w_json w) (AnnoFile opts) (w_read w (AnnoFile opts)) default_annotations) of
        Inl aerr \<Rightarrow> Some (failed (''--annotations '' @ AnnoFile opts @ '': '' @ aerr))
      | Inr ann \<Rightarrow>
        (case (if OutFile opts = [] then None else w_open_error w (OutFile opts)) of
           Some ec \<Rightarrow> Some (failed (''cannot open '' @ OutFile opts @ '': '' @ ec))
         | None \<Rightarrow>
           if ExportsFile opts = [] then run_tool opts w ann None
           else case w_read w (ExportsFile opts) of
                  None \<Rightarrow> Some (failed (''cannot read exports '' @ ExportsFile opts))
                | Some txt \<Rightarrow> run_tool opts w ann (Some (exports_of txt))))"

section \<open>One record\<close>

lemma buildFunctionTrees_fresh:
  assumes "buildFunctionTrees g spo d = Some (Some ft)"
  shows "list_all tree_fresh (params ft) \<and> retSretArg ft = None"
proof -
  from assms obtain sp rt argTys where "spo = Some sp" "sp_types sp = Some (rt # argTys)"
    by (auto simp: buildFunctionTrees_def split: option.splits list.splits)
  with assms obtain rtree ps where "omap (\<lambda>t. buildTreeFromDIType g t d) (takeWhile (\<lambda>t. t \<noteq> None) argTys) = Some ps"
    and ft: "ft = default_trees\<lparr>funcName := sp_name sp, ret := rtree, params := ps\<rparr>"
    by (simp add: buildFunctionTrees_def split: option.split_asm) blast+
  from omap_Some_set [OF this(1)] build_shape_fresh have "list_all tree_fresh ps"
    by (fastforce simp: list_all_iff)
  with ft show ?thesis by (simp add: default_trees_def)
qed

lemma buildFunctionTrees_total:
  assumes "wrappers_wf g"
  shows "buildFunctionTrees g spo d \<noteq> None"
proof -
  have "omap (\<lambda>t. buildTreeFromDIType g t d) ts \<noteq> None" for ts
    using build_total [OF assms] by (intro omap_total) auto
  moreover have "buildTreeFromDIType g t d \<noteq> None" for t
    using build_total [OF assms] by fastforce
  ultimately show ?thesis
    by (simp add: buildFunctionTrees_def del: not_None_eq split: option.split list.split)
qed

lemma staticReturn_name: "funcName (staticReturn g ft) = funcName ft"
  by (simp add: staticReturn_def force_local_def push_warning_def split: option.split)

lemma inferPtrReturn_name: "inferPtrReturn ann F off ft = Some ft' \<Longrightarrow> funcName ft' = funcName ft"
  by (auto simp: inferPtrReturn_def Let_def bind_eq_Some_conv staticReturn_name force_local_def push_warning_def
      split: if_splits)

lemma inferReturn_name: "inferReturn ann F off c ft = Some ft' \<Longrightarrow> funcName ft' = funcName ft"
proof -
  assume run: "inferReturn ann F off c ft = Some ft'"
  define g where "g = (if off = 1 \<or> isFP128Ty (ll_retTy F) then lowerAbiReturn F (off = 1) ft else ft)"
  have g: "funcName g = funcName ft" by (simp add: g_def lowerAbiReturn_def push_warning_def Let_def)
  from run show "funcName ft' = funcName ft"
    unfolding inferReturn_def Let_def g_def [symmetric]
    by (auto simp: bind_eq_Some_conv g dest!: inferPtrReturn_name split: if_split_asm)
qed

lemma inferFunction_name:
  assumes "inferFunction ann F ft = Some ft'" and "list_all tree_fresh (params ft)"
  shows "funcName ft' = funcName ft"
proof -
  from assms(1) obtain ft1 ft2 ft3 c where
    1: "inferVariadic F (sret_offset F) ft = Some ft1" and
    2: "inferParams ann F (sret_offset F) [0..<length (params ft1)] (ft1, -1) = Some (ft2, c)" and
    3: "inferReturn ann F (sret_offset F) c (unmappableNet ft2) = Some ft3" and
    4: "ft' = enforceRawArgSlotCap ft3" by (rule inferFunction_stages)
  from inferVariadic_extends [OF 1] have "funcName (trees_frame ft1) = funcName (trees_frame ft)"
    by (simp add: tail_extends_def)
  then have "funcName ft1 = funcName ft" by (simp add: trees_frame_def)
  moreover from inferParams_ok [OF 2] inferVariadic_ok [OF 1 assms(2)]
  have "funcName (param_frame ft2) = funcName (param_frame ft1)" by (simp add: refines_def)
  then have "funcName ft2 = funcName ft1" by (simp add: param_frame_def)
  moreover have "funcName (unmappableNet ft2) = funcName ft2" "funcName (enforceRawArgSlotCap ft3) = funcName ft3"
    by (simp_all add: unmappableNet_def enforceRawArgSlotCap_def force_local_def push_warning_def)
  ultimately show ?thesis using inferReturn_name [OF 3] 4 by simp
qed

lemma buildRecord_ok:
  assumes "buildRecord ann name f = Some (Some ft)"
  obtains ft0 where "inferFunction ann (fn_ir f) ft0 = Some ft" "list_all tree_fresh (params ft0)"
    "retSretArg ft0 = None" "funcName ft = name"
proof -
  from assms obtain g where g: "buildFunctionTrees (ll_dwarf (fn_ir f)) (ll_subprogram (fn_ir f)) 6 = Some (Some g)"
    "inferFunction ann (fn_ir f) (g\<lparr> funcName := name \<rparr>) = Some ft"
    by (auto simp: buildRecord_def split: option.splits)
  with buildFunctionTrees_fresh [OF g(1)] inferFunction_name [OF g(2)] show thesis
    by (intro that [of "g\<lparr> funcName := name \<rparr>"]) simp_all
qed

lemma buildRecord_total:
  assumes "analysable (fn_ir f)"
  shows "buildRecord ann name f \<noteq> None"
proof -
  have "inferFunction ann (fn_ir f) g \<noteq> None" for g using inferFunction_total [OF assms] by fastforce
  moreover have "buildFunctionTrees (ll_dwarf (fn_ir f)) spo 6 \<noteq> None" for spo
    using assms by (intro buildFunctionTrees_total) (simp add: analysable_def)
  ultimately show ?thesis
    by (simp add: buildRecord_def del: not_None_eq split: option.split)
qed

section \<open>The collection\<close>

lemma ofold_keeps:
  assumes "ofold f xs s = Some s'" and "P s"
    and "\<And>x s s'. x \<in> set xs \<Longrightarrow> f x s = Some s' \<Longrightarrow> P s \<Longrightarrow> P s'"
  shows "P s'"
  using assms
proof (induction xs arbitrary: s)
  case (Cons x xs)
  then obtain s1 where s1: "f x s = Some s1" "ofold f xs s1 = Some s'" by (auto split: option.splits)
  moreover have "P s1" using Cons.prems(3) [OF _ s1(1) Cons.prems(2)] by simp
  ultimately show ?case using Cons.IH Cons.prems(3) by (meson list.set_intros(2))
qed simp

lemma ofold_reaches:
  assumes "ofold f xs s = Some s'" and "x \<in> set xs"
    and "\<And>s s'. f x s = Some s' \<Longrightarrow> P s'"
    and "\<And>y s s'. f y s = Some s' \<Longrightarrow> P s \<Longrightarrow> P s'"
  shows "P s'"
  using assms(1,2)
proof (induction xs arbitrary: s)
  case (Cons y ys)
  then obtain s1 where s1: "f y s = Some s1" "ofold f ys s1 = Some s'" by (auto split: option.splits)
  show ?case
  proof (cases "x = y")
    case True
    with s1 assms(3) have "P s1" by blast
    with s1(2) show ?thesis by (rule ofold_keeps) (rule assms(4))
  next
    case False
    with Cons s1 show ?thesis by auto
  qed
qed simp

lemma ofold_total: "(\<And>x s. x \<in> set xs \<Longrightarrow> f x s \<noteq> None) \<Longrightarrow> ofold f xs s \<noteq> None"
  by (induction xs arbitrary: s) (auto split: option.split)

text \<open>The functions a module offers, each under its own name and under its aliases.\<close>

definition offers :: "bool \<Rightarrow> ir_module \<Rightarrow> string \<Rightarrow> ir_function \<Rightarrow> bool" where
  "offers showAll md name f \<longleftrightarrow>
     \<not> fn_declaration f \<and>
     ((f \<in> set (md_functions md) \<and> name = fn_name f \<and> (showAll \<or> \<not> fn_local f))
      \<or> (\<exists>ga \<in> set (md_aliases md). al_object ga = Some f \<and> name = al_name ga \<and> (showAll \<or> \<not> al_local ga)))"

definition offered :: "bool \<Rightarrow> ir_module option list \<Rightarrow> string \<Rightarrow> ir_function \<Rightarrow> bool" where
  "offered showAll mods name f \<longleftrightarrow> (\<exists>md. Some md \<in> set mods \<and> offers showAll md name f)"

definition exported :: "string list option \<Rightarrow> string \<Rightarrow> bool" where
  "exported exports n \<longleftrightarrow> (case exports of None \<Rightarrow> True | Some es \<Rightarrow> n \<in> set es)"

text \<open>What holds of the records at every step; \<open>ok\<close> says where a record may come from.\<close>

definition collected_ok ::
  "Annotations \<Rightarrow> string list option \<Rightarrow> (string \<Rightarrow> ir_function \<Rightarrow> bool) \<Rightarrow> collected \<Rightarrow> bool" where
  "collected_ok ann exports ok st \<longleftrightarrow>
     map funcName (fst st) = rev (snd st) \<and> distinct (snd st) \<and> list_all (exported exports) (snd st)
     \<and> (\<forall>ft \<in> set (fst st). \<exists>f. ok (funcName ft) f \<and> buildRecord ann (funcName ft) f = Some (Some ft))"

lemma emit_keeps:
  assumes "emit ann name f st = Some st'" and "wanted exports st name" and "ok name f"
    and "collected_ok ann exports ok st"
  shows "collected_ok ann exports ok st'"
proof (cases "buildRecord ann name f")
  case (Some fo)
  show ?thesis
  proof (cases fo)
    case None
    with Some assms(1,4) show ?thesis by (simp add: emit_def)
  next
    case (Some ft)
    with \<open>buildRecord ann name f = Some fo\<close> have b: "buildRecord ann name f = Some (Some ft)" by simp
    then have "funcName ft = name" by (rule buildRecord_ok)
    moreover from b assms(1) have "st' = (fst st @ [ft], name # snd st)" by (simp add: emit_def)
    moreover from assms(2) have "exported exports name" "name \<notin> set (snd st)"
      by (simp_all add: wanted_def exported_def)
    moreover have "\<exists>f. ok name f \<and> buildRecord ann name f = Some (Some ft)" using b assms(3) by blast
    ultimately show ?thesis using assms(4) by (simp add: collected_ok_def)
  qed
qed (use assms(1) in \<open>simp add: emit_def\<close>)

lemma visit_function_cases:
  assumes "visit_function ann showAll exports f s = Some s'"
  obtains (skip) "s' = s" | (emit) "\<not> fn_declaration f" "showAll \<or> \<not> fn_local f"
    "wanted exports s (fn_name f)" "emit ann (fn_name f) f s = Some s'"
  using assms by (auto simp: visit_function_def split: if_split_asm)

lemma visit_alias_cases:
  assumes "visit_alias ann showAll exports ga s = Some s'"
  obtains (skip) "s' = s" | (emit) f where "showAll \<or> \<not> al_local ga" "wanted exports s (al_name ga)"
    "al_object ga = Some f" "\<not> fn_declaration f" "emit ann (al_name ga) f s = Some s'"
  using assms by (auto simp: visit_alias_def split: if_split_asm option.split_asm)

lemma visit_module_keeps:
  assumes "visit_module ann showAll exports md st = Some st'" and "collected_ok ann exports ok st"
    and ok: "\<And>name f. offers showAll md name f \<Longrightarrow> ok name f"
  shows "collected_ok ann exports ok st'"
proof -
  obtain st1 where 1: "ofold (visit_function ann showAll exports) (md_functions md) st = Some st1"
    and 2: "ofold (visit_alias ann showAll exports) (md_aliases md) st1 = Some st'"
    using assms(1) by (auto simp: visit_module_def split: option.splits)
  from 1 assms(2) have "collected_ok ann exports ok st1"
  proof (rule ofold_keeps)
    fix f s s' assume f: "f \<in> set (md_functions md)" and s: "collected_ok ann exports ok s"
    assume "visit_function ann showAll exports f s = Some s'"
    then show "collected_ok ann exports ok s'"
    proof (cases rule: visit_function_cases)
      case emit
      with f have "ok (fn_name f) f" by (intro ok) (auto simp: offers_def)
      from emit_keeps [where ok = ok, OF emit(4,3) this s] show ?thesis .
    qed (simp add: s)
  qed
  with 2 show ?thesis
  proof (rule ofold_keeps)
    fix ga s s' assume ga: "ga \<in> set (md_aliases md)" and s: "collected_ok ann exports ok s"
    assume "visit_alias ann showAll exports ga s = Some s'"
    then show "collected_ok ann exports ok s'"
    proof (cases rule: visit_alias_cases)
      case (emit f)
      with ga have "ok (al_name ga) f" by (intro ok) (auto simp: offers_def)
      from emit_keeps [where ok = ok, OF emit(5,2) this s] show ?thesis .
    qed (simp add: s)
  qed
qed

lemma readable_modules: "md \<in> set (List.map_filter id mods) \<longleftrightarrow> Some md \<in> set mods"
  by (force simp: List.map_filter_def)

lemma collect_ok:
  assumes "collect ann showAll exports mods = Some st"
  shows "collected_ok ann exports (offered showAll mods) st"
  using assms unfolding collect_def
proof (rule ofold_keeps)
  show "collected_ok ann exports (offered showAll mods) ([], [])" by (simp add: collected_ok_def)
  fix md s s' assume md: "md \<in> set (List.map_filter id mods)" and
    "visit_module ann showAll exports md s = Some s'" "collected_ok ann exports (offered showAll mods) s"
  then show "collected_ok ann exports (offered showAll mods) s'"
    by - (rule visit_module_keeps, assumption+, use md in \<open>auto simp: offered_def readable_modules\<close>)
qed

lemma emit_mono: "emit ann name f st = Some st' \<Longrightarrow> set (snd st) \<subseteq> set (snd st')"
  by (auto simp: emit_def split: option.splits)

lemma visit_function_mono: "visit_function ann showAll exports f s = Some s' \<Longrightarrow> n \<in> set (snd s) \<Longrightarrow> n \<in> set (snd s')"
  by (erule visit_function_cases) (use emit_mono in blast)+

lemma visit_alias_mono: "visit_alias ann showAll exports ga s = Some s' \<Longrightarrow> n \<in> set (snd s) \<Longrightarrow> n \<in> set (snd s')"
  by (erule visit_alias_cases) (use emit_mono in blast)+

lemma visit_module_mono:
  assumes "visit_module ann showAll exports md s = Some s'" and "n \<in> set (snd s)"
  shows "n \<in> set (snd s')"
proof -
  obtain st1 where 1: "ofold (visit_function ann showAll exports) (md_functions md) s = Some st1"
    and 2: "ofold (visit_alias ann showAll exports) (md_aliases md) st1 = Some s'"
    using assms(1) by (auto simp: visit_module_def split: option.splits)
  from 1 assms(2) have "n \<in> set (snd st1)" by (rule ofold_keeps) (rule visit_function_mono)
  with 2 show ?thesis by (rule ofold_keeps) (rule visit_alias_mono)
qed

lemma emitted_after:
  assumes "buildRecord ann name f = Some (Some ft)" and "exported exports name"
    and "(if wanted exports s name then emit ann name f s else Some s) = Some s'"
  shows "name \<in> set (snd s')"
  using assms by (auto simp: emit_def wanted_def exported_def split: if_split_asm option.splits)

lemma visit_module_reaches:
  assumes run: "visit_module ann showAll exports md s = Some s'" and off: "offers showAll md name f"
    and rec: "buildRecord ann name f = Some (Some ft)" "exported exports name"
  shows "name \<in> set (snd s')"
proof -
  obtain st1 where 1: "ofold (visit_function ann showAll exports) (md_functions md) s = Some st1"
    and 2: "ofold (visit_alias ann showAll exports) (md_aliases md) st1 = Some s'"
    using run by (auto simp: visit_module_def split: option.splits)
  consider (own) "f \<in> set (md_functions md)" "name = fn_name f" "showAll \<or> \<not> fn_local f" "\<not> fn_declaration f"
    | (renamed) ga where "ga \<in> set (md_aliases md)" "al_object ga = Some f" "name = al_name ga"
        "showAll \<or> \<not> al_local ga" "\<not> fn_declaration f"
    using off unfolding offers_def by blast
  then show ?thesis
  proof cases
    case own
    from 1 own(1) have "name \<in> set (snd st1)"
    proof (rule ofold_reaches)
      fix s s' assume "visit_function ann showAll exports f s = Some s'"
      with own have "(if wanted exports s name then emit ann name f s else Some s) = Some s'"
        by (auto simp: visit_function_def split: if_split_asm)
      then show "name \<in> set (snd s')" by (rule emitted_after [OF rec])
    qed (rule visit_function_mono)
    with 2 show ?thesis by (rule ofold_keeps) (rule visit_alias_mono)
  next
    case renamed
    from 2 renamed(1) show ?thesis
    proof (rule ofold_reaches)
      fix s s' assume "visit_alias ann showAll exports ga s = Some s'"
      with renamed have "(if wanted exports s name then emit ann name f s else Some s) = Some s'"
        by (auto simp: visit_alias_def split: if_split_asm)
      then show "name \<in> set (snd s')" by (rule emitted_after [OF rec])
    qed (rule visit_alias_mono)
  qed
qed

lemma collect_reaches:
  assumes "collect ann showAll exports mods = Some st" and "offered showAll mods name f"
    and rec: "buildRecord ann name f = Some (Some ft)" "exported exports name"
  shows "name \<in> set (snd st)"
proof -
  from assms(2) obtain md where md: "md \<in> set (List.map_filter id mods)" "offers showAll md name f"
    by (auto simp: offered_def readable_modules)
  from assms(1) have run: "ofold (visit_module ann showAll exports) (List.map_filter id mods) ([], []) = Some st"
    by (simp add: collect_def)
  from run md(1) show ?thesis
  proof (rule ofold_reaches)
    fix s s' assume "visit_module ann showAll exports md s = Some s'"
    then show "name \<in> set (snd s')" by (rule visit_module_reaches) (rule md rec)+
  qed (rule visit_module_mono)
qed

lemma visit_module_total:
  assumes "\<And>name f. offers showAll md name f \<Longrightarrow> analysable (fn_ir f)"
  shows "visit_module ann showAll exports md s \<noteq> None"
proof -
  have e: "emit ann name f s \<noteq> None" if "offers showAll md name f" for name f s
    using buildRecord_total [OF assms [OF that], of ann name] by (auto simp: emit_def split: option.split)
  have "ofold (visit_function ann showAll exports) (md_functions md) s \<noteq> None" for s
    by (rule ofold_total) (use e in \<open>auto simp: visit_function_def offers_def\<close>)
  moreover have "ofold (visit_alias ann showAll exports) (md_aliases md) s \<noteq> None" for s
  proof (rule ofold_total)
    fix ga s assume "ga \<in> set (md_aliases md)"
    then have "offers showAll md (al_name ga) f"
      if "al_object ga = Some f" "\<not> fn_declaration f" "showAll \<or> \<not> al_local ga" for f
      using that by (auto simp: offers_def)
    with e show "visit_alias ann showAll exports ga s \<noteq> None"
      by (simp add: visit_alias_def del: not_None_eq split: option.split) blast
  qed
  ultimately show ?thesis by (simp add: visit_module_def del: not_None_eq split: option.split)
qed

lemma collect_total:
  assumes "\<And>name f. offered showAll mods name f \<Longrightarrow> analysable (fn_ir f)"
  shows "collect ann showAll exports mods \<noteq> None"
  unfolding collect_def
proof (rule ofold_total)
  fix md s assume "md \<in> set (List.map_filter id mods)"
  then have "analysable (fn_ir f)" if "offers showAll md name f" for name f
    using that by (intro assms [of name f]) (auto simp: offered_def readable_modules)
  then show "visit_module ann showAll exports md s \<noteq> None" by (rule visit_module_total)
qed

text \<open>C11: The records are the interface: one for each name, none for a name outside the export list,
  each the inference of a function defined under that name or alias in one of the readable
  modules; and every exported name whose definition has debug information has one. With an
  export list there are no more records than exports, the fraction of the coverage report.\<close>

theorem collect_correct:
  assumes "collect ann showAll exports mods = Some (records, emitted)"
  shows "distinct (map funcName records)
    \<and> (\<forall>ft \<in> set records. exported exports (funcName ft)
         \<and> (\<exists>f. offered showAll mods (funcName ft) f \<and> buildRecord ann (funcName ft) f = Some (Some ft)))
    \<and> (\<forall>name f ft. offered showAll mods name f \<and> exported exports name
         \<and> buildRecord ann name f = Some (Some ft) \<longrightarrow> name \<in> set (map funcName records))
    \<and> (\<forall>es. exports = Some es \<longrightarrow> length records \<le> length es)"
proof -
  from collect_ok [OF assms] have names: "map funcName records = rev emitted" "distinct emitted"
      "list_all (exported exports) emitted"
    and from_def: "\<forall>ft \<in> set records. \<exists>f. offered showAll mods (funcName ft) f \<and> buildRecord ann (funcName ft) f = Some (Some ft)"
    by (simp_all add: collected_ok_def)
  have "set emitted = funcName ` set records" by (metis names(1) set_map set_rev)
  with names(3) have exp: "\<forall>ft \<in> set records. exported exports (funcName ft)" by (auto simp: list_all_iff)
  moreover have "length records \<le> length es" if "exports = Some es" for es
  proof -
    from that names(3) have "set emitted \<subseteq> set es" by (auto simp: list_all_iff exported_def)
    then have "card (set emitted) \<le> length es" using card_length card_mono finite_set le_trans by metis
    with names show ?thesis by (metis distinct_card length_map length_rev)
  qed
  moreover have "name \<in> set (map funcName records)" if "offered showAll mods name f" "exported exports name"
      "buildRecord ann name f = Some (Some ft)" for name f ft
    using collect_reaches [OF assms that(1,3,2)] by (simp add: names(1))
  ultimately show ?thesis using names(1,2) from_def by auto
qed

text \<open>C36: The driver fails exactly on an unreadable or malformed annotations file, an output that
  cannot be opened or an unreadable export list, and then it writes no output; otherwise it exits
  with 0.\<close>

theorem tool_main_errors:
  assumes "tool_main opts w = Some r"
  shows "(r_exit r = 1 \<longleftrightarrow>
      (AnnoFile opts \<noteq> [] \<and> isl (loadAnnotationsFile (w_json w) (AnnoFile opts)
          (w_read w (AnnoFile opts)) default_annotations))
      \<or> (OutFile opts \<noteq> [] \<and> w_open_error w (OutFile opts) \<noteq> None)
      \<or> (ExportsFile opts \<noteq> [] \<and> w_read w (ExportsFile opts) = None))
    \<and> (if r_exit r = 1 then r_out r = [] else r_exit r = 0)"
  using assms
  by (auto simp: tool_main_def run_tool_def failed_def Let_def split: sum.splits option.splits if_split_asm)

text \<open>The driver ends with a result on every input whose defined functions have no circular casts
  or type qualifiers, whatever its files hold.\<close>

theorem tool_main_returns:
  assumes "\<And>name f. offered (ShowAll opts) (map (w_parseIRFile w) (InputFiles opts)) name f \<Longrightarrow> analysable (fn_ir f)"
  shows "\<exists>r. tool_main opts w = Some r"
proof -
  have "run_tool opts w ann exports \<noteq> None" for ann exports
    using collect_total [where ann = ann and exports = exports, OF assms] by (simp add: run_tool_def Let_def del: not_None_eq)
  then have "tool_main opts w \<noteq> None"
    by (simp add: tool_main_def del: not_None_eq split: sum.split option.split)
  then show ?thesis by blast
qed

section \<open>A run\<close>

text \<open>One module that defines \<open>pick\<close>, an alias of it, and a module that cannot be read.\<close>

definition pick_def_fun :: ir_function where
  "pick_def_fun = \<lparr> fn_name = ''__pick'', fn_declaration = False, fn_local = False,
     fn_ir = pick_fun\<lparr> ll_subprogram := Some \<lparr> sp_name = ''__pick'', sp_types = Some [Some 3, Some 3, Some 3] \<rparr> \<rparr> \<rparr>"

definition pick_module :: ir_module where
  "pick_module = \<lparr> md_functions = [pick_def_fun],
     md_aliases = [\<lparr> al_name = ''pick'', al_local = False, al_object = Some pick_def_fun \<rparr>] \<rparr>"

definition pick_options :: tool_options where
  "pick_options = \<lparr> InputFiles = [''a.bc'', ''b.bc''], AsJson = True, ShowAll = False, OutFile = [],
     ModuleName = ''libpick'', AnnoFile = [], ExportsFile = ''exports.txt'' \<rparr>"

definition pick_world :: tool_world where
  "pick_world = \<lparr> w_read = (\<lambda>f. if f = ''exports.txt'' then Some (''pick '' @ nl @ ''other'' @ nl) else None),
     w_json = (\<lambda>_. Inr JNull), w_open_error = (\<lambda>_. None),
     w_parseIRFile = (\<lambda>f. if f = ''a.bc'' then Some pick_module else None) \<rparr>"

lemma pick_run_exports: "exports_of (''pick '' @ nl @ ''other'' @ nl) = [''pick'', ''other'']"
  by code_simp

lemma subprogram_irrelevant: "analysable (F\<lparr> ll_subprogram := s \<rparr>) \<longleftrightarrow> analysable F"
  by (simp add: analysable_def casts_wf_def bitcasts_wf_def ptrtoint_scalar_def)

lemma pick_offered: "offered b [Some pick_module, None] name f \<Longrightarrow> f = pick_def_fun"
  by (auto simp: offered_def offers_def pick_module_def)

lemma pick_def_analysable: "analysable (fn_ir pick_def_fun)"
  using pick_analysable by (simp add: pick_def_fun_def subprogram_irrelevant)

lemma pick_record: "\<exists>ft. buildRecord default_annotations ''pick'' pick_def_fun = Some (Some ft)"
proof -
  have trees: "buildFunctionTrees (ll_dwarf (fn_ir pick_def_fun)) (ll_subprogram (fn_ir pick_def_fun)) 6 \<noteq> Some None"
    by (auto simp: buildFunctionTrees_def pick_def_fun_def split: option.split)
  then show ?thesis
    using buildRecord_total [OF pick_def_analysable, of default_annotations "''pick''"]
    by (auto simp: buildRecord_def pick_def_fun_def split: option.splits)
qed

theorem collect_correct_witness:
  "\<exists>records emitted. collect default_annotations False (Some [''pick'', ''other'']) [Some pick_module, None]
       = Some (records, emitted) \<and> ''pick'' \<in> set (map funcName records)
     \<and> ''__pick'' \<notin> set (map funcName records) \<and> length records \<le> 2"
proof -
  have "collect default_annotations False (Some [''pick'', ''other'']) [Some pick_module, None] \<noteq> None"
    by (rule collect_total) (use pick_offered pick_def_analysable in blast)
  then obtain records emitted where
    run: "collect default_annotations False (Some [''pick'', ''other'']) [Some pick_module, None] = Some (records, emitted)"
    by fast
  have "offered False [Some pick_module, None] ''pick'' pick_def_fun"
    by (auto simp: offered_def offers_def pick_module_def pick_def_fun_def)
  moreover have "exported (Some [''pick'', ''other'']) ''pick''" "\<not> exported (Some [''pick'', ''other'']) ''__pick''"
    by (simp_all add: exported_def)
  moreover obtain ft where "buildRecord default_annotations ''pick'' pick_def_fun = Some (Some ft)"
    using pick_record by blast
  ultimately have "''pick'' \<in> set (map funcName records)" "''__pick'' \<notin> set (map funcName records)"
    "length records \<le> length [''pick'', ''other'']"
    using collect_correct [OF run] by (blast, auto)
  with run show ?thesis by simp
qed

theorem tool_main_returns_witness:
  "\<exists>r. tool_main pick_options pick_world = Some r"
proof (rule tool_main_returns)
  fix name f
  assume "offered (ShowAll pick_options) (map (w_parseIRFile pick_world) (InputFiles pick_options)) name f"
  then have "f = pick_def_fun"
    by (intro pick_offered [of "ShowAll pick_options" name]) (simp add: pick_options_def pick_world_def)
  then show "analysable (fn_ir f)" by (simp add: pick_def_analysable)
qed

theorem tool_main_errors_witness:
  "\<exists>r. tool_main (pick_options\<lparr> ExportsFile := ''none'' \<rparr>) pick_world = Some r \<and> r_exit r = 1 \<and> r_out r = []"
proof -
  have "tool_main (pick_options\<lparr> ExportsFile := ''none'' \<rparr>) pick_world = Some (failed ''cannot read exports none'')"
    by (simp add: tool_main_def pick_options_def pick_world_def)
  from tool_main_errors [OF this] this show ?thesis by (simp add: pick_options_def pick_world_def failed_def)
qed

end
