(* ===== verification/Byte_Memory.thy ===== *)
theory Byte_Memory
  imports Lind_Prelude
begin

text \<open>
  Byte-addressed linear memory, shared by the marshalling runtime and the C library: copies of a
  range, little-endian 32-bit words, and the arithmetic of the 32-bit \<^verbatim>\<open>size_t\<close> with its
  wrap-around written out. Addresses are natural numbers.
\<close>

section \<open>Bytes\<close>

type_synonym mem = "nat \<Rightarrow> 8 word"

definition blit :: "mem \<Rightarrow> nat \<Rightarrow> nat \<Rightarrow> mem \<Rightarrow> nat \<Rightarrow> mem" where
  "blit from a n to d = (\<lambda>x. if d \<le> x \<and> x < d + n then from (a + (x - d)) else to x)"

definition bytes_at :: "mem \<Rightarrow> nat \<Rightarrow> nat \<Rightarrow> 8 word list" where
  "bytes_at m a n = map (\<lambda>i. m (a + i)) [0..<n]"

fun le_value :: "8 word list \<Rightarrow> nat" where
  "le_value [] = 0"
| "le_value (b # bs) = unat b + 256 * le_value bs"

definition u32_at :: "mem \<Rightarrow> nat \<Rightarrow> nat" where
  "u32_at m a = le_value (bytes_at m a 4)"

definition u32_byte :: "nat \<Rightarrow> nat \<Rightarrow> 8 word" where
  "u32_byte v i = of_nat (v div 256 ^ i)"

definition put_u32 :: "mem \<Rightarrow> nat \<Rightarrow> nat \<Rightarrow> mem" where
  "put_u32 m a v = (\<lambda>x. if a \<le> x \<and> x < a + 4 then u32_byte v (x - a) else m x)"

section \<open>Sizes\<close>

definition size_cast :: "nat \<Rightarrow> nat" where
  "size_cast v = v mod 2 ^ 32"

definition size_sub :: "nat \<Rightarrow> nat \<Rightarrow> nat" where
  "size_sub a b = (a + 2 ^ 32 - b) mod 2 ^ 32"

section \<open>Laws\<close>

lemma length_bytes_at [simp]: "length (bytes_at m a n) = n"
  by (simp add: bytes_at_def)

lemma nth_bytes_at [simp]: "i < n \<Longrightarrow> bytes_at m a n ! i = m (a + i)"
  by (simp add: bytes_at_def)

lemma le_value_less: "le_value bs < 256 ^ length bs"
proof (induction bs)
  case (Cons b bs)
  have "unat b < 2 ^ LENGTH(8)" by (rule unsigned_less)
  then have "unat b < 256" by simp
  with Cons show ?case by simp
qed simp

lemma u32_at_less: "u32_at m a < 2 ^ 32"
  using le_value_less [of "bytes_at m a 4"] by (simp add: u32_at_def)

lemma u32_at_cong: "(\<And>x. a \<le> x \<Longrightarrow> x < a + 4 \<Longrightarrow> m x = m' x) \<Longrightarrow> u32_at m a = u32_at m' a"
  unfolding u32_at_def bytes_at_def by (rule arg_cong [where f = le_value]) auto

lemma le_value_bytes: "le_value (map (u32_byte v) [0..<n]) = v mod 256 ^ n"
proof (induction n arbitrary: v)
  case (Suc n)
  have "map (u32_byte v) [0..<Suc n] = u32_byte v 0 # map (u32_byte (v div 256)) [0..<n]"
    by (simp add: upt_conv_Cons map_Suc_upt [symmetric] u32_byte_def div_mult2_eq del: upt_Suc)
  moreover have "unat (u32_byte v 0) = v mod 256" by (simp add: u32_byte_def unat_of_nat)
  ultimately show ?case using Suc by (simp add: mod_mult2_eq del: upt_Suc)
qed simp

lemma u32_at_put: "v < 2 ^ 32 \<Longrightarrow> u32_at (put_u32 m a v) a = v"
proof -
  assume "v < 2 ^ 32"
  moreover have "bytes_at (put_u32 m a v) a 4 = map (u32_byte v) [0..<4]"
    by (simp add: bytes_at_def put_u32_def)
  ultimately show ?thesis by (simp add: u32_at_def le_value_bytes)
qed

lemma bytes_at_cong: "(\<And>x. a \<le> x \<Longrightarrow> x < a + n \<Longrightarrow> m x = m' x) \<Longrightarrow> bytes_at m a n = bytes_at m' a n"
  unfolding bytes_at_def by auto

lemma bytes_at_blit_in:
  assumes "d \<le> x" and "x + k \<le> d + n"
  shows "bytes_at (blit f a n m d) x k = bytes_at f (a + (x - d)) k"
  using assms by (auto simp: bytes_at_def blit_def add.assoc intro!: arg_cong [where f = f])

lemma bytes_at_blit_out:
  assumes "x + k \<le> d \<or> d + n \<le> x"
  shows "bytes_at (blit f a n m d) x k = bytes_at m x k"
  using assms by (auto simp: bytes_at_def blit_def)

lemma blit_out: "x < d \<or> d + n \<le> x \<Longrightarrow> blit f a n m d x = m x"
  by (auto simp: blit_def)

lemma blit_empty [simp]: "blit f a 0 m d = m"
  by (rule ext) (auto simp: blit_def)

lemma u32_at_put_out: "x + 4 \<le> a \<or> a + 4 \<le> x \<Longrightarrow> u32_at (put_u32 m a v) x = u32_at m x"
  by (rule u32_at_cong) (auto simp: put_u32_def)

lemma bytes_at_put_out: "x + k \<le> a \<or> a + 4 \<le> x \<Longrightarrow> bytes_at (put_u32 m a v) x k = bytes_at m x k"
  by (rule bytes_at_cong) (auto simp: put_u32_def)

lemma size_sub_le: "b \<le> a \<Longrightarrow> a < 2 ^ 32 \<Longrightarrow> size_sub a b = a - b"
proof -
  assume "b \<le> a" "a < 2 ^ 32"
  then have "a + 2 ^ 32 - b = (a - b) + 2 ^ 32" "a - b < 2 ^ 32" by simp_all
  then show ?thesis by (simp only: size_sub_def mod_add_self2 mod_less)
qed

section \<open>Ranges\<close>

text \<open>Two memories that differ only on a set of addresses.\<close>

definition agree :: "nat set \<Rightarrow> mem \<Rightarrow> mem \<Rightarrow> bool" where
  "agree W m m' \<longleftrightarrow> (\<forall>x. x \<notin> W \<longrightarrow> m' x = m x)"

definition span :: "nat \<Rightarrow> nat \<Rightarrow> nat set" where
  "span a n = {a..<a + n}"

lemma agree_refl: "agree W m m"
  by (simp add: agree_def)

lemma agree_trans: "agree W m m' \<Longrightarrow> agree W m' m'' \<Longrightarrow> agree W m m''"
  by (simp add: agree_def)

lemma agree_mono: "agree V m m' \<Longrightarrow> V \<subseteq> W \<Longrightarrow> agree W m m'"
  by (auto simp: agree_def)

lemma agree_blit: "agree (span d n) m (blit f a n m d)"
  by (auto simp: agree_def span_def blit_def)

lemma agree_put: "agree (span a 4) m (put_u32 m a v)"
  by (auto simp: agree_def span_def put_u32_def)

lemma span_mono: "b \<le> a \<Longrightarrow> a + n \<le> b + k \<Longrightarrow> span a n \<subseteq> span b k"
  by (auto simp: span_def)

lemma span_apart: "a + n \<le> b \<or> b + k \<le> a \<Longrightarrow> span a n \<inter> span b k = {}"
  by (auto simp: span_def)

lemma bytes_at_agree: "agree W m m' \<Longrightarrow> span a n \<inter> W = {} \<Longrightarrow> bytes_at m' a n = bytes_at m a n"
  by (rule bytes_at_cong) (auto simp: agree_def span_def)

lemma u32_at_agree: "agree W m m' \<Longrightarrow> span a 4 \<inter> W = {} \<Longrightarrow> u32_at m' a = u32_at m a"
  unfolding u32_at_def by (simp add: bytes_at_agree)

end
