(* ===== verification/Marshal_Memory.thy ===== *)
theory Marshal_Memory
  imports Byte_Memory
begin

text \<open>
  The memory of the marshalling runtime \<^verbatim>\<open>lind_marshal.h\<close>: the two cages of a call, copies between
  them, the arena of shadow buffers, the provenance check of shadow pointers and the table of
  handles. Sizes and addresses are natural numbers with the wrap-around of the 32-bit target
  written out. A trap keeps the state it happens in.
\<close>

section \<open>State\<close>

record handle_entry =
  app_token :: nat
  real_object :: nat
  handle_class :: nat
  in_use :: bool

text \<open>The linear memories of the source cage and of the grate, and the static variables of the
  runtime.\<close>

record mstate =
  src_mem :: mem
  grate_mem :: mem
  arena_used :: nat
  handle_table :: "handle_entry list"
  next_token :: nat
  marshal_source_cage :: nat
  marshal_grate_cage :: nat

datatype 'a run = Trap string mstate | Ret 'a mstate

type_synonym 'a mrun = "mstate \<Rightarrow> 'a run"

definition mret :: "'a \<Rightarrow> 'a mrun" where
  "mret x s = Ret x s"

definition bnd :: "'a mrun \<Rightarrow> ('a \<Rightarrow> 'b mrun) \<Rightarrow> 'b mrun" where
  "bnd m f s = (case m s of Trap r t \<Rightarrow> Trap r t | Ret x t \<Rightarrow> f x t)"

definition marshal_abort :: "string \<Rightarrow> 'a mrun" where
  "marshal_abort reason s = Trap reason s"

definition check :: "bool \<Rightarrow> string \<Rightarrow> unit mrun" where
  "check bad reason = (if bad then marshal_abort reason else mret ())"

section \<open>Copies between the cages\<close>

text \<open>Which ranges of the source cage the host lets \<^verbatim>\<open>copy_data_between_cages\<close> read and write.\<close>

record access_map =
  can_read :: "nat \<Rightarrow> nat \<Rightarrow> bool"
  can_write :: "nat \<Rightarrow> nat \<Rightarrow> bool"

text \<open>The three shapes of \<^verbatim>\<open>_lind_copy_or_abort\<close>: from the source cage into a shadow, from the source
  cage into a local variable, and back to the source cage.\<close>

definition copy_in :: "access_map \<Rightarrow> nat \<Rightarrow> nat \<Rightarrow> nat \<Rightarrow> unit mrun" where
  "copy_in acc a d n s =
     (if can_read acc a n then Ret () (s\<lparr> grate_mem := blit (src_mem s) a n (grate_mem s) d \<rparr>)
      else Trap ''copy_data_between_cages failed'' s)"

definition peek :: "access_map \<Rightarrow> nat \<Rightarrow> nat \<Rightarrow> (8 word list) mrun" where
  "peek acc a n s =
     (if can_read acc a n then Ret (bytes_at (src_mem s) a n) s
      else Trap ''copy_data_between_cages failed'' s)"

definition copy_out :: "access_map \<Rightarrow> nat \<Rightarrow> nat \<Rightarrow> nat \<Rightarrow> unit mrun" where
  "copy_out acc d a n s =
     (if can_write acc a n then Ret () (s\<lparr> src_mem := blit (grate_mem s) d n (src_mem s) a \<rparr>)
      else Trap ''copy_data_between_cages failed'' s)"

definition poke_u32 :: "access_map \<Rightarrow> nat \<Rightarrow> nat \<Rightarrow> unit mrun" where
  "poke_u32 acc a v s =
     (if can_write acc a 4 then Ret () (s\<lparr> src_mem := put_u32 (src_mem s) a v \<rparr>)
      else Trap ''copy_data_between_cages failed'' s)"

section \<open>The arena\<close>

definition SIZE_MAX :: nat where "SIZE_MAX = 2 ^ 32 - 1"
definition ARENA_SIZE :: nat where "ARENA_SIZE = 128 * 1024"
definition CSTR_CAP :: nat where "CSTR_CAP = 4096"

text \<open>\<open>arena\<close> is the address of \<^verbatim>\<open>_lind_marshal_arena\<close>.\<close>

definition marshal_alloc :: "nat \<Rightarrow> nat \<Rightarrow> (nat option) mrun" where
  "marshal_alloc arena len s =
     (if SIZE_MAX - 7 < len then Ret None s
      else let aligned = (len + 7) div 8 * 8 in
        if size_sub ARENA_SIZE (arena_used s) < aligned then Ret None s
        else Ret (Some (arena + arena_used s)) (s\<lparr> arena_used := arena_used s + aligned \<rparr>))"

definition marshal_reset :: "unit mrun" where
  "marshal_reset s = Ret () (s\<lparr> arena_used := 0 \<rparr>)"

text \<open>An allocation whose failure is a trap.\<close>

definition alloc_or_abort :: "nat \<Rightarrow> nat \<Rightarrow> string \<Rightarrow> nat mrun" where
  "alloc_or_abort arena len reason =
     bnd (marshal_alloc arena len) (\<lambda>p. case p of None \<Rightarrow> marshal_abort reason | Some a \<Rightarrow> mret a)"

section \<open>Shadow pointers\<close>

definition validate_shadow_offset :: "nat \<Rightarrow> nat \<Rightarrow> nat \<Rightarrow> bool \<Rightarrow> nat option" where
  "validate_shadow_offset base len candidate allow_one_past =
     (if SIZE_MAX - base < len then None
      else if candidate < base then None
      else if candidate = base + len then (if \<not> allow_one_past then None else Some (candidate - base))
      else if base + len < candidate then None
      else Some (candidate - base))"

definition check_fits_wasm32_addr :: "nat \<Rightarrow> string \<Rightarrow> unit mrun" where
  "check_fits_wasm32_addr v reason = check (2 ^ 32 - 1 < v) reason"

definition translate_shadow_ptr_or_abort :: "nat \<Rightarrow> nat \<Rightarrow> bool \<Rightarrow> nat \<Rightarrow> nat \<Rightarrow> string \<Rightarrow> nat mrun" where
  "translate_shadow_ptr_or_abort base len allow_one_past source_ptr candidate reason =
     (if candidate = 0 then mret 0
      else
        bnd (check_fits_wasm32_addr candidate reason) (\<lambda>_.
        bnd (check_fits_wasm32_addr source_ptr reason) (\<lambda>_.
        case validate_shadow_offset base len candidate allow_one_past of
          None \<Rightarrow> marshal_abort reason
        | Some offset \<Rightarrow>
            bnd (check (2 ^ 32 - 1 - source_ptr < offset)
                   (''translated pointer overflows the source cage'' @ [CHR 0x27] @ ''s address space'')) (\<lambda>_.
            mret (source_ptr + offset)))))"

section \<open>Handles\<close>

definition HANDLE_TABLE_SIZE :: nat where "HANDLE_TABLE_SIZE = 64"

fun register_in :: "handle_entry list \<Rightarrow> nat \<Rightarrow> nat \<Rightarrow> nat \<Rightarrow> (handle_entry list) option" where
  "register_in [] tok cls obj = None"
| "register_in (e # es) tok cls obj =
     (if \<not> in_use e
      then Some (\<lparr> app_token = tok, real_object = obj, handle_class = cls, in_use = True \<rparr> # es)
      else map_option ((#) e) (register_in es tok cls obj))"

definition register_handle :: "nat \<Rightarrow> nat \<Rightarrow> nat mrun" where
  "register_handle cls real_obj s =
     (case register_in (handle_table s) (next_token s) cls real_obj of
        None \<Rightarrow> Ret 0 s
      | Some t \<Rightarrow> Ret (next_token s) (s\<lparr> handle_table := t, next_token := (next_token s + 1) mod 2 ^ 64 \<rparr>))"

definition handle_matches :: "nat \<Rightarrow> nat \<Rightarrow> handle_entry \<Rightarrow> bool" where
  "handle_matches cls tok e \<longleftrightarrow> in_use e \<and> app_token e = tok \<and> handle_class e = cls"

definition translate_handle_checked :: "handle_entry list \<Rightarrow> nat \<Rightarrow> nat \<Rightarrow> nat option" where
  "translate_handle_checked es cls tok = map_option real_object (find (handle_matches cls tok) es)"

definition translate_handle :: "handle_entry list \<Rightarrow> nat \<Rightarrow> nat \<Rightarrow> nat" where
  "translate_handle es cls tok = (case translate_handle_checked es cls tok of None \<Rightarrow> 0 | Some r \<Rightarrow> r)"

fun release_handle :: "handle_entry list \<Rightarrow> nat \<Rightarrow> nat \<Rightarrow> handle_entry list" where
  "release_handle [] cls tok = []"
| "release_handle (e # es) cls tok =
     (if handle_matches cls tok e then e\<lparr> in_use := False \<rparr> # es else e # release_handle es cls tok)"

section \<open>C strings\<close>

fun find_nul :: "8 word list \<Rightarrow> nat option" where
  "find_nul [] = None"
| "find_nul (b # bs) = (if b = 0 then Some 0 else map_option Suc (find_nul bs))"

function measure_from :: "access_map \<Rightarrow> nat \<Rightarrow> nat \<Rightarrow> nat mrun" where
  "measure_from acc src_ptr sofar =
     (if sofar < CSTR_CAP then
        let to_copy = (if sofar + 64 > CSTR_CAP then CSTR_CAP - sofar else 64) in
        bnd (peek acc ((src_ptr + sofar) mod 2 ^ 64) to_copy) (\<lambda>chunk.
          case find_nul chunk of
            Some i \<Rightarrow> mret (sofar + i + 1)
          | None \<Rightarrow> measure_from acc src_ptr (sofar + to_copy))
      else mret CSTR_CAP)"
  by pat_completeness auto
termination
  by (relation "measure (\<lambda>(_, _, sofar). CSTR_CAP - sofar)") (auto split: if_splits)

declare measure_from.simps [simp del]

definition measure_cstr :: "access_map \<Rightarrow> nat \<Rightarrow> nat mrun" where
  "measure_cstr acc src_ptr = measure_from acc src_ptr 0"

section \<open>Sequencing\<close>

lemma bnd_Ret: "bnd m f s = Ret y t \<longleftrightarrow> (\<exists>x u. m s = Ret x u \<and> f x u = Ret y t)"
  by (simp add: bnd_def split: run.split)

lemma bnd_Trap: "bnd m f s = Trap r t \<longleftrightarrow> m s = Trap r t \<or> (\<exists>x u. m s = Ret x u \<and> f x u = Trap r t)"
  by (auto simp: bnd_def split: run.split)

lemma run_simps [simp]:
  "mret x s = Ret y t \<longleftrightarrow> y = x \<and> t = s"
  "mret x s \<noteq> Trap r t"
  "marshal_abort r s \<noteq> Ret y t"
  "marshal_abort r s = Trap r' t \<longleftrightarrow> r' = r \<and> t = s"
  by (auto simp: mret_def marshal_abort_def)

lemma check_run [simp]:
  "check b r s = Ret y t \<longleftrightarrow> \<not> b \<and> t = s"
  "check b r s = Trap r' t \<longleftrightarrow> b \<and> r' = r \<and> t = s"
  by (auto simp: check_def)

lemma peek_run [simp]:
  "peek acc a n s = Ret bs t \<longleftrightarrow> can_read acc a n \<and> bs = bytes_at (src_mem s) a n \<and> t = s"
  by (auto simp: peek_def)

section \<open>The frame of a step before the call\<close>

text \<open>Such a step allocates, reads the source cage and writes the grate at or above \<open>b\<close> and below the
  end of what is allocated.\<close>

definition frame :: "nat \<Rightarrow> nat \<Rightarrow> mstate \<Rightarrow> mstate \<Rightarrow> bool" where
  "frame arena b s t \<longleftrightarrow>
     src_mem t = src_mem s \<and> handle_table t = handle_table s \<and> next_token t = next_token s
     \<and> arena_used s \<le> arena_used t \<and> arena_used t \<le> ARENA_SIZE
     \<and> (\<forall>x. x < b \<or> arena + arena_used t \<le> x \<longrightarrow> grate_mem t x = grate_mem s x)"

definition keeps :: "nat \<Rightarrow> nat \<Rightarrow> 'a mrun \<Rightarrow> mstate \<Rightarrow> bool" where
  "keeps arena b m s \<longleftrightarrow> (case m s of Trap r t \<Rightarrow> frame arena b s t | Ret x t \<Rightarrow> frame arena b s t)"

lemma frame_refl: "arena_used s \<le> ARENA_SIZE \<Longrightarrow> frame arena b s s"
  by (simp add: frame_def)

lemma frame_trans: "frame arena b s t \<Longrightarrow> frame arena b t u \<Longrightarrow> frame arena b s u"
  unfolding frame_def by (auto intro: order_trans)

lemma frame_weaken: "frame arena b' s t \<Longrightarrow> b \<le> b' \<Longrightarrow> frame arena b s t"
  by (auto simp: frame_def)

lemma frame_used: "frame arena b s t \<Longrightarrow> arena_used s \<le> arena_used t \<and> arena_used t \<le> ARENA_SIZE"
  by (simp add: frame_def)

lemma keeps_Ret: "keeps arena b m s \<Longrightarrow> m s = Ret x t \<Longrightarrow> frame arena b s t"
  by (simp add: keeps_def)

lemma keeps_Trap: "keeps arena b m s \<Longrightarrow> m s = Trap r t \<Longrightarrow> frame arena b s t"
  by (simp add: keeps_def)

lemma keeps_bnd:
  assumes "keeps arena b m s" and "\<And>x t. m s = Ret x t \<Longrightarrow> frame arena b s t \<Longrightarrow> keeps arena b (f x) t"
  shows "keeps arena b (bnd m f) s"
proof (cases "m s")
  case (Trap r t)
  with assms(1) show ?thesis by (simp add: keeps_def bnd_def)
next
  case (Ret x t)
  with assms have f: "frame arena b s t" "keeps arena b (f x) t" by (simp_all add: keeps_def)
  with Ret show ?thesis
    by (auto simp: keeps_def bnd_def split: run.splits intro: frame_trans)
qed

lemma keeps_leaf:
  assumes "arena_used s \<le> ARENA_SIZE"
  shows "keeps arena b (mret x) s" "keeps arena b (marshal_abort r) s" "keeps arena b (check c r) s"
    "keeps arena b (peek acc a n) s"
  using frame_refl [OF assms]
  by (auto simp: keeps_def mret_def marshal_abort_def check_def peek_def)

lemma keeps_copy_in:
  assumes "arena_used s \<le> ARENA_SIZE" and "b \<le> d" and "d + n \<le> arena + arena_used s"
  shows "keeps arena b (copy_in acc a d n) s"
  using assms by (auto simp: keeps_def copy_in_def frame_def blit_def)

lemma aligned_ge: "len \<le> (len + 7) div 8 * (8 :: nat)"
  by presburger

text \<open>What an allocation gives: the next block, within the arena.\<close>

lemma marshal_alloc_Some:
  assumes "marshal_alloc arena len s = Ret (Some p) t" and "arena_used s \<le> ARENA_SIZE"
  shows "p = arena + arena_used s \<and> t = s\<lparr> arena_used := arena_used s + (len + 7) div 8 * 8 \<rparr>
    \<and> arena_used t \<le> ARENA_SIZE \<and> p + len \<le> arena + arena_used t"
proof -
  have "ARENA_SIZE + 2 ^ 32 - arena_used s = ARENA_SIZE - arena_used s + 2 ^ 32" "ARENA_SIZE < 2 ^ 32"
    using assms(2) by (simp_all add: ARENA_SIZE_def)
  then have "size_sub ARENA_SIZE (arena_used s) = ARENA_SIZE - arena_used s"
    by (simp only: size_sub_def mod_add_self2) simp
  with assms aligned_ge [of len] show ?thesis
    by (auto simp: marshal_alloc_def Let_def split: if_splits)
qed

lemma keeps_alloc:
  assumes "arena_used s \<le> ARENA_SIZE"
  shows "keeps arena b (marshal_alloc arena len) s"
proof (cases "marshal_alloc arena len s")
  case (Trap r t)
  then show ?thesis by (simp add: marshal_alloc_def Let_def split: if_splits)
next
  case (Ret p t)
  show ?thesis
  proof (cases p)
    case None
    with Ret assms show ?thesis
      by (auto simp: keeps_def marshal_alloc_def Let_def frame_def split: if_splits)
  next
    case (Some a)
    with Ret marshal_alloc_Some [of arena len s a t] assms show ?thesis
      by (auto simp: keeps_def frame_def)
  qed
qed

lemma alloc_or_abort_Ret:
  assumes "alloc_or_abort arena len reason s = Ret p t" and "arena_used s \<le> ARENA_SIZE"
  shows "p = arena + arena_used s \<and> t = s\<lparr> arena_used := arena_used s + (len + 7) div 8 * 8 \<rparr>
    \<and> arena_used t \<le> ARENA_SIZE \<and> p + len \<le> arena + arena_used t"
  using assms marshal_alloc_Some [OF _ assms(2)]
  by (auto simp: alloc_or_abort_def bnd_Ret split: option.splits)

lemma keeps_alloc_or_abort:
  assumes "arena_used s \<le> ARENA_SIZE"
  shows "keeps arena b (alloc_or_abort arena len reason) s"
  unfolding alloc_or_abort_def
  by (intro keeps_bnd keeps_alloc assms) (auto dest!: frame_used simp: keeps_leaf split: option.split)

section \<open>Shadow pointers stay in their buffer\<close>

lemma validate_Some:
  "validate_shadow_offset base len c one_past = Some off \<longleftrightarrow>
     len \<le> SIZE_MAX - base \<and> base \<le> c \<and> off = c - base \<and> (off < len \<or> (one_past \<and> off = len))"
  by (auto simp: validate_shadow_offset_def)

lemma translate_shadow_ptr_Ret:
  assumes "translate_shadow_ptr_or_abort base len one_past source c reason s = Ret v t"
  shows "t = s \<and> (if c = 0 then v = 0
    else \<exists>off. c = base + off \<and> (off < len \<or> (one_past \<and> off = len)) \<and> v = source + off \<and> v < 2 ^ 32)"
proof (cases "c = 0")
  case True
  with assms show ?thesis by (simp add: translate_shadow_ptr_or_abort_def)
next
  case False
  from assms False obtain off where off: "validate_shadow_offset base len c one_past = Some off"
    and "v = source + off" "t = s" "off \<le> 2 ^ 32 - 1 - source" "source \<le> 2 ^ 32 - 1"
    by (auto simp: translate_shadow_ptr_or_abort_def check_fits_wasm32_addr_def bnd_Ret split: option.splits)
  moreover from off have "c = base + off" "off < len \<or> (one_past \<and> off = len)" by (auto simp: validate_Some)
  moreover have "source + off < 2 ^ 32" using calculation by simp
  ultimately show ?thesis using False by (simp only: if_False) blast
qed

lemma translate_shadow_ptr_Trap:
  "translate_shadow_ptr_or_abort base len one_past source c reason s = Trap r t \<Longrightarrow> t = s"
  by (auto simp: translate_shadow_ptr_or_abort_def check_fits_wasm32_addr_def bnd_Trap
      split: option.splits if_splits)

section \<open>C strings\<close>

lemma find_nul_Some: "find_nul bs = Some i \<Longrightarrow> i < length bs \<and> bs ! i = 0 \<and> (\<forall>j<i. bs ! j \<noteq> 0)"
  by (induction bs arbitrary: i) (auto simp: nth_Cons split: if_splits nat.splits)

lemma find_nul_None: "find_nul bs = None \<Longrightarrow> i < length bs \<Longrightarrow> bs ! i \<noteq> 0"
  by (induction bs arbitrary: i) (auto simp: nth_Cons split: if_splits nat.splits)

lemma measure_from_Ret:
  assumes "measure_from acc a sofar s = Ret n t" and "sofar \<le> CSTR_CAP" and "a + CSTR_CAP \<le> 2 ^ 64"
    and "\<And>i. i < sofar \<Longrightarrow> src_mem s (a + i) \<noteq> 0"
  shows "t = s \<and> (\<exists>k < CSTR_CAP. n = Suc k \<and> (\<forall>i < k. src_mem s (a + i) \<noteq> 0)
    \<and> (src_mem s (a + k) = 0 \<or> n = CSTR_CAP))"
  using assms
proof (induction acc a sofar arbitrary: s rule: measure_from.induct)
  case (1 acc a sofar)
  show ?case
  proof (cases "sofar < CSTR_CAP")
    case False
    with "1.prems" have "n = Suc 4095" "t = s" "CSTR_CAP = Suc 4095" "sofar = Suc 4095"
      by (simp_all add: measure_from.simps CSTR_CAP_def)
    with "1.prems"(4) show ?thesis by (intro conjI exI [of _ 4095]) simp_all
  next
    case True
    define k where "k = (if sofar + 64 > CSTR_CAP then CSTR_CAP - sofar else 64)"
    have k: "0 < k" "sofar + k \<le> CSTR_CAP" using True by (auto simp: k_def)
    have addr: "(a + sofar) mod 2 ^ 64 = a + sofar" using "1.prems"(3) True by (intro mod_less) simp
    define chunk where "chunk = bytes_at (src_mem s) (a + sofar) k"
    from "1.prems"(1) True have run: "(case find_nul chunk of Some i \<Rightarrow> mret (sofar + i + 1)
        | None \<Rightarrow> measure_from acc a (sofar + k)) s = Ret n t"
      by (subst (asm) measure_from.simps)
        (auto simp only: Let_def bnd_Ret k_def [symmetric] addr chunk_def if_True peek_run)
    show ?thesis
    proof (cases "find_nul chunk")
      case None
      have "src_mem s (a + i) \<noteq> 0" if "i < sofar + k" for i
      proof (cases "i < sofar")
        case False
        with that find_nul_None [OF None, of "i - sofar"] have "chunk ! (i - sofar) \<noteq> 0" by (simp add: chunk_def)
        with that False show ?thesis by (simp add: chunk_def)
      qed (rule "1.prems"(4))
      moreover from None run have "measure_from acc a (sofar + k) s = Ret n t" by simp
      ultimately show ?thesis using "1.IH" [OF True k_def None] "1.prems"(3) k(2) by blast
    next
      case (Some i)
      have "length chunk = k" by (simp add: chunk_def)
      with find_nul_Some [OF Some] have i: "i < k" "chunk ! i = 0" "\<forall>j<i. chunk ! j \<noteq> 0" by auto
      have "src_mem s (a + j) \<noteq> 0" if "j < sofar + i" for j
      proof (cases "j < sofar")
        case False
        with that i have "chunk ! (j - sofar) \<noteq> 0" by simp
        with that i(1) False show ?thesis by (simp add: chunk_def)
      qed (rule "1.prems"(4))
      moreover from i have "src_mem s (a + (sofar + i)) = 0" by (simp add: chunk_def add.assoc)
      moreover have "n = sofar + i + 1" "t = s" using run Some by simp_all
      ultimately show ?thesis using i(1) k(2) by (intro conjI exI [of _ "sofar + i"]) simp_all
    qed
  qed
qed

lemma measure_cstr_Ret:
  assumes "measure_cstr acc a s = Ret n t" and "a + CSTR_CAP \<le> 2 ^ 64"
  shows "t = s \<and> (\<exists>k < CSTR_CAP. n = Suc k \<and> (\<forall>i < k. src_mem s (a + i) \<noteq> 0)
    \<and> (src_mem s (a + k) = 0 \<or> n = CSTR_CAP))"
  using measure_from_Ret [OF _ _ assms(2), of acc 0 s n t] assms(1) unfolding measure_cstr_def by blast

text \<open>Runs that leave the state alone.\<close>

definition silent :: "'a mrun \<Rightarrow> bool" where
  "silent m \<longleftrightarrow> (\<forall>s. case m s of Trap r t \<Rightarrow> t = s | Ret x t \<Rightarrow> t = s)"

lemma silentD: "silent m \<Longrightarrow> m s = Ret x t \<Longrightarrow> t = s" "silent m \<Longrightarrow> m s = Trap r t \<Longrightarrow> t = s"
  unfolding silent_def by (drule spec [of _ s], simp)+

lemma silent_bnd: "silent m \<Longrightarrow> (\<And>x. silent (f x)) \<Longrightarrow> silent (bnd m f)"
  unfolding silent_def [of "bnd m f"] by (auto simp: bnd_def split: run.split dest: silentD)

lemma silent_leaf [simp]:
  "silent (mret x)" "silent (marshal_abort r)" "silent (check c r)" "silent (peek acc a n)"
  by (auto simp: silent_def mret_def marshal_abort_def check_def peek_def)

lemma keeps_silent: "silent m \<Longrightarrow> arena_used s \<le> ARENA_SIZE \<Longrightarrow> keeps arena b m s"
  by (auto simp: keeps_def frame_refl dest: silentD split: run.split)

lemma silent_measure_from: "silent (measure_from acc a sofar)"
proof (induction acc a sofar rule: measure_from.induct)
  case (1 acc a sofar)
  then show ?case
    by (subst measure_from.simps) (auto simp: Let_def intro!: silent_bnd split: option.split)
qed

lemma silent_measure_cstr [simp]: "silent (measure_cstr acc a)"
  by (simp add: measure_cstr_def silent_measure_from)

section \<open>The handle table is a finite map\<close>

text \<open>A store of keyed objects with a bounded number of slots: what the marshaller relies on. The
  operations are seen through the map \<open>look\<close>.\<close>

locale keyed_store =
  fixes ok :: "'t \<Rightarrow> bool"
    and look :: "'t \<Rightarrow> 'k \<Rightarrow> 'v option"
    and unused :: "'t \<Rightarrow> 'k \<Rightarrow> bool"
    and add :: "'t \<Rightarrow> 'k \<Rightarrow> 'v \<Rightarrow> 't option"
    and del :: "'t \<Rightarrow> 'k \<Rightarrow> 't"
  assumes add_ok: "ok t \<Longrightarrow> unused t k \<Longrightarrow> add t k v = Some t' \<Longrightarrow> ok t'"
    and add_look: "ok t \<Longrightarrow> unused t k \<Longrightarrow> add t k v = Some t' \<Longrightarrow> look t' = (look t)(k \<mapsto> v)"
    and del_ok: "ok t \<Longrightarrow> ok (del t k)"
    and del_look: "ok t \<Longrightarrow> look (del t k) = (look t)(k := None)"
    and unused_look: "ok t \<Longrightarrow> unused t k \<Longrightarrow> look t k = None"
begin

lemma add_then_look: "ok t \<Longrightarrow> unused t k \<Longrightarrow> add t k v = Some t' \<Longrightarrow> look t' k = Some v"
  by (simp add: add_look)

lemma add_fresh: "ok t \<Longrightarrow> unused t k \<Longrightarrow> add t k v = Some t' \<Longrightarrow> look t j = Some w \<Longrightarrow> look t' j = Some w"
  using unused_look by (auto simp: add_look)

lemma del_add: "ok t \<Longrightarrow> unused t k \<Longrightarrow> add t k v = Some t' \<Longrightarrow> look (del t' k) = look t"
  using unused_look by (auto simp: add_look add_ok del_look)

lemma del_then_look: "ok t \<Longrightarrow> look (del t k) k = None"
  by (simp add: del_look)

end

definition used_tokens :: "handle_entry list \<Rightarrow> nat list" where
  "used_tokens es = map app_token (filter in_use es)"

definition used_entries :: "handle_entry list \<Rightarrow> (nat \<times> nat \<times> nat) set" where
  "used_entries es = set (map (\<lambda>e. (app_token e, handle_class e, real_object e)) (filter in_use es))"

definition tokens_ok :: "handle_entry list \<Rightarrow> bool" where
  "tokens_ok es \<longleftrightarrow> distinct (used_tokens es)"

definition token_unused :: "handle_entry list \<Rightarrow> nat \<times> nat \<Rightarrow> bool" where
  "token_unused es k \<longleftrightarrow> snd k \<notin> set (used_tokens es)"

lemma used_simps [simp]:
  "used_tokens [] = []" "used_entries [] = {}" "tokens_ok []"
  "used_tokens (e # es) = (if in_use e then app_token e # used_tokens es else used_tokens es)"
  "used_entries (e # es) = (if in_use e then insert (app_token e, handle_class e, real_object e) (used_entries es)
     else used_entries es)"
  "tokens_ok (e # es) \<longleftrightarrow> (in_use e \<longrightarrow> app_token e \<notin> set (used_tokens es)) \<and> tokens_ok es"
  by (simp_all add: used_tokens_def used_entries_def tokens_ok_def)

lemma used_tokens_entries: "set (used_tokens es) = fst ` used_entries es"
  by (induction es) auto

lemma look_used: "tokens_ok es \<Longrightarrow>
  translate_handle_checked es cls tok = Some obj \<longleftrightarrow> (tok, cls, obj) \<in> used_entries es"
proof (induction es)
  case (Cons e es)
  have "(tok, c, w) \<notin> used_entries es" if "in_use e" "app_token e = tok" for c w
    using that Cons.prems by (force simp: used_tokens_entries)
  moreover have "translate_handle_checked (e # es) cls tok =
      (if handle_matches cls tok e then Some (real_object e) else translate_handle_checked es cls tok)"
    by (simp add: translate_handle_checked_def)
  ultimately show ?case using Cons by (auto simp: handle_matches_def)
qed (simp add: translate_handle_checked_def)

lemma map_eqI: "(\<And>k v. m k = Some v \<longleftrightarrow> m' k = Some v) \<Longrightarrow> m = m'"
  by (intro ext) (metis not_None_eq)

lemma register_in_used:
  "register_in es tok cls obj = Some es' \<Longrightarrow> used_entries es' = insert (tok, cls, obj) (used_entries es)"
  by (induction es arbitrary: es') (auto split: if_splits)

lemma register_in_tokens:
  "register_in es tok cls obj = Some es' \<Longrightarrow> tokens_ok es \<Longrightarrow> tok \<notin> set (used_tokens es) \<Longrightarrow>
   tokens_ok es' \<and> set (used_tokens es') = insert tok (set (used_tokens es))"
proof (induction es arbitrary: es')
  case (Cons e es)
  show ?case
  proof (cases "in_use e")
    case True
    with Cons.prems(1) obtain ds where ds: "register_in es tok cls obj = Some ds" "es' = e # ds" by auto
    from Cons.IH [OF ds(1)] Cons.prems True have "tokens_ok ds \<and> set (used_tokens ds) = insert tok (set (used_tokens es))"
      by simp
    with Cons.prems True ds(2) show ?thesis by auto
  next
    case False
    with Cons.prems show ?thesis by auto
  qed
qed simp

lemma release_used:
  "tokens_ok es \<Longrightarrow> used_entries (release_handle es cls tok) = {u \<in> used_entries es. \<not> (fst u = tok \<and> fst (snd u) = cls)}"
proof (induction es)
  case (Cons e es)
  have "fst u \<noteq> tok" if "in_use e" "app_token e = tok" "u \<in> used_entries es" for u
    using that Cons.prems by (force simp: used_tokens_entries)
  with Cons show ?case by (auto simp: handle_matches_def)
qed simp

lemma release_ok: "tokens_ok es \<Longrightarrow> tokens_ok (release_handle es cls tok) \<and> set (used_tokens (release_handle es cls tok)) \<subseteq> set (used_tokens es)"
  by (induction es) (auto simp: handle_matches_def)

text \<open>The table as a map from class and token to object, and its three operations on such keys.\<close>

definition handle_look :: "handle_entry list \<Rightarrow> nat \<times> nat \<Rightarrow> nat option" where
  "handle_look es k = translate_handle_checked es (fst k) (snd k)"

definition handle_add :: "handle_entry list \<Rightarrow> nat \<times> nat \<Rightarrow> nat \<Rightarrow> (handle_entry list) option" where
  "handle_add es k obj = register_in es (snd k) (fst k) obj"

definition handle_del :: "handle_entry list \<Rightarrow> nat \<times> nat \<Rightarrow> handle_entry list" where
  "handle_del es k = release_handle es (fst k) (snd k)"

lemma handle_look_used: "tokens_ok es \<Longrightarrow> handle_look es k = Some v \<longleftrightarrow> (snd k, fst k, v) \<in> used_entries es"
  by (simp add: handle_look_def look_used)

lemma unused_entry: "token_unused es k \<Longrightarrow> (snd k, c, v) \<notin> used_entries es"
  by (force simp: token_unused_def used_tokens_entries)

lemma handle_add_look:
  assumes "tokens_ok es" and "token_unused es k" and "handle_add es k v = Some es'"
  shows "handle_look es' = (handle_look es)(k \<mapsto> v)"
proof (rule map_eqI)
  fix j w
  have ok': "tokens_ok es'"
    using register_in_tokens [of es "snd k" "fst k" v es'] assms by (simp add: handle_add_def token_unused_def)
  have "used_entries es' = insert (snd k, fst k, v) (used_entries es)"
    using register_in_used assms(3) by (simp add: handle_add_def)
  moreover have "(snd j, fst j, w) = (snd k, fst k, v) \<longleftrightarrow> j = k \<and> w = v" by (auto simp: prod_eq_iff)
  ultimately show "handle_look es' j = Some w \<longleftrightarrow> ((handle_look es)(k \<mapsto> v)) j = Some w"
    using unused_entry [OF assms(2), of "fst k" w] assms(1)
    by (cases "j = k") (auto simp: handle_look_used ok')
qed

lemma handle_del_look:
  assumes "tokens_ok es"
  shows "handle_look (handle_del es k) = (handle_look es)(k := None)"
proof (rule map_eqI)
  fix j w
  have "tokens_ok (handle_del es k)" using release_ok [OF assms] by (simp add: handle_del_def)
  then show "handle_look (handle_del es k) j = Some w \<longleftrightarrow> ((handle_look es)(k := None)) j = Some w"
    using assms by (cases "j = k") (auto simp: handle_look_used handle_del_def release_used prod_eq_iff)
qed

interpretation handles: keyed_store tokens_ok handle_look token_unused handle_add handle_del
proof
  fix es k v es'
  assume *: "tokens_ok es" "token_unused es k" "handle_add es k v = Some es'"
  then show "handle_look es' = (handle_look es)(k \<mapsto> v)" by (rule handle_add_look)
  from * show "tokens_ok es'"
    using register_in_tokens [of es "snd k" "fst k" v es'] by (simp add: handle_add_def token_unused_def)
next
  fix es k assume ok: "tokens_ok es"
  then show "handle_look (handle_del es k) = (handle_look es)(k := None)" by (rule handle_del_look)
  show "tokens_ok (handle_del es k)" using release_ok [OF ok] by (simp add: handle_del_def)
next
  fix es k assume "tokens_ok es" "token_unused es k"
  then have "handle_look es k \<noteq> Some v" for v by (simp add: handle_look_used unused_entry)
  then show "handle_look es k = None" by (meson not_None_eq)
qed

text \<open>The table of a grate: as many entries as slots, and tokens issued once, starting from 1.\<close>

definition table_ok :: "mstate \<Rightarrow> bool" where
  "table_ok s \<longleftrightarrow>
     length (handle_table s) = HANDLE_TABLE_SIZE \<and> tokens_ok (handle_table s) \<and> 0 < next_token s
     \<and> list_all (\<lambda>tok. 0 < tok \<and> tok < next_token s) (used_tokens (handle_table s))"

lemma register_in_None: "register_in es tok cls obj = None \<longleftrightarrow> list_all in_use es"
  by (induction es) auto

lemma register_in_length: "register_in es tok cls obj = Some es' \<Longrightarrow> length es' = length es"
  by (induction es arbitrary: es') (auto split: if_splits)

lemma next_token_unused: "table_ok s \<Longrightarrow> token_unused (handle_table s) (cls, next_token s)"
  by (auto simp: table_ok_def token_unused_def list_all_iff)

text \<open>C27: The handle table implements a map from class and token to object with 64 slots. Registering
  an object gives it a new token that is not 0 and adds exactly that entry, unless every slot is
  taken: then the answer is 0 and nothing changes. Releasing the token gives back the map as it
  was. Tokens stay unique.\<close>

theorem register_handle_refines:
  assumes "table_ok s" and "next_token s + 1 < 2 ^ 64"
  shows "\<exists>tok t. register_handle cls obj s = Ret tok t \<and> table_ok t
    \<and> (if list_all in_use (handle_table s) then tok = 0 \<and> t = s
       else tok \<noteq> 0 \<and> (\<forall>c. handle_look (handle_table s) (c, tok) = None)
         \<and> handle_look (handle_table t) = (handle_look (handle_table s))((cls, tok) \<mapsto> obj)
         \<and> handle_look (release_handle (handle_table t) cls tok) = handle_look (handle_table s))"
proof (cases "register_in (handle_table s) (next_token s) cls obj")
  case None
  then have "list_all in_use (handle_table s)" by (simp add: register_in_None)
  with None assms(1) show ?thesis by (simp add: register_handle_def)
next
  case (Some es)
  let ?tok = "next_token s"
  let ?t = "s\<lparr> handle_table := es, next_token := next_token s + 1 \<rparr>"
  have run: "register_handle cls obj s = Ret ?tok ?t" using Some assms(2) by (simp add: register_handle_def)
  have free: "\<not> list_all in_use (handle_table s)"
    using Some register_in_None [of "handle_table s" ?tok cls obj] by simp
  have ok: "tokens_ok (handle_table s)" "0 < ?tok" using assms(1) by (simp_all add: table_ok_def)
  have un: "token_unused (handle_table s) (c, ?tok)" for c using assms(1) by (rule next_token_unused)
  have add: "handle_add (handle_table s) (cls, ?tok) obj = Some es" using Some by (simp add: handle_add_def)
  have "tokens_ok es \<and> set (used_tokens es) = insert ?tok (set (used_tokens (handle_table s)))"
    using register_in_tokens [OF Some ok(1)] un by (simp add: token_unused_def)
  then have "table_ok ?t" using assms(1) register_in_length [OF Some]
    by (auto simp: table_ok_def list_all_iff)
  moreover have "handle_look (handle_table s) (c, ?tok) = None" for c
    using handles.unused_look [OF ok(1) un] .
  moreover have "handle_look es = (handle_look (handle_table s))((cls, ?tok) \<mapsto> obj)"
    by (rule handles.add_look [OF ok(1) un add])
  moreover have "handle_look (release_handle es cls ?tok) = handle_look (handle_table s)"
    using handles.del_add [OF ok(1) un add] by (simp add: handle_del_def)
  ultimately show ?thesis using run free ok(2) by auto
qed

definition empty_state :: mstate where
  "empty_state = \<lparr> src_mem = (\<lambda>_. 0), grate_mem = (\<lambda>_. 0), arena_used = 0,
     handle_table = replicate 64 \<lparr> app_token = 0, real_object = 0, handle_class = 0, in_use = False \<rparr>,
     next_token = 1, marshal_source_cage = 0, marshal_grate_cage = 0 \<rparr>"

lemma empty_table: "table_ok empty_state"
  by (simp add: table_ok_def empty_state_def HANDLE_TABLE_SIZE_def tokens_ok_def used_tokens_def)

theorem register_handle_refines_witness:
  "\<exists>t. register_handle 7 4096 empty_state = Ret 1 t \<and> table_ok t
     \<and> handle_look (handle_table t) (7, 1) = Some 4096"
proof -
  have free: "\<not> list_all in_use (handle_table empty_state)"
    by (simp add: empty_state_def list_all_iff)
  then have "register_in (handle_table empty_state) 1 7 4096 \<noteq> None"
    using register_in_None [of "handle_table empty_state" 1 7 4096] by blast
  then have "register_handle 7 4096 empty_state = Ret tok t \<Longrightarrow> tok = 1" for tok t
    by (auto simp: empty_state_def register_handle_def)
  moreover have "next_token empty_state + 1 < 2 ^ 64" by (simp add: empty_state_def)
  moreover note free
  ultimately show ?thesis using register_handle_refines [OF empty_table, of 7 4096] by auto
qed

text \<open>Measuring a string in the source cage changes nothing and gives the number of bytes up to and
  with the first null byte, or the cap of 4096 bytes when there is none before it.\<close>

theorem measure_cstr_correct:
  assumes "measure_cstr acc a s = Ret n t" and "a + CSTR_CAP \<le> 2 ^ 64"
  shows "t = s \<and> (\<exists>k < CSTR_CAP. n = Suc k \<and> (\<forall>i < k. src_mem s (a + i) \<noteq> 0)
    \<and> (src_mem s (a + k) = 0 \<or> n = CSTR_CAP))"
  using assms by (rule measure_cstr_Ret)

theorem measure_cstr_correct_witness:
  "\<exists>n t. measure_cstr \<lparr> can_read = (\<lambda>_ _. True), can_write = (\<lambda>_ _. True) \<rparr> 100
      (empty_state\<lparr> src_mem := (\<lambda>x. if x < 103 then 1 else 0) \<rparr>) = Ret n t \<and> n = 4"
proof -
  let ?acc = "\<lparr> can_read = (\<lambda>_ _. True), can_write = (\<lambda>_ _. True) \<rparr>"
  let ?s = "empty_state\<lparr> src_mem := (\<lambda>x. if x < 103 then 1 else 0) \<rparr>"
  have "\<exists>n t. measure_cstr ?acc 100 ?s = Ret n t"
    by (simp add: measure_cstr_def measure_from.simps [of _ _ 0] CSTR_CAP_def bnd_Ret Let_def bytes_at_def
        upt_conv_Cons)
  then obtain n t where run: "measure_cstr ?acc 100 ?s = Ret n t" by blast
  obtain k where k: "n = Suc k" "\<forall>i < k. src_mem ?s (100 + i) \<noteq> 0" "src_mem ?s (100 + k) = 0 \<or> n = CSTR_CAP"
    using measure_cstr_correct [OF run] by (auto simp: CSTR_CAP_def)
  from k(2) have "\<not> 3 < k" by auto
  moreover from k(1,3) this have "\<not> k < 3" by (auto simp: CSTR_CAP_def split: if_splits)
  ultimately have "n = 4" using k(1) by linarith
  with run show ?thesis by blast
qed

text \<open>The string is read in blocks of 64 bytes. An empty string whose null byte is the last byte the
  source cage can read is not measured: the call is aborted.\<close>

lemma measure_cstr_overread:
  "measure_cstr \<lparr> can_read = (\<lambda>a n. a + n \<le> 65536), can_write = (\<lambda>a n. a + n \<le> 65536) \<rparr> 65535 empty_state
     = Trap ''copy_data_between_cages failed'' empty_state"
  by (simp add: measure_cstr_def measure_from.simps [of _ _ 0] CSTR_CAP_def bnd_def peek_def Let_def)

end
