(* ===== verification/Marshal_Call.thy ===== *)
theory Marshal_Call
  imports Marshal_Memory
begin

text \<open>
  One marshalled call of \<^verbatim>\<open>lind_marshal.h\<close>: the specification of the arguments, the shadows built
  before the call, the handler, the copies back and the translation of the result. The handler is
  an argument. The records of the shadows (\<^verbatim>\<open>shadows\<close>, \<^verbatim>\<open>_lind_ptr_field_track\<close>) are values of the
  model; the arena space of the latter is allocated as in the code.
\<close>

section \<open>Specifications\<close>

datatype arg_kind = ARG_SCALAR | ARG_PTR | ARG_HANDLE

datatype ptr_direction = PTR_IN | PTR_OUT | PTR_INOUT

datatype size_kind =
    SIZE_NONE | SIZE_CONST | SIZE_FROM_ARG | SIZE_FROM_ARG_POINTEE | SIZE_CSTR | SIZE_PTR_ARRAY

datatype return_kind =
    RET_VOID | RET_SCALAR | RET_PTR_ALIAS_ARG | RET_PTR_INTO_ARG | RET_HANDLE | RET_FORCE_LOCAL

datatype layout_kind = LO_BYTES | LO_STRUCT | LO_UNION

datatype arg_spec =
    Arg_Spec (as_kind: arg_kind) (ptr_direction: ptr_direction) (as_size_kind: size_kind)
      (const_size: nat) (size_arg_index: nat) (as_layout: "struct_layout option")
      (as_element: "arg_spec option") (as_handle_class: nat) (out_ptr_into_arg1: nat) (as_flags: nat)
and struct_layout =
    Layout (lo_kind: layout_kind) (lo_fields: "struct_field list") (discriminator_field: nat)
      (struct_size: nat)
and struct_field = Field (fld_offset: nat) (fld_spec: arg_spec) (fld_touched: bool)

record return_spec =
  rs_kind :: return_kind
  alias_arg_index :: nat
  rs_handle_class :: nat
  rs_flags :: nat

record marshal_spec =
  ms_args :: "arg_spec list"
  ms_ret :: return_spec

definition allow_one_past :: "nat \<Rightarrow> bool" where
  "allow_one_past flags \<longleftrightarrow> odd flags"

definition RAW_ARGS_MAX :: nat where "RAW_ARGS_MAX = 6"
definition PTR_ARRAY_MAX :: nat where "PTR_ARRAY_MAX = 1024"

text \<open>The size in bytes of \<^verbatim>\<open>struct _lind_ptr_field_track\<close> on the target.\<close>

definition TRACK_SIZE :: nat where "TRACK_SIZE = 48"

section \<open>Shadow records\<close>

record field_track =
  ft_offset :: nat
  orig_src_ptr :: nat
  shadow_start :: nat
  shadow_len :: nat
  ft_source_cage :: nat
  ft_grate_cage :: nat
  ft_spec :: arg_spec

record shadow =
  arg_index :: nat
  source_ptr :: nat
  shadow_ptr :: nat
  sh_size :: nat
  direction :: ptr_direction
  sh_source_cage :: nat
  sh_grate_cage :: nat
  sh_layout :: "struct_layout option"
  ptr_fields :: "field_track list"

text \<open>What every step of one call refers to: the host's access map, the address of the arena, the
  two cages, and the words that lie beyond the end of the raw arguments.\<close>

record call_env =
  env_acc :: access_map
  env_arena :: nat
  env_source :: nat
  env_grate :: nat
  env_beyond :: "nat \<Rightarrow> nat"

definition check_shadow_owner :: "call_env \<Rightarrow> nat \<Rightarrow> nat \<Rightarrow> string \<Rightarrow> unit mrun" where
  "check_shadow_owner e rec_source rec_grate reason =
     check (rec_source \<noteq> env_source e \<or> rec_grate \<noteq> env_grate e) reason"

section \<open>Sizes\<close>

text \<open>\<open>raw\<close> is the array of raw arguments; \<open>None\<close> is a null pointer, which the target reads as
  address 0.\<close>

definition raw_at :: "nat list option \<Rightarrow> nat \<Rightarrow> mstate \<Rightarrow> nat" where
  "raw_at raw i s =
     (case raw of Some r \<Rightarrow> r ! i | None \<Rightarrow> le_value (bytes_at (grate_mem s) (8 * i) 8))"

definition compute_size :: "call_env \<Rightarrow> arg_spec \<Rightarrow> nat list option \<Rightarrow> nat mrun" where
  "compute_size e as raw =
     (case as_size_kind as of
        SIZE_CONST \<Rightarrow> mret (size_cast (const_size as))
      | SIZE_FROM_ARG \<Rightarrow>
          bnd (check (RAW_ARGS_MAX \<le> size_arg_index as) ''size_arg_index out of range'') (\<lambda>_ s.
          mret (size_cast (raw_at raw (size_arg_index as) s)) s)
      | SIZE_FROM_ARG_POINTEE \<Rightarrow>
          bnd (check (RAW_ARGS_MAX \<le> size_arg_index as) ''size_arg_index out of range'') (\<lambda>_ s.
          bnd (peek (env_acc e) (raw_at raw (size_arg_index as) s) 4) (\<lambda>bs. mret (le_value bs)) s)
      | _ \<Rightarrow> mret 0)"

section \<open>Before the call\<close>

definition copies_in :: "ptr_direction \<Rightarrow> bool" where
  "copies_in d \<longleftrightarrow> d = PTR_IN \<or> d = PTR_INOUT"

definition copies_out :: "ptr_direction \<Rightarrow> bool" where
  "copies_out d \<longleftrightarrow> d = PTR_OUT \<or> d = PTR_INOUT"

definition grate_u32 :: "nat \<Rightarrow> nat mrun" where
  "grate_u32 a s = Ret (u32_at (grate_mem s) a) s"

definition grate_put_u32 :: "nat \<Rightarrow> nat \<Rightarrow> unit mrun" where
  "grate_put_u32 a v s = Ret () (s\<lparr> grate_mem := put_u32 (grate_mem s) a v \<rparr>)"

text \<open>An allocated shadow with its copy-in.\<close>

definition fill_shadow :: "call_env \<Rightarrow> ptr_direction \<Rightarrow> nat \<Rightarrow> nat \<Rightarrow> string \<Rightarrow> nat mrun" where
  "fill_shadow e d src_ptr len reason =
     bnd (alloc_or_abort (env_arena e) len reason) (\<lambda>shadow.
     bnd (if 0 < len \<and> copies_in d then copy_in (env_acc e) src_ptr shadow len else mret ()) (\<lambda>_.
     mret shadow))"

definition field_size :: "call_env \<Rightarrow> struct_layout \<Rightarrow> nat \<Rightarrow> nat \<Rightarrow> arg_spec \<Rightarrow> nat \<Rightarrow> nat mrun" where
  "field_size e lo shadow alloc_size fspec child_src =
     (case as_size_kind fspec of
        SIZE_CSTR \<Rightarrow> measure_cstr (env_acc e) child_src
      | SIZE_FROM_ARG \<Rightarrow>
          bnd (check (length (lo_fields lo) \<le> size_arg_index fspec) ''nested size_arg_index out of range'') (\<lambda>_.
          let sib_off = fld_offset (lo_fields lo ! size_arg_index fspec) in
          bnd (check (alloc_size < size_cast (sib_off + 4)) ''nested sibling field offset out of range'') (\<lambda>_.
          grate_u32 (size_cast (shadow + sib_off))))
      | SIZE_CONST \<Rightarrow> mret (size_cast (const_size fspec))
      | SIZE_FROM_ARG_POINTEE \<Rightarrow> marshal_abort ''nested pointer field: FROM_ARG_POINTEE unsupported''
      | _ \<Rightarrow> marshal_abort ''nested pointer field has no computable size'')"

definition pre_handle_field :: "nat \<Rightarrow> nat \<Rightarrow> unit mrun" where
  "pre_handle_field cls a =
     bnd (grate_u32 a) (\<lambda>tok.
     if tok = 0 then mret ()
     else (\<lambda>s. case translate_handle_checked (handle_table s) cls tok of
                 None \<Rightarrow> marshal_abort ''nested handle field: invalid token'' s
               | Some real \<Rightarrow> grate_put_u32 a (size_cast real) s))"

definition pre_ptr_field ::
  "call_env \<Rightarrow> struct_layout \<Rightarrow> nat \<Rightarrow> nat \<Rightarrow> nat \<Rightarrow> arg_spec \<Rightarrow> (field_track option) mrun" where
  "pre_ptr_field e lo shadow alloc_size offset fspec =
     bnd (grate_u32 (size_cast (shadow + offset))) (\<lambda>child_src.
     if child_src = 0 then mret None
     else
       bnd (field_size e lo shadow alloc_size fspec child_src) (\<lambda>child_size.
       bnd (fill_shadow e (ptr_direction fspec) child_src child_size ''nested shadow arena exhausted'') (\<lambda>child_shadow.
       bnd (grate_put_u32 (size_cast (shadow + offset)) child_shadow) (\<lambda>_.
       mret (Some \<lparr> ft_offset = offset, orig_src_ptr = child_src, shadow_start = child_shadow,
                    shadow_len = child_size, ft_source_cage = env_source e, ft_grate_cage = env_grate e,
                    ft_spec = fspec \<rparr>)))))"

definition pre_field ::
  "call_env \<Rightarrow> struct_layout \<Rightarrow> nat \<Rightarrow> nat \<Rightarrow> struct_field \<Rightarrow> (field_track option) mrun" where
  "pre_field e lo shadow alloc_size field =
     (if \<not> fld_touched field then mret None
      else let fspec = fld_spec field; offset = fld_offset field in
        bnd (check (as_kind fspec \<noteq> ARG_SCALAR \<and> alloc_size < size_cast (offset + 4))
               ''struct field offset out of range'') (\<lambda>_.
        case as_kind fspec of
          ARG_SCALAR \<Rightarrow> mret None
        | ARG_HANDLE \<Rightarrow> bnd (pre_handle_field (as_handle_class fspec) (size_cast (shadow + offset))) (\<lambda>_. mret None)
        | ARG_PTR \<Rightarrow> pre_ptr_field e lo shadow alloc_size offset fspec))"

fun pre_fields ::
  "call_env \<Rightarrow> struct_layout \<Rightarrow> nat \<Rightarrow> nat \<Rightarrow> struct_field list \<Rightarrow> (field_track list) mrun" where
  "pre_fields e lo shadow alloc_size [] = mret []"
| "pre_fields e lo shadow alloc_size (f # fs) =
     bnd (pre_field e lo shadow alloc_size f) (\<lambda>t.
     bnd (pre_fields e lo shadow alloc_size fs) (\<lambda>ts.
     mret (case t of None \<Rightarrow> ts | Some x \<Rightarrow> x # ts)))"

definition pre_struct :: "call_env \<Rightarrow> struct_layout \<Rightarrow> nat \<Rightarrow> nat \<Rightarrow> (field_track list) mrun" where
  "pre_struct e lo shadow alloc_size =
     bnd (check (SIZE_MAX div TRACK_SIZE < length (lo_fields lo)) ''pointer-field tracking count overflow'') (\<lambda>_.
     bnd (alloc_or_abort (env_arena e) (length (lo_fields lo) * TRACK_SIZE)
            ''pointer-field tracking arena exhausted'') (\<lambda>_.
     pre_fields e lo shadow alloc_size (lo_fields lo)))"

text \<open>The scan of a null-terminated array of pointers, at most \<^verbatim>\<open>LIND_PTR_ARRAY_MAX\<close> of them.\<close>

function scan_elems :: "call_env \<Rightarrow> nat \<Rightarrow> nat \<Rightarrow> (nat list) mrun" where
  "scan_elems e src_ptr n =
     (if n < PTR_ARRAY_MAX then
        bnd (peek (env_acc e) ((src_ptr + n * 4) mod 2 ^ 64) 4) (\<lambda>bs.
        if le_value bs = 0 then mret []
        else bnd (scan_elems e src_ptr (Suc n)) (\<lambda>ps. mret (le_value bs # ps)))
      else mret [])"
  by pat_completeness auto
termination
  by (relation "measure (\<lambda>(_, _, n). PTR_ARRAY_MAX - n)") auto

declare scan_elems.simps [simp del]

text \<open>The loop that marshals the elements and stores their shadows.\<close>

fun store_elems :: "(nat \<Rightarrow> nat mrun) \<Rightarrow> nat \<Rightarrow> nat list \<Rightarrow> unit mrun" where
  "store_elems pre slot [] = grate_put_u32 slot 0"
| "store_elems pre slot (p # ps) =
     bnd (pre p) (\<lambda>child. bnd (grate_put_u32 slot child) (\<lambda>_. store_elems pre (slot + 4) ps))"

definition pre_ptr_array :: "call_env \<Rightarrow> (nat \<Rightarrow> nat mrun) \<Rightarrow> nat \<Rightarrow> nat mrun" where
  "pre_ptr_array e pre src_ptr =
     bnd (scan_elems e src_ptr 0) (\<lambda>elems.
     bnd (alloc_or_abort (env_arena e) ((length elems + 1) * 4) ''pointer-array shadow arena exhausted'') (\<lambda>shadow.
     bnd (store_elems pre shadow elems) (\<lambda>_.
     mret shadow)))"

text \<open>\<^verbatim>\<open>_lind_pre_ptr\<close> for every kind but arrays of pointers.\<close>

definition ptr_size :: "call_env \<Rightarrow> arg_spec \<Rightarrow> nat list option \<Rightarrow> nat \<Rightarrow> nat mrun" where
  "ptr_size e as raw src_ptr =
     (if as_size_kind as = SIZE_CSTR then measure_cstr (env_acc e) src_ptr
      else if as_size_kind as \<in> {SIZE_CONST, SIZE_FROM_ARG, SIZE_FROM_ARG_POINTEE} then compute_size e as raw
      else marshal_abort ''pointer arg has no computable size'')"

definition shadow_alloc_size :: "arg_spec \<Rightarrow> nat \<Rightarrow> nat" where
  "shadow_alloc_size as len =
     (let n = (case as_layout as of None \<Rightarrow> len | Some lo \<Rightarrow> struct_size lo) in if n = 0 then len else n)"

definition pre_buffer :: "call_env \<Rightarrow> arg_spec \<Rightarrow> nat list option \<Rightarrow> nat \<Rightarrow> (nat \<times> field_track list) mrun" where
  "pre_buffer e as raw src_ptr =
     bnd (ptr_size e as raw src_ptr) (\<lambda>len.
     let alloc_size = shadow_alloc_size as len in
     bnd (fill_shadow e (ptr_direction as) src_ptr alloc_size ''shadow arena exhausted'') (\<lambda>shadow.
     case as_layout as of
       Some lo \<Rightarrow>
         if lo_kind lo = LO_STRUCT
         then bnd (pre_struct e lo shadow alloc_size) (\<lambda>ts. mret (shadow, ts))
         else mret (shadow, [])
     | None \<Rightarrow> mret (shadow, [])))"

fun pre_ptr :: "call_env \<Rightarrow> arg_spec \<Rightarrow> nat list option \<Rightarrow> nat \<Rightarrow> (nat \<times> field_track list) mrun" where
  "pre_ptr e (Arg_Spec k d z c i lo el h o1 fl) raw src_ptr =
     (if src_ptr = 0 then mret (0, [])
      else if z = SIZE_PTR_ARRAY then
        bnd (pre_ptr_array e
               (\<lambda>p. case el of
                      Some elem \<Rightarrow> bnd (pre_ptr e elem None p) (\<lambda>r. mret (fst r))
                    | None \<Rightarrow> mret p) src_ptr) (\<lambda>shadow. mret (shadow, []))
      else pre_buffer e (Arg_Spec k d z c i lo el h o1 fl) raw src_ptr)"

section \<open>After the call\<close>

definition nominal_size :: "struct_layout \<Rightarrow> nat \<Rightarrow> field_track \<Rightarrow> mstate \<Rightarrow> nat" where
  "nominal_size lo shadow t s =
     (if find (\<lambda>f. fld_offset f = ft_offset t) (lo_fields lo) \<noteq> None \<and> as_size_kind (ft_spec t) = SIZE_FROM_ARG
      then u32_at (grate_mem s) (size_cast (shadow + fld_offset (lo_fields lo ! size_arg_index (ft_spec t))))
      else if as_size_kind (ft_spec t) = SIZE_CONST then size_cast (const_size (ft_spec t))
      else 0)"

definition copy_back_size :: "struct_layout \<Rightarrow> nat \<Rightarrow> field_track \<Rightarrow> nat \<Rightarrow> mstate \<Rightarrow> nat" where
  "copy_back_size lo shadow t adv_offset s =
     (if copies_out (ptr_direction (ft_spec t)) then
        if adv_offset = 0 then min (nominal_size lo shadow t s) (shadow_len t) else adv_offset
      else 0)"

text \<open>Phase 1: the bytes to copy back and the pointer to leave, for each tracked field.\<close>

definition post_validate :: "call_env \<Rightarrow> struct_layout \<Rightarrow> nat \<Rightarrow> field_track \<Rightarrow> (nat \<times> nat) mrun" where
  "post_validate e lo shadow t =
     bnd (check_shadow_owner e (ft_source_cage t) (ft_grate_cage t)
            (''struct field shadow does not belong to this call'' @ [CHR 0x27] @ ''s cages'')) (\<lambda>_.
     bnd (grate_u32 (size_cast (shadow + ft_offset t))) (\<lambda>cur.
     if cur = 0 then mret (0, 0)
     else
       case validate_shadow_offset (shadow_start t) (shadow_len t) cur (allow_one_past (as_flags (ft_spec t))) of
         None \<Rightarrow> marshal_abort ''struct field: OUT pointer left outside its own shadow buffer''
       | Some adv_offset \<Rightarrow> (\<lambda>s.
           bnd (check_fits_wasm32_addr (orig_src_ptr t)
                  (''struct field: source pointer overflows the source cage'' @ [CHR 0x27] @ ''s address space'')) (\<lambda>_.
           bnd (check (2 ^ 32 - 1 - orig_src_ptr t < adv_offset)
                  (''struct field: translated pointer overflows the source cage'' @ [CHR 0x27] @ ''s address space'')) (\<lambda>_.
           mret (copy_back_size lo shadow t adv_offset s, size_cast (orig_src_ptr t + adv_offset)))) s)))"

fun post_validate_all :: "call_env \<Rightarrow> struct_layout \<Rightarrow> nat \<Rightarrow> field_track list \<Rightarrow> ((nat \<times> nat) list) mrun" where
  "post_validate_all e lo shadow [] = mret []"
| "post_validate_all e lo shadow (t # ts) =
     bnd (post_validate e lo shadow t) (\<lambda>v. bnd (post_validate_all e lo shadow ts) (\<lambda>vs. mret (v # vs)))"

text \<open>Phase 2: the pointers of the shadow are replaced. Phase 3: the buffers are copied back.\<close>

fun post_sanitize :: "nat \<Rightarrow> (field_track \<times> nat \<times> nat) list \<Rightarrow> unit mrun" where
  "post_sanitize shadow [] = mret ()"
| "post_sanitize shadow ((t, cb, new_src) # vs) =
     bnd (grate_put_u32 (size_cast (shadow + ft_offset t)) new_src) (\<lambda>_. post_sanitize shadow vs)"

fun post_copy :: "call_env \<Rightarrow> (field_track \<times> nat \<times> nat) list \<Rightarrow> unit mrun" where
  "post_copy e [] = mret ()"
| "post_copy e ((t, cb, new_src) # vs) =
     bnd (if 0 < cb then copy_out (env_acc e) (shadow_start t) (orig_src_ptr t) cb else mret ()) (\<lambda>_. post_copy e vs)"

definition post_scratch :: "call_env \<Rightarrow> nat \<Rightarrow> unit mrun" where
  "post_scratch e nptf =
     (if nptf = 0 then mret ()
      else
        bnd (check (SIZE_MAX div 4 < nptf) ''pointer-field post-validation count overflow'') (\<lambda>_.
        bnd (marshal_alloc (env_arena e) (nptf * 4)) (\<lambda>a.
        bnd (marshal_alloc (env_arena e) (nptf * 4)) (\<lambda>b.
        check (a = None \<or> b = None) ''post-call field validation arena exhausted''))))"

definition post_struct :: "call_env \<Rightarrow> struct_layout \<Rightarrow> shadow \<Rightarrow> unit mrun" where
  "post_struct e lo sh =
     (if \<not> copies_out (direction sh) then mret ()
      else
        bnd (check_shadow_owner e (sh_source_cage sh) (sh_grate_cage sh)
               (''struct shadow does not belong to this call'' @ [CHR 0x27] @ ''s cages'')) (\<lambda>_.
        bnd (post_scratch e (length (ptr_fields sh))) (\<lambda>_.
        bnd (post_validate_all e lo (shadow_ptr sh) (ptr_fields sh)) (\<lambda>vs.
        bnd (post_sanitize (shadow_ptr sh) (zip (ptr_fields sh) vs)) (\<lambda>_.
        bnd (post_copy e (zip (ptr_fields sh) vs)) (\<lambda>_.
        if 0 < sh_size sh then copy_out (env_acc e) (shadow_ptr sh) (source_ptr sh) (sh_size sh)
        else mret ()))))))"

section \<open>The call\<close>

definition recorded_size :: "call_env \<Rightarrow> arg_spec \<Rightarrow> nat list \<Rightarrow> nat \<Rightarrow> nat mrun" where
  "recorded_size e as raw src_ptr =
     bnd (case as_layout as of Some lo \<Rightarrow> mret (struct_size lo) | None \<Rightarrow> compute_size e as (Some raw)) (\<lambda>n.
     if as_size_kind as = SIZE_CSTR \<and> n = 0 then measure_cstr (env_acc e) src_ptr else mret n)"

definition pre_arg :: "call_env \<Rightarrow> nat list \<Rightarrow> nat \<Rightarrow> arg_spec \<Rightarrow> (nat \<times> shadow option) mrun" where
  "pre_arg e raw i as =
     (case as_kind as of
        ARG_SCALAR \<Rightarrow> mret (raw ! i, None)
      | ARG_HANDLE \<Rightarrow>
          if raw ! i = 0 then mret (0, None)
          else (\<lambda>s. case translate_handle_checked (handle_table s) (as_handle_class as) (raw ! i) of
                      None \<Rightarrow> marshal_abort ''handle arg: invalid token'' s
                    | Some real \<Rightarrow> mret (real, None) s)
      | ARG_PTR \<Rightarrow>
          if raw ! i = 0 then mret (0, None)
          else
            bnd (pre_ptr e as (Some raw) (raw ! i)) (\<lambda>(shadow, ptf).
            bnd (recorded_size e as raw (raw ! i)) (\<lambda>n.
            mret (shadow,
              if shadow \<noteq> size_cast (raw ! i) then
                Some \<lparr> arg_index = i, source_ptr = raw ! i, shadow_ptr = shadow, sh_size = n,
                       direction = ptr_direction as, sh_source_cage = env_source e,
                       sh_grate_cage = env_grate e, sh_layout = as_layout as, ptr_fields = ptf \<rparr>
              else None))))"

fun pre_args :: "call_env \<Rightarrow> nat list \<Rightarrow> nat \<Rightarrow> arg_spec list \<Rightarrow> (nat list \<times> shadow list) mrun" where
  "pre_args e raw i [] = mret ([], [])"
| "pre_args e raw i (as # rest) =
     bnd (pre_arg e raw i as) (\<lambda>(v, sh).
     bnd (pre_args e raw (Suc i) rest) (\<lambda>(vs, shs).
     mret (v # vs, (case sh of None \<Rightarrow> shs | Some x \<Rightarrow> x # shs))))"

definition find_shadow :: "nat \<Rightarrow> shadow list \<Rightarrow> shadow option" where
  "find_shadow i shs = find (\<lambda>sh. arg_index sh = i) shs"

definition post_into_arg :: "call_env \<Rightarrow> shadow list \<Rightarrow> arg_spec \<Rightarrow> shadow \<Rightarrow> unit mrun" where
  "post_into_arg e shs sas sh =
     bnd (grate_u32 (shadow_ptr sh)) (\<lambda>inner.
     bnd (if inner = 0 then mret 0
          else case find_shadow (out_ptr_into_arg1 sas - 1) shs of
            None \<Rightarrow> marshal_abort ''OUT ptr-to-ptr: aliased argument has no shadow''
          | Some t \<Rightarrow>
              bnd (check_shadow_owner e (sh_source_cage t) (sh_grate_cage t)
                     (''OUT ptr-to-ptr: aliased shadow does not belong to this call'' @ [CHR 0x27] @ ''s cages'')) (\<lambda>_.
              bnd (translate_shadow_ptr_or_abort (shadow_ptr t) (sh_size t) (allow_one_past (as_flags sas))
                     (source_ptr t) inner
                     (''OUT ptr-to-ptr: value outside the aliased argument'' @ [CHR 0x27] @ ''s shadow buffer'')) (\<lambda>v.
              mret (size_cast v)))) (\<lambda>translated.
     poke_u32 (env_acc e) (source_ptr sh) translated))"

definition post_arg :: "call_env \<Rightarrow> arg_spec list \<Rightarrow> shadow list \<Rightarrow> shadow \<Rightarrow> unit mrun" where
  "post_arg e args shs sh =
     (if out_ptr_into_arg1 (args ! arg_index sh) \<noteq> 0 then post_into_arg e shs (args ! arg_index sh) sh
      else case sh_layout sh of
             Some lo \<Rightarrow> post_struct e lo sh
           | None \<Rightarrow>
               if 0 < sh_size sh \<and> copies_out (direction sh)
               then copy_out (env_acc e) (shadow_ptr sh) (source_ptr sh) (sh_size sh)
               else mret ())"

fun post_args :: "call_env \<Rightarrow> arg_spec list \<Rightarrow> shadow list \<Rightarrow> shadow list \<Rightarrow> unit mrun" where
  "post_args e args shs [] = mret ()"
| "post_args e args shs (sh # rest) = bnd (post_arg e args shs sh) (\<lambda>_. post_args e args shs rest)"

definition translate_return :: "call_env \<Rightarrow> return_spec \<Rightarrow> nat list \<Rightarrow> shadow list \<Rightarrow> nat \<Rightarrow> nat mrun" where
  "translate_return e rs raw shs handler_ret =
     (case rs_kind rs of
        RET_VOID \<Rightarrow> mret 0
      | RET_PTR_ALIAS_ARG \<Rightarrow>
          mret (if alias_arg_index rs < length raw then raw ! alias_arg_index rs else env_beyond e (alias_arg_index rs))
      | RET_PTR_INTO_ARG \<Rightarrow>
          if handler_ret = 0 then mret 0
          else (case find_shadow (alias_arg_index rs) shs of
             None \<Rightarrow> marshal_abort ''pointer-into-arg return: aliased argument has no shadow''
           | Some t \<Rightarrow>
               bnd (check_shadow_owner e (sh_source_cage t) (sh_grate_cage t)
                      (''pointer-into-arg return: aliased shadow does not belong to this call'' @ [CHR 0x27] @ ''s cages'')) (\<lambda>_.
               translate_shadow_ptr_or_abort (shadow_ptr t) (sh_size t) (allow_one_past (rs_flags rs))
                 (source_ptr t) handler_ret
                 (''pointer-into-arg return: value outside the aliased argument'' @ [CHR 0x27] @ ''s shadow buffer'')))
      | RET_HANDLE \<Rightarrow>
          bnd (register_handle (rs_handle_class rs) handler_ret) (\<lambda>tok.
          bnd (check (tok = 0) ''handle table exhausted'') (\<lambda>_. mret tok))
      | _ \<Rightarrow> mret handler_ret)"

text \<open>The handler takes the six words of its argument list and changes the state of the grate.\<close>

type_synonym handler6 = "nat list \<Rightarrow> mstate \<Rightarrow> nat \<times> mstate"

definition call_handler :: "handler6 \<Rightarrow> nat list \<Rightarrow> nat mrun" where
  "call_handler h args s = (let (r, t) = h (take 6 (args @ replicate 6 0)) s in Ret r t)"

definition call_env_of :: "access_map \<Rightarrow> nat \<Rightarrow> (nat \<Rightarrow> nat) \<Rightarrow> nat \<Rightarrow> nat \<Rightarrow> call_env" where
  "call_env_of acc arena beyond source_cage grate_cage =
     \<lparr> env_acc = acc, env_arena = arena, env_source = source_cage, env_grate = grate_cage, env_beyond = beyond \<rparr>"

definition marshal_dispatch ::
  "access_map \<Rightarrow> nat \<Rightarrow> (nat \<Rightarrow> nat) \<Rightarrow> handler6 \<Rightarrow> marshal_spec \<Rightarrow> nat \<Rightarrow> nat \<Rightarrow> nat list \<Rightarrow> nat \<Rightarrow> nat mrun" where
  "marshal_dispatch acc arena beyond h spec source_cage grate_cage raw nargs =
     (let e = call_env_of acc arena beyond source_cage grate_cage in
      bnd (check (RAW_ARGS_MAX < length (ms_args spec)) ''marshal spec exceeds raw ABI slot capacity'') (\<lambda>_.
      bnd marshal_reset (\<lambda>_.
      bnd (\<lambda>s. Ret () (s\<lparr> marshal_source_cage := source_cage, marshal_grate_cage := grate_cage \<rparr>)) (\<lambda>_.
      bnd (pre_args e raw 0 (take nargs (ms_args spec))) (\<lambda>(handler_args, shadows).
      bnd (call_handler h handler_args) (\<lambda>handler_ret.
      bnd (post_args e (ms_args spec) shadows shadows) (\<lambda>_.
      bnd (translate_return e (ms_ret spec) raw shadows handler_ret) (\<lambda>result.
      bnd marshal_reset (\<lambda>_.
      mret result)))))))))"

text \<open>The raw handler the macro \<^verbatim>\<open>LIND_DEFINE_MARSHAL_HANDLER\<close> generates.\<close>

definition first_cage :: "nat list \<Rightarrow> nat" where
  "first_cage cages = (case find (\<lambda>c. c \<noteq> 0) cages of None \<Rightarrow> 0 | Some c \<Rightarrow> c)"

definition marshal_handler ::
  "access_map \<Rightarrow> nat \<Rightarrow> (nat \<Rightarrow> nat) \<Rightarrow> handler6 \<Rightarrow> marshal_spec \<Rightarrow> nat \<Rightarrow> nat list \<Rightarrow> nat list \<Rightarrow> nat mrun" where
  "marshal_handler acc arena beyond h spec cageid raw cages =
     marshal_dispatch acc arena beyond h spec (first_cage cages) cageid raw (length (ms_args spec))"

section \<open>The frame of the marshalling\<close>

lemma silent_dep:
  "silent (\<lambda>s. mret (g s) s)" "(\<And>x. silent (f x)) \<Longrightarrow> silent (\<lambda>s. bnd (peek acc (h s) n) f s)"
  using silent_bnd [OF silent_leaf(4), of f acc _ n] by (simp_all add: silent_def mret_def)

lemma silent_grate_u32 [simp]: "silent (grate_u32 a)"
  by (simp add: silent_def grate_u32_def)

lemma silent_compute_size [simp]: "silent (compute_size e as raw)"
  unfolding compute_size_def
  by (cases "as_size_kind as") (auto intro!: silent_bnd simp: silent_dep)

lemma silent_ptr_size [simp]: "silent (ptr_size e as raw p)"
  by (simp add: ptr_size_def)

lemma silent_field_size [simp]: "silent (field_size e lo sh n fspec p)"
  unfolding field_size_def Let_def by (cases "as_size_kind fspec") (auto intro!: silent_bnd)

lemma silent_recorded_size [simp]: "silent (recorded_size e as raw p)"
  unfolding recorded_size_def by (auto intro!: silent_bnd split: option.split)

lemma silent_scan_elems [simp]: "silent (scan_elems e p n)"
proof (induction e p n rule: scan_elems.induct)
  case (1 e p n)
  then show ?case by (subst scan_elems.simps) (auto intro!: silent_bnd)
qed

lemma keeps_put_u32:
  assumes "arena_used s \<le> ARENA_SIZE" and "b \<le> a" and "a + 4 \<le> arena + arena_used s"
  shows "keeps arena b (grate_put_u32 a v) s"
  using assms by (auto simp: keeps_def grate_put_u32_def frame_def put_u32_def)

lemma keeps_silentI: "silent m \<Longrightarrow> arena_used s \<le> ARENA_SIZE \<Longrightarrow> keeps arena b m s"
  by (rule keeps_silent)

lemma keeps_fill_shadow:
  assumes "arena_used s \<le> ARENA_SIZE" and "b \<le> env_arena e + arena_used s"
  shows "keeps (env_arena e) b (fill_shadow e d p n r) s"
  unfolding fill_shadow_def
proof (intro keeps_bnd keeps_alloc_or_abort assms)
  fix sh t assume "alloc_or_abort (env_arena e) n r s = Ret sh t"
  from alloc_or_abort_Ret [OF this assms(1)] have sh: "sh = env_arena e + arena_used s"
    "arena_used t \<le> ARENA_SIZE" "sh + n \<le> env_arena e + arena_used t" by auto
  then show "keeps (env_arena e) b (if 0 < n \<and> copies_in d then copy_in (env_acc e) p sh n else mret ()) t"
    using assms(2) by (simp add: keeps_copy_in keeps_leaf)
next
  fix sh t x u
  assume "frame (env_arena e) b t u"
  then show "keeps (env_arena e) b (mret sh) u" by (simp add: frame_def keeps_leaf)
qed

lemma fill_shadow_Ret:
  assumes "fill_shadow e d p n r s = Ret sh t" and "arena_used s \<le> ARENA_SIZE"
  shows "sh = env_arena e + arena_used s \<and> sh + n \<le> env_arena e + arena_used t \<and> arena_used t \<le> ARENA_SIZE
    \<and> (copies_in d \<longrightarrow> (\<forall>k<n. grate_mem t (sh + k) = src_mem s (p + k)))"
proof -
  from assms(1) obtain u where alloc: "alloc_or_abort (env_arena e) n r s = Ret sh u"
    and copy: "(if 0 < n \<and> copies_in d then copy_in (env_acc e) p sh n else mret ()) u = Ret () t"
    by (auto simp: fill_shadow_def bnd_Ret)
  from alloc_or_abort_Ret [OF alloc assms(2)] have u: "sh = env_arena e + arena_used s"
    "arena_used u \<le> ARENA_SIZE" "sh + n \<le> env_arena e + arena_used u" "src_mem u = src_mem s" by auto
  show ?thesis
  proof (cases "0 < n \<and> copies_in d")
    case True
    with copy u show ?thesis by (auto simp: copy_in_def blit_def split: if_splits)
  next
    case False
    with copy u show ?thesis by auto
  qed
qed

text \<open>Writes into the shadow of a record.\<close>

lemma size_cast_small: "v < 2 ^ 32 \<Longrightarrow> size_cast v = v"
  by (simp add: size_cast_def)

definition arena_fits :: "call_env \<Rightarrow> bool" where
  "arena_fits e \<longleftrightarrow> env_arena e + ARENA_SIZE < 2 ^ 32"

lemma keeps_pre_handle_field:
  assumes "arena_used s \<le> ARENA_SIZE" and "b \<le> a" and "a + 4 \<le> arena + arena_used s"
  shows "keeps arena b (pre_handle_field cls a) s"
  unfolding pre_handle_field_def
proof (intro keeps_bnd keeps_silentI [OF silent_grate_u32] assms(1))
  fix tok t assume "grate_u32 a s = Ret tok t"
  then have t: "t = s" by (simp add: grate_u32_def)
  show "keeps arena b (if tok = 0 then mret ()
     else (\<lambda>s. case translate_handle_checked (handle_table s) cls tok of
                 None \<Rightarrow> marshal_abort ''nested handle field: invalid token'' s
               | Some real \<Rightarrow> grate_put_u32 a (size_cast real) s)) t"
    using keeps_put_u32 [OF assms] keeps_leaf [OF assms(1)]
    by (auto simp: t keeps_def mret_def marshal_abort_def split: option.split)
qed

text \<open>One field, given that the shadow of the record lies in the allocated part of the arena.\<close>

lemma keeps_pre_ptr_field:
  assumes fits: "arena_fits e" and used: "arena_used s \<le> ARENA_SIZE" and b: "b \<le> sh" "b \<le> env_arena e + arena_used s"
    and off: "sh + off + 4 \<le> env_arena e + arena_used s"
  shows "keeps (env_arena e) b (pre_ptr_field e lo sh n off fspec) s"
  unfolding pre_ptr_field_def
proof (intro keeps_bnd keeps_silentI [OF silent_grate_u32] used)
  have cast: "size_cast (sh + off) = sh + off"
    using off fits used by (intro size_cast_small) (simp add: arena_fits_def)
  fix p t assume "grate_u32 (size_cast (sh + off)) s = Ret p t"
  then have t: "t = s" by (simp add: grate_u32_def)
  show "keeps (env_arena e) b (if p = 0 then mret None
     else bnd (field_size e lo sh n fspec p) (\<lambda>child_size.
       bnd (fill_shadow e (ptr_direction fspec) p child_size ''nested shadow arena exhausted'') (\<lambda>child_shadow.
       bnd (grate_put_u32 (size_cast (sh + off)) child_shadow) (\<lambda>_.
       mret (Some \<lparr> ft_offset = off, orig_src_ptr = p, shadow_start = child_shadow,
                    shadow_len = child_size, ft_source_cage = env_source e, ft_grate_cage = env_grate e,
                    ft_spec = fspec \<rparr>))))) t"
  proof (cases "p = 0")
    case False
    show ?thesis unfolding t if_not_P [OF False] cast
    proof (intro keeps_bnd keeps_silentI [OF silent_field_size] used)
      fix k u assume "field_size e lo sh n fspec p s = Ret k u"
      then have u: "u = s" by (rule silentD(1) [OF silent_field_size])
      show "keeps (env_arena e) b (fill_shadow e (ptr_direction fspec) p k ''nested shadow arena exhausted'') u"
        using used b(2) by (simp add: u keeps_fill_shadow)
    next
      fix k u c v assume "field_size e lo sh n fspec p s = Ret k u"
      then have u: "u = s" by (rule silentD(1) [OF silent_field_size])
      assume "frame (env_arena e) b u v"
      then have v: "arena_used s \<le> arena_used v" "arena_used v \<le> ARENA_SIZE" by (simp_all add: u frame_def)
      with b off show "keeps (env_arena e) b (grate_put_u32 (sh + off) c) v" by (intro keeps_put_u32) simp_all
    next
      fix k u c v w assume "frame (env_arena e) b v w"
      then show "keeps (env_arena e) b (mret x) w" for x by (simp add: frame_def keeps_leaf)
    qed
  qed (simp add: t used keeps_leaf)
qed

lemma keeps_pre_field:
  assumes fits: "arena_fits e" and used: "arena_used s \<le> ARENA_SIZE" and b: "b \<le> sh" "b \<le> env_arena e + arena_used s"
    and sh: "sh + n \<le> env_arena e + arena_used s" and off: "fld_offset f + 4 < 2 ^ 32"
  shows "keeps (env_arena e) b (pre_field e lo sh n f) s"
proof (cases "fld_touched f")
  case False
  with used show ?thesis by (simp add: pre_field_def keeps_leaf)
next
  case True
  show ?thesis unfolding pre_field_def if_not_P [OF not_not [THEN iffD2, OF True]] Let_def
  proof (rule keeps_bnd)
    fix x t
    assume "check (as_kind (fld_spec f) \<noteq> ARG_SCALAR \<and> n < size_cast (fld_offset f + 4))
              ''struct field offset out of range'' s = Ret x t"
    then have t: "t = s" and c: "as_kind (fld_spec f) = ARG_SCALAR \<or> fld_offset f + 4 \<le> n"
      using off by (auto simp: size_cast_small)
    show "keeps (env_arena e) b (case as_kind (fld_spec f) of ARG_SCALAR \<Rightarrow> mret None
        | ARG_PTR \<Rightarrow> pre_ptr_field e lo sh n (fld_offset f) (fld_spec f)
        | ARG_HANDLE \<Rightarrow> bnd (pre_handle_field (as_handle_class (fld_spec f)) (size_cast (sh + fld_offset f))) (\<lambda>_. mret None)) t"
    proof (cases "as_kind (fld_spec f)")
      case ARG_SCALAR
      with used t show ?thesis by (simp add: keeps_leaf)
    next
      case ARG_PTR
      with c sh have "sh + fld_offset f + 4 \<le> env_arena e + arena_used s" by simp
      from keeps_pre_ptr_field [OF fits used b this] ARG_PTR t show ?thesis by simp
    next
      case ARG_HANDLE
      with c sh have le: "sh + fld_offset f + 4 \<le> env_arena e + arena_used s" by simp
      have cast: "size_cast (sh + fld_offset f) = sh + fld_offset f"
        using le fits used by (intro size_cast_small) (simp add: arena_fits_def)
      have "keeps (env_arena e) b (bnd (pre_handle_field (as_handle_class (fld_spec f)) (sh + fld_offset f)) (\<lambda>_. mret None)) s"
        using used b(1) le
        by (intro keeps_bnd keeps_pre_handle_field) (auto simp: frame_def keeps_leaf)
      with ARG_HANDLE t cast show ?thesis by simp
    qed
  qed (simp add: used keeps_leaf)
qed

lemma keeps_pre_fields:
  assumes "arena_fits e" and "arena_used s \<le> ARENA_SIZE" and "b \<le> sh" "b \<le> env_arena e + arena_used s"
    and "sh + n \<le> env_arena e + arena_used s" and "list_all (\<lambda>f. fld_offset f + 4 < 2 ^ 32) fs"
  shows "keeps (env_arena e) b (pre_fields e lo sh n fs) s"
  using assms
proof (induction fs arbitrary: s)
  case Nil
  then show ?case by (simp add: keeps_leaf)
next
  case (Cons f fs)
  show ?case unfolding pre_fields.simps
  proof (intro keeps_bnd)
    show "keeps (env_arena e) b (pre_field e lo sh n f) s" using Cons.prems by (intro keeps_pre_field) simp_all
    fix x t assume "frame (env_arena e) b s t"
    then have t: "arena_used s \<le> arena_used t" "arena_used t \<le> ARENA_SIZE" by (simp_all add: frame_def)
    with Cons.prems show "keeps (env_arena e) b (pre_fields e lo sh n fs) t" by (intro Cons.IH) simp_all
    fix y u assume "frame (env_arena e) b t u"
    then show "keeps (env_arena e) b (mret z) u" for z by (simp add: frame_def keeps_leaf)
  qed
qed

lemma keeps_pre_struct:
  assumes "arena_fits e" and "arena_used s \<le> ARENA_SIZE" and "b \<le> sh" "b \<le> env_arena e + arena_used s"
    and "sh + n \<le> env_arena e + arena_used s" and "list_all (\<lambda>f. fld_offset f + 4 < 2 ^ 32) (lo_fields lo)"
  shows "keeps (env_arena e) b (pre_struct e lo sh n) s"
  unfolding pre_struct_def
proof (intro keeps_bnd)
  show "keeps (env_arena e) b (check (SIZE_MAX div TRACK_SIZE < length (lo_fields lo))
      ''pointer-field tracking count overflow'') s" using assms(2) by (simp add: keeps_leaf)
  fix x t assume t: "frame (env_arena e) b s t"
  then show "keeps (env_arena e) b (alloc_or_abort (env_arena e) (length (lo_fields lo) * TRACK_SIZE)
      ''pointer-field tracking arena exhausted'') t"
    by (intro keeps_alloc_or_abort) (simp add: frame_def)
  fix y u assume "frame (env_arena e) b t u"
  with t have "arena_used s \<le> arena_used u" "arena_used u \<le> ARENA_SIZE" by (simp_all add: frame_def)
  with assms show "keeps (env_arena e) b (pre_fields e lo sh n (lo_fields lo)) u"
    by (intro keeps_pre_fields) simp_all
qed

text \<open>Specifications whose field offsets leave room for a pointer in the address space.\<close>

fun spec_ok :: "arg_spec \<Rightarrow> bool" where
  "spec_ok (Arg_Spec k d z c i lo el h o1 fl) \<longleftrightarrow>
     (case lo of None \<Rightarrow> True | Some l \<Rightarrow> list_all (\<lambda>f. fld_offset f + 4 < 2 ^ 32) (lo_fields l))
     \<and> (case el of None \<Rightarrow> True | Some elem \<Rightarrow> spec_ok elem)"

lemma shadow_alloc_size_le: "as_layout as = None \<Longrightarrow> shadow_alloc_size as n = n"
  by (simp add: shadow_alloc_size_def Let_def)

lemma pre_buffer_keeps:
  assumes fits: "arena_fits e" and used: "arena_used s \<le> ARENA_SIZE" and ok: "spec_ok as"
  shows "keeps (env_arena e) (env_arena e + arena_used s) (pre_buffer e as raw p) s"
  unfolding pre_buffer_def Let_def
proof (intro keeps_bnd keeps_silentI [OF silent_ptr_size] used)
  fix n t assume "ptr_size e as raw p s = Ret n t"
  then have t: "t = s" by (rule silentD(1) [OF silent_ptr_size])
  show "keeps (env_arena e) (env_arena e + arena_used s)
      (fill_shadow e (ptr_direction as) p (shadow_alloc_size as n) ''shadow arena exhausted'') t"
    using used by (simp add: t keeps_fill_shadow)
  fix sh u assume fill: "fill_shadow e (ptr_direction as) p (shadow_alloc_size as n) ''shadow arena exhausted'' t = Ret sh u"
    and "frame (env_arena e) (env_arena e + arena_used s) t u"
  then have u: "arena_used s \<le> arena_used u" "arena_used u \<le> ARENA_SIZE" by (simp_all add: t frame_def)
  have sh: "sh = env_arena e + arena_used s" "sh + shadow_alloc_size as n \<le> env_arena e + arena_used u"
    using fill_shadow_Ret [OF fill] used t by simp_all
  show "keeps (env_arena e) (env_arena e + arena_used s)
      (case as_layout as of None \<Rightarrow> mret (sh, [])
       | Some lo \<Rightarrow> if lo_kind lo = LO_STRUCT then bnd (pre_struct e lo sh (shadow_alloc_size as n)) (\<lambda>ts. mret (sh, ts))
                    else mret (sh, [])) u"
  proof (cases "as_layout as")
    case (Some lo)
    have lo: "list_all (\<lambda>f. fld_offset f + 4 < 2 ^ 32) (lo_fields lo)"
      using ok Some by (cases as) simp
    have "keeps (env_arena e) (env_arena e + arena_used s) (bnd (pre_struct e lo sh (shadow_alloc_size as n)) (\<lambda>ts. mret (sh, ts))) u"
    proof (rule keeps_bnd)
      show "keeps (env_arena e) (env_arena e + arena_used s) (pre_struct e lo sh (shadow_alloc_size as n)) u"
        using u sh by (intro keeps_pre_struct fits lo) simp_all
      fix ts v assume "frame (env_arena e) (env_arena e + arena_used s) u v"
      then show "keeps (env_arena e) (env_arena e + arena_used s) (mret (sh, ts)) v" by (simp add: frame_def keeps_leaf)
    qed
    with Some u(2) show ?thesis by (simp add: keeps_leaf)
  qed (simp add: u(2) keeps_leaf)
qed

lemma pre_buffer_Ret:
  assumes "pre_buffer e as raw p s = Ret (sh, ts) t" and "arena_used s \<le> ARENA_SIZE"
  shows "sh = env_arena e + arena_used s"
proof -
  from assms(1) obtain n u v where "ptr_size e as raw p s = Ret n u"
    "fill_shadow e (ptr_direction as) p (shadow_alloc_size as n) ''shadow arena exhausted'' u = Ret sh v"
    by (auto simp: pre_buffer_def Let_def bnd_Ret split: option.splits if_splits)
  with fill_shadow_Ret silentD(1) [OF silent_ptr_size] assms(2) show ?thesis by blast
qed

lemma store_elems_keeps:
  assumes "arena_used s \<le> ARENA_SIZE" and "b \<le> slot" and "b \<le> env_arena e + arena_used s"
    and "slot + 4 * (length ps + 1) \<le> env_arena e + arena_used s"
    and pre: "\<And>p t. arena_used t \<le> ARENA_SIZE \<Longrightarrow> keeps (env_arena e) (env_arena e + arena_used t) (pre p) t"
  shows "keeps (env_arena e) b (store_elems pre slot ps) s"
  using assms(1-4)
proof (induction ps arbitrary: s slot)
  case Nil
  then show ?case by (simp add: keeps_put_u32)
next
  case (Cons p ps)
  show ?case unfolding store_elems.simps
  proof (intro keeps_bnd)
    show "keeps (env_arena e) b (pre p) s"
      using pre [OF Cons.prems(1), of p] Cons.prems(3) frame_weaken
      by (auto simp: keeps_def split: run.splits)
    fix c t assume "frame (env_arena e) b s t"
    then have t: "arena_used s \<le> arena_used t" "arena_used t \<le> ARENA_SIZE" by (simp_all add: frame_def)
    with Cons.prems show "keeps (env_arena e) b (grate_put_u32 slot c) t" by (intro keeps_put_u32) simp_all
    fix x u assume "frame (env_arena e) b t u"
    then have "arena_used t \<le> arena_used u" "arena_used u \<le> ARENA_SIZE" by (simp_all add: frame_def)
    with t Cons.prems show "keeps (env_arena e) b (store_elems pre (slot + 4) ps) u" by (intro Cons.IH) simp_all
  qed
qed

lemma pre_ptr_array_keeps:
  assumes used: "arena_used s \<le> ARENA_SIZE"
    and pre: "\<And>p t. arena_used t \<le> ARENA_SIZE \<Longrightarrow> keeps (env_arena e) (env_arena e + arena_used t) (pre p) t"
  shows "keeps (env_arena e) (env_arena e + arena_used s) (pre_ptr_array e pre p) s"
  unfolding pre_ptr_array_def
proof (intro keeps_bnd keeps_silentI [OF silent_scan_elems] used)
  fix ps t assume "scan_elems e p 0 s = Ret ps t"
  then have t: "t = s" by (rule silentD(1) [OF silent_scan_elems])
  show "keeps (env_arena e) (env_arena e + arena_used s)
      (alloc_or_abort (env_arena e) ((length ps + 1) * 4) ''pointer-array shadow arena exhausted'') t"
    using used by (simp add: t keeps_alloc_or_abort)
  fix sh u
  assume "alloc_or_abort (env_arena e) ((length ps + 1) * 4) ''pointer-array shadow arena exhausted'' t = Ret sh u"
  from alloc_or_abort_Ret [OF this] used t have u: "sh = env_arena e + arena_used s" "arena_used u \<le> ARENA_SIZE"
    "sh + (length ps + 1) * 4 \<le> env_arena e + arena_used u" by auto
  then show "keeps (env_arena e) (env_arena e + arena_used s) (store_elems pre sh ps) u"
    by (intro store_elems_keeps pre) (simp_all add: mult.commute)
  fix x v assume "frame (env_arena e) (env_arena e + arena_used s) u v"
  then show "keeps (env_arena e) (env_arena e + arena_used s) (mret sh) v" by (simp add: frame_def keeps_leaf)
qed

lemma pre_ptr_array_Ret:
  assumes "pre_ptr_array e pre p s = Ret sh t" and "arena_used s \<le> ARENA_SIZE"
  shows "sh = env_arena e + arena_used s"
proof -
  from assms(1) obtain ps u v where "scan_elems e p 0 s = Ret ps u"
    "alloc_or_abort (env_arena e) ((length ps + 1) * 4) ''pointer-array shadow arena exhausted'' u = Ret sh v"
    by (auto simp: pre_ptr_array_def bnd_Ret)
  with alloc_or_abort_Ret silentD(1) [OF silent_scan_elems] assms(2) show ?thesis by blast
qed

lemma pre_ptr_zero: "pre_ptr e as raw 0 = mret (0, [])"
  by (cases as) simp

lemma pre_ptr_buffer: "p \<noteq> 0 \<Longrightarrow> as_size_kind as \<noteq> SIZE_PTR_ARRAY \<Longrightarrow> pre_ptr e as raw p = pre_buffer e as raw p"
  by (cases as) simp

lemma pre_ptr_keeps:
  assumes "arena_fits e" and "spec_ok as" and "arena_used s \<le> ARENA_SIZE"
  shows "keeps (env_arena e) (env_arena e + arena_used s) (pre_ptr e as raw p) s"
  using assms
proof (induction e as raw p arbitrary: s rule: pre_ptr.induct)
  case (1 e k d z c i lo el h o1 fl raw p)
  consider "p = 0" | "p \<noteq> 0" "z = SIZE_PTR_ARRAY" | "p \<noteq> 0" "z \<noteq> SIZE_PTR_ARRAY" by blast
  then show ?case
  proof cases
    case 1
    with "1.prems" show ?thesis by (simp add: keeps_leaf)
  next
    case 2
    define pre where "pre = (\<lambda>p. case el of Some elem \<Rightarrow> bnd (pre_ptr e elem None p) (\<lambda>r. mret (fst r)) | None \<Rightarrow> mret p)"
    have pre: "keeps (env_arena e) (env_arena e + arena_used t) (pre q) t" if t: "arena_used t \<le> ARENA_SIZE" for q t
    proof (cases el)
      case None
      with t show ?thesis by (simp add: pre_def keeps_leaf)
    next
      case (Some elem)
      with "1.prems"(2) have "spec_ok elem" by simp
      with "1.IH" [OF 2 Some "1.prems"(1)] t
      have "keeps (env_arena e) (env_arena e + arena_used t) (pre_ptr e elem None q) t" by simp
      with Some show ?thesis unfolding pre_def option.case
        by (auto intro!: keeps_bnd simp: frame_def keeps_leaf)
    qed
    have "pre_ptr e (Arg_Spec k d z c i lo el h o1 fl) raw p = bnd (pre_ptr_array e pre p) (\<lambda>shadow. mret (shadow, []))"
      using 2 by (simp add: pre_def)
    moreover have "keeps (env_arena e) (env_arena e + arena_used s) (bnd (pre_ptr_array e pre p) (\<lambda>shadow. mret (shadow, []))) s"
      by (intro keeps_bnd pre_ptr_array_keeps pre "1.prems"(3)) (auto simp: frame_def keeps_leaf)
    ultimately show ?thesis by simp
  next
    case 3
    with pre_buffer_keeps [OF "1.prems"(1,3,2)] show ?thesis by simp
  qed
qed

lemma pre_ptr_Ret:
  assumes "pre_ptr e as raw p s = Ret (sh, ts) t" and "arena_used s \<le> ARENA_SIZE"
  shows "sh = (if p = 0 then 0 else env_arena e + arena_used s)"
proof -
  obtain k d z c i lo el h o1 fl where as: "as = Arg_Spec k d z c i lo el h o1 fl" by (cases as)
  with assms show ?thesis
    by (auto simp: bnd_Ret dest: pre_ptr_array_Ret pre_buffer_Ret split: if_splits)
qed

section \<open>What the handler receives\<close>

definition delivered :: "call_env \<Rightarrow> mstate \<Rightarrow> arg_spec \<Rightarrow> nat \<Rightarrow> nat \<Rightarrow> bool" where
  "delivered e s as r v \<longleftrightarrow>
     (case as_kind as of
        ARG_SCALAR \<Rightarrow> v = r
      | ARG_HANDLE \<Rightarrow> if r = 0 then v = 0 else translate_handle_checked (handle_table s) (as_handle_class as) r = Some v
      | ARG_PTR \<Rightarrow> if r = 0 then v = 0 else env_arena e \<le> v \<and> v \<le> env_arena e + ARENA_SIZE)"

lemma pre_arg_keeps:
  assumes "arena_fits e" and "spec_ok as" and "arena_used s \<le> ARENA_SIZE"
  shows "keeps (env_arena e) (env_arena e + arena_used s) (pre_arg e raw i as) s"
proof (cases "as_kind as = ARG_PTR \<and> raw ! i \<noteq> 0")
  case True
  have "keeps (env_arena e) (env_arena e + arena_used s)
      (bnd (pre_ptr e as (Some raw) (raw ! i)) (\<lambda>(shadow, ptf). bnd (recorded_size e as raw (raw ! i)) (\<lambda>n. mret (f shadow ptf n)))) s" for f
  proof (intro keeps_bnd pre_ptr_keeps assms)
    fix x t assume "frame (env_arena e) (env_arena e + arena_used s) s t"
    then have t: "arena_used t \<le> ARENA_SIZE" by (simp add: frame_def)
    then show "keeps (env_arena e) (env_arena e + arena_used s)
        (case x of (shadow, ptf) \<Rightarrow> bnd (recorded_size e as raw (raw ! i)) (\<lambda>n. mret (f shadow ptf n))) t"
      by (auto intro!: keeps_silentI silent_bnd split: prod.split)
  qed
  with True show ?thesis by (simp add: pre_arg_def)
next
  case False
  then show ?thesis using keeps_leaf [OF assms(3)]
    by (cases "as_kind as") (auto simp: pre_arg_def keeps_def mret_def marshal_abort_def split: option.split)
qed

lemma pre_arg_delivered:
  assumes "pre_arg e raw i as s = Ret (v, sh) t" and "arena_used s \<le> ARENA_SIZE"
  shows "delivered e s as (raw ! i) v"
proof (cases "as_kind as")
  case ARG_PTR
  with assms pre_ptr_Ret [of e as "Some raw" "raw ! i" s] show ?thesis
    by (auto simp: delivered_def pre_arg_def bnd_Ret split: if_splits)
qed (use assms(1) in \<open>auto simp: delivered_def pre_arg_def split: if_splits option.splits\<close>)

lemma pre_args_keeps:
  assumes "arena_fits e" and "list_all spec_ok specs" and "arena_used s \<le> ARENA_SIZE"
  shows "keeps (env_arena e) (env_arena e + arena_used s) (pre_args e raw i specs) s"
  using assms(2,3)
proof (induction specs arbitrary: i s)
  case Nil
  then show ?case by (simp add: keeps_leaf)
next
  case (Cons as specs)
  show ?case unfolding pre_args.simps
  proof (intro keeps_bnd)
    show "keeps (env_arena e) (env_arena e + arena_used s) (pre_arg e raw i as) s"
      using Cons.prems by (intro pre_arg_keeps assms(1)) simp_all
    fix x :: "nat \<times> shadow option" and t
    assume t: "frame (env_arena e) (env_arena e + arena_used s) s t"
    then have u: "arena_used s \<le> arena_used t" "arena_used t \<le> ARENA_SIZE" by (simp_all add: frame_def)
    obtain v sh where x: "x = (v, sh)" by fastforce
    have "keeps (env_arena e) (env_arena e + arena_used s) (pre_args e raw (Suc i) specs) t"
      using Cons.IH [of t "Suc i"] Cons.prems(1) u frame_weaken
      by (auto simp: keeps_def split: run.splits)
    then show "keeps (env_arena e) (env_arena e + arena_used s)
        (case x of (v, sh) \<Rightarrow> bnd (pre_args e raw (Suc i) specs) (\<lambda>(vs, shs). mret (v # vs, case sh of None \<Rightarrow> shs | Some y \<Rightarrow> y # shs))) t"
      unfolding x prod.case
      by (rule keeps_bnd) (auto simp: frame_def keeps_leaf split: prod.split)
  qed
qed

lemma pre_args_delivered:
  assumes "arena_fits e" and "list_all spec_ok specs" and "arena_used s \<le> ARENA_SIZE"
    and "pre_args e raw i specs s = Ret (vs, shs) t"
  shows "length vs = length specs \<and> (\<forall>j < length specs. delivered e s (specs ! j) (raw ! (i + j)) (vs ! j))"
  using assms(2-4)
proof (induction specs arbitrary: i s vs shs)
  case (Cons as specs)
  from Cons.prems(3) obtain v sh u ws shs' where
    1: "pre_arg e raw i as s = Ret (v, sh) u" and 2: "pre_args e raw (Suc i) specs u = Ret (ws, shs') t"
    and vs: "vs = v # ws" by (auto simp: bnd_Ret)
  have "frame (env_arena e) (env_arena e + arena_used s) s u"
    using keeps_Ret [OF pre_arg_keeps 1] assms(1) Cons.prems by simp
  then have u: "arena_used u \<le> ARENA_SIZE" "handle_table u = handle_table s" by (simp_all add: frame_def)
  with Cons.IH [OF _ _ 2] Cons.prems(1) have
    "length ws = length specs \<and> (\<forall>j < length specs. delivered e u (specs ! j) (raw ! (Suc i + j)) (ws ! j))" by simp
  moreover have "delivered e u as' r w \<longleftrightarrow> delivered e s as' r w" for as' r w
    by (simp add: delivered_def u(2) split: arg_kind.split)
  ultimately show ?case using pre_arg_delivered [OF 1 Cons.prems(2)] vs by (auto simp: nth_Cons split: nat.split)
qed simp


section \<open>Calls with flat buffers\<close>

definition flat_arg :: "arg_spec \<Rightarrow> bool" where
  "flat_arg as \<longleftrightarrow> as_kind as = ARG_SCALAR
     \<or> (as_kind as = ARG_PTR \<and> as_layout as = None \<and> out_ptr_into_arg1 as = 0 \<and> as_element as = None
        \<and> as_size_kind as \<in> {SIZE_CONST, SIZE_FROM_ARG, SIZE_FROM_ARG_POINTEE, SIZE_CSTR})"

lemma flat_spec_ok: "flat_arg as \<Longrightarrow> as_kind as = ARG_PTR \<Longrightarrow> spec_ok as"
  by (cases as) (auto simp: flat_arg_def)

lemma measure_from_same:
  "measure_from acc a k s = Ret n t \<Longrightarrow> src_mem u = src_mem s \<Longrightarrow> measure_from acc a k u = Ret n u"
proof (induction acc a k arbitrary: s u rule: measure_from.induct)
  case (1 acc a k)
  show ?case
  proof (cases "k < CSTR_CAP")
    case False
    with "1.prems" show ?thesis by (simp add: measure_from.simps mret_def)
  next
    case True
    define j where "j = (if k + 64 > CSTR_CAP then CSTR_CAP - k else 64)"
    have eq: "measure_from acc a k = bnd (peek acc ((a + k) mod 2 ^ 64) j) (\<lambda>chunk.
        case find_nul chunk of Some i \<Rightarrow> mret (k + i + 1) | None \<Rightarrow> measure_from acc a (k + j))"
      using True by (subst measure_from.simps) (simp only: Let_def if_True j_def)
    define chunk where "chunk = bytes_at (src_mem s) ((a + k) mod 2 ^ 64) j"
    from "1.prems"(1) have r: "can_read acc ((a + k) mod 2 ^ 64) j"
      and c: "(case find_nul chunk of Some i \<Rightarrow> mret (k + i + 1) | None \<Rightarrow> measure_from acc a (k + j)) s = Ret n t"
      unfolding eq chunk_def by (auto simp: bnd_Ret)
    have "(case find_nul chunk of Some i \<Rightarrow> mret (k + i + 1) | None \<Rightarrow> measure_from acc a (k + j)) u = Ret n u"
    proof (cases "find_nul chunk")
      case None
      with c "1.IH" [OF True j_def None] "1.prems"(2) show ?thesis by simp
    qed (use c in \<open>simp add: mret_def\<close>)
    moreover have "peek acc ((a + k) mod 2 ^ 64) j u = Ret chunk u" using r "1.prems"(2) by (simp add: chunk_def)
    ultimately show ?thesis unfolding eq by (simp only: bnd_def run.case)
  qed
qed

lemma flat_sizes:
  assumes "flat_arg as" "as_kind as = ARG_PTR" and "ptr_size e as (Some raw) p s = Ret n s'" and "src_mem u = src_mem s"
    and "recorded_size e as raw p u = Ret m v"
  shows "m = n"
proof (cases "as_size_kind as = SIZE_CSTR")
  case True
  with assms(3) have "measure_cstr (env_acc e) p s = Ret n s'" by (simp add: ptr_size_def)
  then have "measure_cstr (env_acc e) p u = Ret n u"
    using measure_from_same assms(4) unfolding measure_cstr_def by blast
  moreover have "recorded_size e as raw p u = measure_cstr (env_acc e) p u"
    using assms(1,2) True by (simp add: flat_arg_def recorded_size_def compute_size_def bnd_def mret_def)
  ultimately show ?thesis using assms(5) by simp
next
  case False
  with assms show ?thesis
    by (auto simp: flat_arg_def ptr_size_def recorded_size_def compute_size_def bnd_Ret raw_at_def)
qed

text \<open>The shadow of one flat buffer.\<close>

definition shadow_for :: "call_env \<Rightarrow> nat list \<Rightarrow> nat \<Rightarrow> arg_spec \<Rightarrow> nat \<Rightarrow> nat \<Rightarrow> shadow" where
  "shadow_for e raw i as v n = \<lparr> arg_index = i, source_ptr = raw ! i, shadow_ptr = v, sh_size = n,
     direction = ptr_direction as, sh_source_cage = env_source e, sh_grate_cage = env_grate e,
     sh_layout = None, ptr_fields = [] \<rparr>"

lemma pre_arg_flat:
  assumes flat: "flat_arg as" "as_kind as = ARG_PTR" and p: "raw ! i \<noteq> 0" and used: "arena_used s \<le> ARENA_SIZE"
    and run: "pre_arg e raw i as s = Ret (v, sh) t" and apart: "v \<noteq> size_cast (raw ! i)"
  shows "v = env_arena e + arena_used s \<and> (\<exists>n. sh = Some (shadow_for e raw i as v n) \<and> v + n \<le> env_arena e + arena_used t
    \<and> (copies_in (ptr_direction as) \<longrightarrow> (\<forall>k<n. grate_mem t (v + k) = src_mem s (raw ! i + k))))"
proof -
  from run flat(2) p obtain ts u n where 1: "pre_ptr e as (Some raw) (raw ! i) s = Ret (v, ts) u"
    and 2: "recorded_size e as raw (raw ! i) u = Ret n t"
    and sh: "sh = Some \<lparr> arg_index = i, source_ptr = raw ! i, shadow_ptr = v, sh_size = n,
      direction = ptr_direction as, sh_source_cage = env_source e, sh_grate_cage = env_grate e,
      sh_layout = as_layout as, ptr_fields = ts \<rparr>"
    using apart by (auto simp: pre_arg_def bnd_Ret)
  have t: "t = u" using silentD(1) [OF silent_recorded_size 2] .
  have "pre_ptr e as (Some raw) (raw ! i) = pre_buffer e as (Some raw) (raw ! i)"
    using flat p by (intro pre_ptr_buffer) (auto simp: flat_arg_def)
  with 1 flat obtain n' w where 3: "ptr_size e as (Some raw) (raw ! i) s = Ret n' w"
    and 4: "fill_shadow e (ptr_direction as) (raw ! i) n' ''shadow arena exhausted'' w = Ret v u" and ts: "ts = []"
    by (auto simp: pre_buffer_def bnd_Ret Let_def flat_arg_def shadow_alloc_size_le)
  have w: "w = s" using silentD(1) [OF silent_ptr_size 3] .
  have "frame (env_arena e) (env_arena e + arena_used s) s u"
    using keeps_Ret [OF keeps_fill_shadow 4] used w by simp
  then have "src_mem u = src_mem s" by (simp add: frame_def)
  then have "n = n'" by (rule flat_sizes [OF flat 3 _ 2])
  moreover have "as_layout as = None" using flat by (simp add: flat_arg_def)
  ultimately show ?thesis using fill_shadow_Ret [OF 4] used w t sh ts by (auto simp: shadow_for_def)
qed

lemma pre_arg_scalar: "as_kind as = ARG_SCALAR \<Longrightarrow> pre_arg e raw i as s = Ret (raw ! i, None) s"
  by (simp add: pre_arg_def mret_def)

lemma pre_arg_null: "as_kind as = ARG_PTR \<Longrightarrow> raw ! i = 0 \<Longrightarrow> pre_arg e raw i as s = Ret (0, None) s"
  by (simp add: pre_arg_def mret_def)

lemma flat_keeps:
  assumes "arena_fits e" and "flat_arg as" and "arena_used s \<le> ARENA_SIZE" and "pre_arg e raw i as s = Ret x t"
  shows "frame (env_arena e) (env_arena e + arena_used s) s t"
proof (cases "as_kind as = ARG_SCALAR")
  case True
  with assms(3,4) show ?thesis by (simp add: pre_arg_scalar frame_refl)
next
  case False
  with assms(2) have "as_kind as = ARG_PTR" by (simp add: flat_arg_def)
  with assms show ?thesis using keeps_Ret [OF pre_arg_keeps] flat_spec_ok by blast
qed

text \<open>A shadow that mirrors the buffer of argument \<open>j\<close> at the time of the call.\<close>

definition mirrors :: "call_env \<Rightarrow> nat list \<Rightarrow> nat \<Rightarrow> arg_spec list \<Rightarrow> nat list \<Rightarrow> mem \<Rightarrow> mstate \<Rightarrow> shadow \<Rightarrow> bool" where
  "mirrors e raw i specs vs src t sh \<longleftrightarrow>
     (\<exists>j n. j < length specs \<and> sh = shadow_for e raw (i + j) (specs ! j) (vs ! j) n
        \<and> as_kind (specs ! j) = ARG_PTR \<and> raw ! (i + j) \<noteq> 0
        \<and> env_arena e \<le> vs ! j \<and> vs ! j + n \<le> env_arena e + arena_used t
        \<and> (copies_in (ptr_direction (specs ! j)) \<longrightarrow> (\<forall>k<n. grate_mem t (vs ! j + k) = src (raw ! (i + j) + k))))"

definition apart_shadows :: "shadow list \<Rightarrow> bool" where
  "apart_shadows shs \<longleftrightarrow> sorted_wrt (\<lambda>x y. shadow_ptr x + sh_size x \<le> shadow_ptr y) shs"

definition copied_args :: "arg_spec list \<Rightarrow> nat list \<Rightarrow> nat \<Rightarrow> nat list" where
  "copied_args specs raw i =
     filter (\<lambda>j. as_kind (specs ! (j - i)) = ARG_PTR \<and> raw ! j \<noteq> 0) [i..<i + length specs]"

lemma copied_args_Cons:
  "copied_args (as # specs) raw i =
     (if as_kind as = ARG_PTR \<and> raw ! i \<noteq> 0 then [i] else []) @ copied_args specs raw (Suc i)"
proof -
  have "[i..<i + length (as # specs)] = i # [Suc i..<Suc i + length specs]" by (simp add: upt_conv_Cons del: upt_Suc)
  moreover have "filter (\<lambda>j. as_kind ((as # specs) ! (j - i)) = ARG_PTR \<and> raw ! j \<noteq> 0) [Suc i..<Suc i + length specs]
      = filter (\<lambda>j. as_kind (specs ! (j - Suc i)) = ARG_PTR \<and> raw ! j \<noteq> 0) [Suc i..<Suc i + length specs]"
    by (rule filter_cong) (auto simp: nth_Cons' Suc_diff_Suc)
  ultimately show ?thesis unfolding copied_args_def by simp
qed

lemma mirrors_frame:
  assumes "mirrors e raw i specs vs src t sh" and "frame (env_arena e) (env_arena e + arena_used t) t u"
  shows "mirrors e raw i specs vs src u sh"
proof -
  from assms(2) have used: "arena_used t \<le> arena_used u"
    and mem: "\<And>x. x < env_arena e + arena_used t \<Longrightarrow> grate_mem u x = grate_mem t x" by (simp_all add: frame_def)
  from assms(1) show ?thesis unfolding mirrors_def
    using used by (elim exE conjE) (intro exI conjI, assumption+, simp, simp add: mem)
qed

lemma mirrors_Cons: "mirrors e raw (Suc i) specs vs src t sh \<Longrightarrow> mirrors e raw i (as # specs) (v # vs) src t sh"
  unfolding mirrors_def by (elim exE conjE, rule_tac x = "Suc j" in exI) auto

lemma pre_args_flat:
  assumes "arena_fits e" and "list_all flat_arg specs" and "arena_used s \<le> ARENA_SIZE"
    and "pre_args e raw i specs s = Ret (vs, shs) t"
    and "\<And>j. i \<le> j \<Longrightarrow> j < i + length specs \<Longrightarrow> size_cast (raw ! j) < env_arena e \<or> env_arena e + ARENA_SIZE < size_cast (raw ! j)"
  shows "frame (env_arena e) (env_arena e + arena_used s) s t \<and> map arg_index shs = copied_args specs raw i
    \<and> list_all (mirrors e raw i specs vs (src_mem s) t) shs \<and> apart_shadows shs
    \<and> list_all (\<lambda>sh. env_arena e + arena_used s \<le> shadow_ptr sh) shs"
  using assms(2-5)
proof (induction specs arbitrary: i s vs shs)
  case Nil
  then show ?case by (simp add: copied_args_def apart_shadows_def frame_refl)
next
  case (Cons as specs)
  from Cons.prems(3) obtain v sh u ws shs' where
    1: "pre_arg e raw i as s = Ret (v, sh) u" and 2: "pre_args e raw (Suc i) specs u = Ret (ws, shs') t"
    and vs: "vs = v # ws" and shs: "shs = (case sh of None \<Rightarrow> shs' | Some x \<Rightarrow> x # shs')" by (auto simp: bnd_Ret)
  have flat: "flat_arg as" "list_all flat_arg specs" using Cons.prems(1) by simp_all
  have f1: "frame (env_arena e) (env_arena e + arena_used s) s u"
    using flat_keeps [OF assms(1) flat(1) Cons.prems(2) 1] .
  then have u: "arena_used s \<le> arena_used u" "arena_used u \<le> ARENA_SIZE" "src_mem u = src_mem s"
    by (simp_all add: frame_def)
  have "size_cast (raw ! j) < env_arena e \<or> env_arena e + ARENA_SIZE < size_cast (raw ! j)"
    if "Suc i \<le> j" "j < Suc i + length specs" for j using Cons.prems(4) [of j] that by simp
  from Cons.IH [OF flat(2) u(2) 2 this] have IH:
    "frame (env_arena e) (env_arena e + arena_used u) u t" "map arg_index shs' = copied_args specs raw (Suc i)"
    "list_all (mirrors e raw (Suc i) specs ws (src_mem s) t) shs'" "apart_shadows shs'"
    "list_all (\<lambda>sh. env_arena e + arena_used u \<le> shadow_ptr sh) shs'" by (simp_all add: u(3))
  have f: "frame (env_arena e) (env_arena e + arena_used s) s t"
    using f1 frame_weaken [OF IH(1)] u(1) frame_trans by (metis add_le_cancel_left)
  have rest: "list_all (mirrors e raw i (as # specs) vs (src_mem s) t) shs'"
    using IH(3) unfolding vs by (auto simp: list_all_iff intro: mirrors_Cons)
  have low: "list_all (\<lambda>sh. env_arena e + arena_used s \<le> shadow_ptr sh) shs'"
    using IH(5) u(1) by (auto simp: list_all_iff)
  show ?case
  proof (cases "as_kind as = ARG_PTR \<and> raw ! i \<noteq> 0")
    case False
    with flat(1) 1 have "sh = None" by (auto simp: flat_arg_def pre_arg_scalar pre_arg_null)
    with False f IH rest low shs show ?thesis by (simp add: copied_args_Cons)
  next
    case True
    from pre_arg_delivered [OF 1 Cons.prems(2)] True have "env_arena e \<le> v" "v \<le> env_arena e + ARENA_SIZE"
      by (simp_all add: delivered_def)
    with Cons.prems(4) [of i] have "v \<noteq> size_cast (raw ! i)" by auto
    from pre_arg_flat [OF flat(1) _ _ Cons.prems(2) 1 this] True obtain n where
      n: "v = env_arena e + arena_used s" "sh = Some (shadow_for e raw i as v n)"
      "v + n \<le> env_arena e + arena_used u"
      "copies_in (ptr_direction as) \<longrightarrow> (\<forall>k<n. grate_mem u (v + k) = src_mem s (raw ! i + k))" by blast
    have "mirrors e raw i (as # specs) vs (src_mem s) u (shadow_for e raw i as v n)"
      unfolding mirrors_def using n True by (intro exI [of _ 0] exI [of _ n]) (simp add: vs)
    from mirrors_frame [OF this IH(1)] have "mirrors e raw i (as # specs) vs (src_mem s) t (shadow_for e raw i as v n)" .
    moreover have "apart_shadows (shadow_for e raw i as v n # shs')"
      using IH(4,5) n(3) by (fastforce simp: apart_shadows_def shadow_for_def list_all_iff)
    ultimately show ?thesis using True f IH(2) rest low shs n(1,2)
      by (simp add: copied_args_Cons) (simp add: shadow_for_def)
  qed
qed
text \<open>The copies back: each buffer the handler may write receives what its shadow holds.\<close>

definition copy_back :: "mem \<Rightarrow> shadow \<Rightarrow> mem \<Rightarrow> mem" where
  "copy_back g sh m =
     (if copies_out (direction sh) then blit g (shadow_ptr sh) (sh_size sh) m (source_ptr sh) else m)"

lemma post_args_flat:
  assumes "post_args e args shs rest s = Ret x t"
    and "list_all (\<lambda>sh. sh_layout sh = None \<and> out_ptr_into_arg1 (args ! arg_index sh) = 0) rest"
  shows "t = s\<lparr> src_mem := fold (copy_back (grate_mem s)) rest (src_mem s) \<rparr>"
  using assms
proof (induction rest arbitrary: s)
  case (Cons sh rest)
  then obtain y u where 1: "post_arg e args shs sh s = Ret y u" and 2: "post_args e args shs rest u = Ret x t"
    by (auto simp: bnd_Ret)
  have u: "u = s\<lparr> src_mem := copy_back (grate_mem s) sh (src_mem s) \<rparr>"
    using 1 Cons.prems(2) by (auto simp: post_arg_def copy_back_def copy_out_def split: if_splits)
  from Cons.IH [OF 2] Cons.prems(2) have "t = u\<lparr> src_mem := fold (copy_back (grate_mem u)) rest (src_mem u) \<rparr>" by simp
  with u show ?case by simp
qed simp

lemma call_handler_Ret: "call_handler h args s = Ret r t \<longleftrightarrow> h (take 6 (args @ replicate 6 0)) s = (r, t)"
  by (auto simp: call_handler_def Let_def split: prod.split)

lemma dispatch_stages:
  assumes "marshal_dispatch acc arena beyond h spec sc gc raw nargs s = Ret r s'"
  obtains args shs t hr t' u u' where
    "length (ms_args spec) \<le> 6"
    "pre_args (call_env_of acc arena beyond sc gc) raw 0 (take nargs (ms_args spec))
       (s\<lparr> arena_used := 0, marshal_source_cage := sc, marshal_grate_cage := gc \<rparr>) = Ret (args, shs) t"
    "h (take 6 (args @ replicate 6 0)) t = (hr, t')"
    "post_args (call_env_of acc arena beyond sc gc) (ms_args spec) shs shs t' = Ret () u"
    "translate_return (call_env_of acc arena beyond sc gc) (ms_ret spec) raw shs hr u = Ret r u'"
    "s' = u'\<lparr> arena_used := 0 \<rparr>"
  using assms unfolding marshal_dispatch_def Let_def
  by (auto simp: bnd_Ret marshal_reset_def call_handler_Ret RAW_ARGS_MAX_def simp del: take_append)

lemma translate_return_src:
  "translate_return e rs raw shs hr u = Ret r u' \<Longrightarrow> src_mem u' = src_mem u"
  by (auto simp: translate_return_def bnd_Ret register_handle_def check_shadow_owner_def
      dest: translate_shadow_ptr_Ret split: return_kind.splits if_splits option.splits)

lemma mirrors_layout: "mirrors e raw 0 specs vs src t sh \<Longrightarrow> sh_layout sh = None \<and> arg_index sh < length specs"
  by (auto simp: mirrors_def shadow_for_def)


section \<open>Copying back a record\<close>

text \<open>The pointer a tracked field may be left with: null, or the caller's pointer advanced within the
  field's own buffer.\<close>

definition field_translated :: "mem \<Rightarrow> nat \<Rightarrow> field_track \<Rightarrow> nat \<Rightarrow> bool" where
  "field_translated g shadow f new \<longleftrightarrow>
     (let cur = u32_at g (size_cast (shadow + ft_offset f)) in
      if cur = 0 then new = 0
      else \<exists>adv. cur = shadow_start f + adv \<and> new = orig_src_ptr f + adv \<and> new < 2 ^ 32
        \<and> (adv < shadow_len f \<or> (allow_one_past (as_flags (ft_spec f)) \<and> adv = shadow_len f)))"

lemma list_all2_right: "list_all2 P xs ys \<Longrightarrow> (\<And>x y. P x y \<Longrightarrow> Q y) \<Longrightarrow> \<forall>y \<in> set ys. Q y"
  by (induction rule: list_all2_induct) auto

lemma field_translated_small: "field_translated g sh f new \<Longrightarrow> new < 2 ^ 32"
  by (auto simp: field_translated_def Let_def split: if_splits)

lemma silent_check_owner [simp]: "silent (check_shadow_owner e a b r)" "silent (check_fits_wasm32_addr v r)"
  by (simp_all add: check_shadow_owner_def check_fits_wasm32_addr_def)

lemma silent_post_validate [simp]: "silent (post_validate e lo sh f)"
  unfolding post_validate_def
proof (intro silent_bnd silent_check_owner silent_grate_u32)
  fix cur
  have base: "silent (bnd (check_fits_wasm32_addr a r) (\<lambda>_. bnd (check c r') (\<lambda>_. mret w)))" for a r c r' and w :: "nat \<times> nat"
    by (intro silent_bnd) simp_all
  have "silent (\<lambda>s. bnd (check_fits_wasm32_addr a r) (\<lambda>_. bnd (check c r') (\<lambda>_. mret (g s, v))) s)" for a r c r' and g :: "mstate \<Rightarrow> nat" and v :: nat
    unfolding silent_def by (rule allI) (rule base [unfolded silent_def, rule_format])
  then show "silent (if cur = 0 then mret (0, 0)
     else case validate_shadow_offset (shadow_start f) (shadow_len f) cur (allow_one_past (as_flags (ft_spec f))) of
         None \<Rightarrow> marshal_abort ''struct field: OUT pointer left outside its own shadow buffer''
       | Some adv_offset \<Rightarrow> (\<lambda>s.
           bnd (check_fits_wasm32_addr (orig_src_ptr f)
                  (''struct field: source pointer overflows the source cage'' @ [CHR 0x27] @ ''s address space'')) (\<lambda>_.
           bnd (check (2 ^ 32 - 1 - orig_src_ptr f < adv_offset)
                  (''struct field: translated pointer overflows the source cage'' @ [CHR 0x27] @ ''s address space'')) (\<lambda>_.
           mret (copy_back_size lo sh f adv_offset s, size_cast (orig_src_ptr f + adv_offset)))) s))"
    by (auto split: option.split)
qed

lemma post_validate_Ret:
  assumes "post_validate e lo sh f s = Ret (cb, new) t"
  shows "field_translated (grate_mem s) sh f new"
proof (cases "u32_at (grate_mem s) (size_cast (sh + ft_offset f)) = 0")
  case True
  with assms show ?thesis
    by (auto simp: post_validate_def bnd_Ret grate_u32_def check_shadow_owner_def field_translated_def)
next
  case False
  with assms obtain adv where "validate_shadow_offset (shadow_start f) (shadow_len f)
      (u32_at (grate_mem s) (size_cast (sh + ft_offset f))) (allow_one_past (as_flags (ft_spec f))) = Some adv"
    and new: "new = size_cast (orig_src_ptr f + adv)" "orig_src_ptr f \<le> 2 ^ 32 - 1" "adv \<le> 2 ^ 32 - 1 - orig_src_ptr f"
    by (auto simp: post_validate_def bnd_Ret grate_u32_def check_shadow_owner_def check_fits_wasm32_addr_def
        split: option.splits)
  then have adv: "u32_at (grate_mem s) (size_cast (sh + ft_offset f)) = shadow_start f + adv"
    "adv < shadow_len f \<or> (allow_one_past (as_flags (ft_spec f)) \<and> adv = shadow_len f)" by (auto simp: validate_Some)
  have "new = orig_src_ptr f + adv" "new < 2 ^ 32" using new by (simp_all add: size_cast_small)
  with False adv show ?thesis by (auto simp: field_translated_def Let_def)
qed

lemma silent_post_validate_all [simp]: "silent (post_validate_all e lo sh fs)"
  by (induction fs) (auto intro!: silent_bnd)

lemma post_validate_all_Ret:
  "post_validate_all e lo sh fs s = Ret vs t \<Longrightarrow> list_all2 (\<lambda>f v. field_translated (grate_mem s) sh f (snd v)) fs vs"
proof (induction fs arbitrary: vs s)
  case (Cons f fs)
  then obtain v u ws where 1: "post_validate e lo sh f s = Ret v u" and 2: "post_validate_all e lo sh fs u = Ret ws t"
    and vs: "vs = v # ws" by (auto simp: bnd_Ret)
  have "u = s" using silentD(1) [OF silent_post_validate 1] .
  with Cons.IH [of s ws] 2 post_validate_Ret [of e lo sh f s "fst v" "snd v"] 1 vs show ?case by simp
qed simp

definition tracks_apart :: "field_track list \<Rightarrow> bool" where
  "tracks_apart fs \<longleftrightarrow>
     sorted_wrt (\<lambda>f g. ft_offset f + 4 \<le> ft_offset g \<or> ft_offset g + 4 \<le> ft_offset f) fs"

lemma u32_put_other: "a + 4 \<le> b \<or> b + 4 \<le> a \<Longrightarrow> u32_at (put_u32 m a v) b = u32_at m b"
  by (rule u32_at_cong) (auto simp: put_u32_def)

lemma post_sanitize_keeps:
  assumes "post_sanitize sh vs s = Ret x t" and "\<forall>(f, v) \<in> set vs. sh + ft_offset f < 2 ^ 32"
    and "\<forall>(f, v) \<in> set vs. ft_offset f + 4 \<le> off \<or> off + 4 \<le> ft_offset f"
  shows "u32_at (grate_mem t) (sh + off) = u32_at (grate_mem s) (sh + off)"
  using assms
proof (induction vs arbitrary: s)
  case (Cons w vs)
  obtain f cb v where w: "w = (f, cb, v)" by (cases w) auto
  from Cons.prems(1) have "post_sanitize sh vs (s\<lparr> grate_mem := put_u32 (grate_mem s) (sh + ft_offset f) v \<rparr>) = Ret x t"
    using Cons.prems(2) by (simp add: w bnd_Ret grate_put_u32_def size_cast_small)
  from Cons.IH [OF this] Cons.prems(2,3) show ?case by (simp add: w u32_put_other)
qed simp

lemma post_sanitize_sets:
  assumes "post_sanitize sh (zip fs vs) s = Ret x t" and "length vs = length fs" and "tracks_apart fs"
    and "\<forall>f \<in> set fs. sh + ft_offset f < 2 ^ 32" and "\<forall>v \<in> set vs. snd v < 2 ^ 32" and "i < length fs"
  shows "u32_at (grate_mem t) (sh + ft_offset (fs ! i)) = snd (vs ! i)"
  using assms
proof (induction fs arbitrary: vs s i)
  case (Cons f fs)
  then obtain v ws where vs: "vs = v # ws" by (cases vs) auto
  from Cons.prems(1,4) have run: "post_sanitize sh (zip fs ws) (s\<lparr> grate_mem := put_u32 (grate_mem s) (sh + ft_offset f) (snd v) \<rparr>) = Ret x t"
    by (cases v) (simp add: vs bnd_Ret grate_put_u32_def size_cast_small)
  show ?case
  proof (cases i)
    case 0
    have "\<forall>(g, v) \<in> set (zip fs ws). ft_offset g + 4 \<le> ft_offset f \<or> ft_offset f + 4 \<le> ft_offset g"
      using Cons.prems(3) by (auto simp: tracks_apart_def dest: set_zip_leftD)
    with post_sanitize_keeps [OF run] Cons.prems(4) have
      "u32_at (grate_mem t) (sh + ft_offset f) = u32_at (put_u32 (grate_mem s) (sh + ft_offset f) (snd v)) (sh + ft_offset f)"
      by (auto dest: set_zip_leftD)
    with Cons.prems(5) 0 vs show ?thesis by (simp add: u32_at_put)
  next
    case (Suc j)
    with Cons.IH [OF run, of j] Cons.prems vs show ?thesis by (simp add: tracks_apart_def)
  qed
qed simp

lemma post_sanitize_src: "post_sanitize sh vs s = Ret x t \<Longrightarrow> src_mem t = src_mem s"
  by (induction sh vs arbitrary: s rule: post_sanitize.induct) (fastforce simp: bnd_Ret grate_put_u32_def)+

lemma post_sanitize_total: "\<exists>t. post_sanitize sh vs s = Ret () t"
  by (induction sh vs arbitrary: s rule: post_sanitize.induct) (simp_all add: bnd_Ret grate_put_u32_def mret_def)

lemma post_copy_Trap: "post_copy e vs s = Trap r t \<Longrightarrow> r = ''copy_data_between_cages failed''"
  by (induction e vs arbitrary: s rule: post_copy.induct) (auto simp: bnd_Trap copy_out_def split: if_splits)

lemma post_copy_grate: "post_copy e vs s = Ret x t \<Longrightarrow> grate_mem t = grate_mem s"
proof (induction e vs arbitrary: s rule: post_copy.induct)
  case (2 e f cb new vs)
  then obtain y u where 1: "(if 0 < cb then copy_out (env_acc e) (shadow_start f) (orig_src_ptr f) cb else mret ()) s = Ret y u"
    and "post_copy e vs u = Ret x t" by (auto simp: bnd_Ret)
  with "2.IH" have "grate_mem t = grate_mem u" by blast
  also have "grate_mem u = grate_mem s" using 1 by (auto simp: copy_out_def split: if_splits)
  finally show ?case .
qed simp

lemma post_scratch_src:
  "post_scratch e n s = Ret x t \<Longrightarrow> src_mem t = src_mem s \<and> grate_mem t = grate_mem s"
  "post_scratch e n s = Trap r t \<Longrightarrow> src_mem t = src_mem s"
  by (auto simp: post_scratch_def bnd_Ret bnd_Trap marshal_alloc_def Let_def split: if_splits)

lemma u32_blit: "d + k + 4 \<le> d + n \<Longrightarrow> u32_at (blit from a n to d) (d + k) = u32_at from (a + k)"
proof -
  assume "d + k + 4 \<le> d + n"
  then have "bytes_at (blit from a n to d) (d + k) 4 = bytes_at from (a + k) 4"
    by (intro nth_equalityI) (auto simp: blit_def algebra_simps)
  then show ?thesis by (simp add: u32_at_def)
qed

text \<open>C8: Copying a record back fails closed. If a field pointer the callee left is not in the field's own
  buffer, the call is aborted with the caller's memory unchanged; only a refused cross-cage copy can
  stop it later. When it succeeds, every tracked pointer field of the caller's record is null or the
  caller's own pointer advanced within the buffer of that field: no grate address is written.\<close>

theorem post_struct_closed:
  assumes out: "copies_out (direction sh)"
    and fits: "shadow_ptr sh + sh_size sh < 2 ^ 32"
    and inside: "list_all (\<lambda>f. ft_offset f + 4 \<le> sh_size sh) (ptr_fields sh)"
    and apart: "tracks_apart (ptr_fields sh)"
  shows "case post_struct e lo sh s of
      Trap r t \<Rightarrow> src_mem t = src_mem s \<or> r = ''copy_data_between_cages failed''
    | Ret _ t \<Rightarrow> list_all (\<lambda>f. field_translated (grate_mem s) (shadow_ptr sh) f
          (u32_at (src_mem t) (source_ptr sh + ft_offset f))) (ptr_fields sh)"
proof (cases "post_struct e lo sh s")
  case (Trap r t)
  from this out consider
      "check_shadow_owner e (sh_source_cage sh) (sh_grate_cage sh)
         (''struct shadow does not belong to this call'' @ [CHR 0x27] @ ''s cages'') s = Trap r t"
    | "post_scratch e (length (ptr_fields sh)) s = Trap r t"
    | u where "src_mem u = src_mem s" "post_validate_all e lo (shadow_ptr sh) (ptr_fields sh) u = Trap r t"
    | vs u where "post_copy e vs u = Trap r t"
    | u where "copy_out (env_acc e) (shadow_ptr sh) (source_ptr sh) (sh_size sh) u = Trap r t"
    using post_sanitize_total silentD(1) [OF silent_check_owner(1)] post_scratch_src(1)
    unfolding post_struct_def by (auto simp: bnd_Trap check_shadow_owner_def split: if_splits) (metis run.distinct(1))+
  then have "src_mem t = src_mem s \<or> r = ''copy_data_between_cages failed''"
  proof cases
    case 3
    then show ?thesis using silentD(2) [OF silent_post_validate_all] by metis
  qed (auto simp: check_shadow_owner_def post_scratch_src(2) copy_out_def dest: post_copy_Trap split: if_splits)
  with Trap show ?thesis by simp
next
  case (Ret x t)
  with out obtain u vs v w w' where "post_scratch e (length (ptr_fields sh)) s = Ret () u"
    and 2: "post_validate_all e lo (shadow_ptr sh) (ptr_fields sh) u = Ret vs v"
    and 3: "post_sanitize (shadow_ptr sh) (zip (ptr_fields sh) vs) v = Ret () w"
    and 4: "post_copy e (zip (ptr_fields sh) vs) w = Ret () w'"
    and 5: "(if 0 < sh_size sh then copy_out (env_acc e) (shadow_ptr sh) (source_ptr sh) (sh_size sh) else mret ()) w' = Ret x t"
    unfolding post_struct_def by (auto simp: bnd_Ret check_shadow_owner_def)
  then have g: "grate_mem u = grate_mem s" "v = u" "grate_mem w' = grate_mem w"
    using post_scratch_src(1) silentD(1) [OF silent_post_validate_all 2] post_copy_grate by metis+
  have val: "list_all2 (\<lambda>f v. field_translated (grate_mem s) (shadow_ptr sh) f (snd v)) (ptr_fields sh) vs"
    using post_validate_all_Ret [OF 2] g(1) by simp
  then have len: "length vs = length (ptr_fields sh)" by (simp add: list_all2_lengthD)
  have small: "\<forall>v \<in> set vs. snd v < 2 ^ 32"
    by (rule list_all2_right [OF val]) (rule field_translated_small)
  have "\<forall>f \<in> set (ptr_fields sh). shadow_ptr sh + ft_offset f < 2 ^ 32" using fits inside by (auto simp: list_all_iff)
  from post_sanitize_sets [OF 3 len apart this small]
  have new: "u32_at (grate_mem w) (shadow_ptr sh + ft_offset (ptr_fields sh ! i)) = snd (vs ! i)"
    if "i < length (ptr_fields sh)" for i using that .
  have "u32_at (src_mem t) (source_ptr sh + ft_offset f) = u32_at (grate_mem w) (shadow_ptr sh + ft_offset f)"
    if "f \<in> set (ptr_fields sh)" for f
    using that inside 5 g(3) u32_blit [of "source_ptr sh" "ft_offset f" "sh_size sh"]
    by (auto simp: list_all_iff copy_out_def split: if_splits)
  with new val len Ret show ?thesis
    by (auto simp: list_all_length list_all2_conv_all_nth)
qed

section \<open>The returned pointer\<close>

text \<open>C30: A pointer into an argument is returned to the caller only as the same offset into the caller's
  own buffer: null for null, otherwise the handler's pointer lies in the shadow of that argument,
  one past its end only if the specification allows it, and the result is the caller's pointer plus
  that offset, within the 32-bit address space.\<close>

theorem translate_return_into:
  assumes "translate_return e rs raw shs hr s = Ret v t" and "rs_kind rs = RET_PTR_INTO_ARG"
  shows "t = s \<and> (if hr = 0 then v = 0
    else \<exists>sh off. sh \<in> set shs \<and> arg_index sh = alias_arg_index rs \<and> hr = shadow_ptr sh + off
      \<and> (off < sh_size sh \<or> (allow_one_past (rs_flags rs) \<and> off = sh_size sh))
      \<and> v = source_ptr sh + off \<and> v < 2 ^ 32)"
proof (cases "hr = 0")
  case True
  with assms show ?thesis by (simp add: translate_return_def)
next
  case False
  with assms obtain sh where sh: "find_shadow (alias_arg_index rs) shs = Some sh"
    and run: "translate_shadow_ptr_or_abort (shadow_ptr sh) (sh_size sh) (allow_one_past (rs_flags rs)) (source_ptr sh) hr
      (''pointer-into-arg return: value outside the aliased argument'' @ [CHR 0x27] @ ''s shadow buffer'') s = Ret v t"
    by (auto simp: translate_return_def bnd_Ret check_shadow_owner_def split: option.splits)
  from sh have "sh \<in> set shs" "arg_index sh = alias_arg_index rs"
    by (auto simp: find_shadow_def find_Some_iff)
  with translate_shadow_ptr_Ret [OF run] False show ?thesis by auto
qed

section \<open>Runs\<close>

definition open_access :: access_map where
  "open_access = \<lparr> can_read = (\<lambda>_ _. True), can_write = (\<lambda>_ _. True) \<rparr>"

definition buffer_arg :: "ptr_direction \<Rightarrow> nat \<Rightarrow> arg_spec" where
  "buffer_arg d n = Arg_Spec ARG_PTR d SIZE_CONST n 0 None None 0 0 0"

definition one_buffer :: "ptr_direction \<Rightarrow> marshal_spec" where
  "one_buffer d = \<lparr> ms_args = [buffer_arg d 4],
     ms_ret = \<lparr> rs_kind = RET_PTR_INTO_ARG, alias_arg_index = 0, rs_handle_class = 0, rs_flags = 0 \<rparr> \<rparr>"

text \<open>A handler that writes 7 into the second byte of its buffer and returns its address.\<close>

definition seven_handler :: handler6 where
  "seven_handler args t = (hd args + 1, t\<lparr> grate_mem := (grate_mem t)(hd args + 1 := 7) \<rparr>)"

definition one_call :: "ptr_direction \<Rightarrow> nat \<Rightarrow> handler6 \<Rightarrow> mstate \<Rightarrow> nat run" where
  "one_call d p h s = marshal_dispatch open_access 1024 (\<lambda>_. 0) h (one_buffer d) 1 2 [p, 0, 0, 0, 0, 0] 1 s"

text \<open>What a run is unfolded with.\<close>

named_theorems run_defs
lemmas [run_defs] = one_call_def one_buffer_def buffer_arg_def open_access_def seven_handler_def empty_state_def
  marshal_dispatch_def marshal_reset_def call_env_of_def call_handler_def bnd_def mret_def marshal_abort_def check_def
  pre_arg_def pre_buffer_def ptr_size_def compute_size_def fill_shadow_def alloc_or_abort_def marshal_alloc_def
  copy_in_def copy_out_def recorded_size_def post_arg_def translate_return_def translate_shadow_ptr_or_abort_def
  validate_shadow_offset_def check_shadow_owner_def check_fits_wasm32_addr_def find_shadow_def
  copies_in_def copies_out_def size_cast_def size_sub_def SIZE_MAX_def ARENA_SIZE_def RAW_ARGS_MAX_def shadow_alloc_size_def Let_def


text \<open>The shadow of an output buffer is not initialised. A handler that writes nothing makes the
  runtime copy to the caller what the arena held before, such as the bytes of an earlier call.\<close>

lemma marshal_dispatch_stale_output:
  "case one_call PTR_OUT 200000 (\<lambda>args t. (0, t)) (empty_state\<lparr> grate_mem := (\<lambda>x. if x = 1024 then 42 else 0) \<rparr>) of
     Trap r t \<Rightarrow> False | Ret r t \<Rightarrow> src_mem t 200000 = 42"
  by (simp add: run_defs blit_def)

text \<open>A record in a buffer, the only field of which points to a record whose only field is a pointer.\<close>

definition pointer_record :: "arg_spec \<Rightarrow> struct_layout" where
  "pointer_record f = Layout LO_STRUCT [Field 0 f True] 0 4"

definition nested_arg :: arg_spec where
  "nested_arg = Arg_Spec ARG_PTR PTR_IN SIZE_CONST 4 0 (Some (pointer_record
     (Arg_Spec ARG_PTR PTR_IN SIZE_CONST 4 0 (Some (pointer_record (buffer_arg PTR_IN 4))) None 0 0 0))) None 0 0 0"

definition nested_state :: mstate where
  "nested_state = empty_state\<lparr> src_mem := put_u32 (put_u32 (\<lambda>_. 0) 200000 300000) 300000 400000 \<rparr>"

lemma u32_blit_at:
  assumes "d \<le> x" and "x + 4 \<le> d + n"
  shows "u32_at (blit from a n to d) x = u32_at from (a + (x - d))"
  using u32_blit [of d "x - d" n "from" a to] assms by simp

lemma u32_blit_other: "x + 4 \<le> d \<or> d + n \<le> x \<Longrightarrow> u32_at (blit from a n to d) x = u32_at to x"
  by (rule u32_at_cong) (auto simp: blit_def)


text \<open>The bound of a field offset is computed in 32 bits. An offset of 4294967292 passes the check of a
  record of 4 bytes, and the field is read and written in front of the record, outside its shadow.\<close>

lemma pre_field_offset_wraps:
  "case pre_field (call_env_of open_access 1024 (\<lambda>_. 0) 1 2) (pointer_record (buffer_arg PTR_IN 4)) 2048 4
      (Field 4294967292 (buffer_arg PTR_OUT 4) True) (empty_state\<lparr> grate_mem := put_u32 (\<lambda>_. 0) 2044 99 \<rparr>) of
     Trap r t \<Rightarrow> False
   | Ret f t \<Rightarrow> u32_at (grate_mem t) 2044 = 1024"
  by (simp add: run_defs pointer_record_def pre_field_def pre_ptr_field_def
      field_size_def grate_u32_def grate_put_u32_def u32_at_put)

lemma empty_used: "arena_used empty_state \<le> ARENA_SIZE"
  by (simp add: empty_state_def)

lemma fits_1024: "arena_fits (call_env_of acc 1024 beyond sc gc)"
  by (simp add: arena_fits_def call_env_of_def ARENA_SIZE_def)



definition record_shadow :: shadow where
  "record_shadow = \<lparr> arg_index = 0, source_ptr = 200000, shadow_ptr = 1024, sh_size = 8, direction = PTR_INOUT,
     sh_source_cage = 1, sh_grate_cage = 2, sh_layout = Some (pointer_record (buffer_arg PTR_OUT 4)),
     ptr_fields = [\<lparr> ft_offset = 0, orig_src_ptr = 300000, shadow_start = 2048, shadow_len = 4,
        ft_source_cage = 1, ft_grate_cage = 2, ft_spec = buffer_arg PTR_OUT 4 \<rparr>] \<rparr>"

theorem post_struct_closed_witness:
  "(case post_struct (call_env_of open_access 1024 (\<lambda>_. 0) 1 2) (pointer_record (buffer_arg PTR_OUT 4)) record_shadow
      (empty_state\<lparr> grate_mem := put_u32 (\<lambda>_. 0) 1024 2050 \<rparr>) of
     Trap r t \<Rightarrow> False
   | Ret _ t \<Rightarrow> u32_at (src_mem t) 200000 = 300002)"
proof -
  let ?e = "call_env_of open_access 1024 (\<lambda>_. 0) 1 2"
  let ?s = "empty_state\<lparr> grate_mem := put_u32 (\<lambda>_. 0) 1024 2050 \<rparr>"
  let ?lo = "pointer_record (buffer_arg PTR_OUT 4)"
  have h: "copies_out (direction record_shadow)" "shadow_ptr record_shadow + sh_size record_shadow < 2 ^ 32"
    "list_all (\<lambda>f. ft_offset f + 4 \<le> sh_size record_shadow) (ptr_fields record_shadow)"
    "tracks_apart (ptr_fields record_shadow)"
    by (simp_all add: record_shadow_def copies_out_def tracks_apart_def)
  have "\<exists>x t. post_struct ?e ?lo record_shadow ?s = Ret x t"
    by (simp add: run_defs post_struct_def record_shadow_def post_scratch_def post_validate_def grate_u32_def
        u32_at_put allow_one_past_def grate_put_u32_def)
  then obtain x t where run: "post_struct ?e ?lo record_shadow ?s = Ret x t" by blast
  with post_struct_closed [where e = ?e and lo = ?lo and s = ?s, OF h]
  have "field_translated (put_u32 (\<lambda>_. 0) 1024 2050) 1024 (hd (ptr_fields record_shadow)) (u32_at (src_mem t) 200000)"
    by (simp add: record_shadow_def)
  with run show ?thesis
    by (simp add: field_translated_def record_shadow_def size_cast_def u32_at_put)
qed

theorem translate_return_into_witness:
  "translate_return (call_env_of open_access 1024 (\<lambda>_. 0) 1 2) (ms_ret (one_buffer PTR_IN)) [200000] [record_shadow] 1026 empty_state
     = Ret 200002 empty_state"
proof -
  let ?run = "translate_return (call_env_of open_access 1024 (\<lambda>_. 0) 1 2) (ms_ret (one_buffer PTR_IN)) [200000] [record_shadow] 1026 empty_state"
  have "\<exists>v t. ?run = Ret v t" by (simp add: run_defs record_shadow_def)
  then obtain v t where run: "?run = Ret v t" by blast
  have k: "rs_kind (ms_ret (one_buffer PTR_IN)) = RET_PTR_INTO_ARG" by (simp add: one_buffer_def)
  from translate_return_into [OF run k] run show ?thesis by (auto simp: record_shadow_def one_buffer_def)
qed

end
