(* ===== verification/Gen_Grate.thy ===== *)
theory Gen_Grate
  imports Driver Marshal_Call
begin

text \<open>
  The generator of interposition grates (\<^verbatim>\<open>tools/marshal-gen/gen_grate.py\<close>): which functions of a
  marshalling document are interposed, and the C declarations of their specifications, which the
  marshalling runtime reads.

  A C initialiser is the list of its designators, a declaration is one of the three kinds of static
  objects the generator prints; the fixed text of the two templates is left out. Python's \<^verbatim>\<open>hash\<close> is a
  parameter. \<^verbatim>\<open>json.load\<close> keeps the last of several members with the same name.
\<close>

section \<open>Documents\<close>

fun jmember :: "json \<Rightarrow> string \<Rightarrow> json option" where
  "jmember (JObject kvs) k = map_of (rev kvs) k"
| "jmember _ k = None"

definition jget :: "json \<Rightarrow> string \<Rightarrow> json \<Rightarrow> json" where
  "jget a k dflt = (case jmember a k of Some v \<Rightarrow> v | None \<Rightarrow> dflt)"

text \<open>\<^verbatim>\<open>a.get (k) or []\<close>.\<close>

fun jlist :: "json option \<Rightarrow> json list" where
  "jlist (Some (JArray vs)) = vs"
| "jlist _ = []"

fun truthy :: "json option \<Rightarrow> bool" where
  "truthy None = False"
| "truthy (Some JNull) = False"
| "truthy (Some (JBool b)) = b"
| "truthy (Some (JInt i)) = (i \<noteq> 0)"
| "truthy (Some JDouble) = True"
| "truthy (Some (JString s)) = (s \<noteq> [])"
| "truthy (Some (JArray vs)) = (vs \<noteq> [])"
| "truthy (Some (JObject kvs)) = (kvs \<noteq> [])"

fun jint :: "json \<Rightarrow> int" where
  "jint (JInt i) = i"
| "jint _ = 0"

fun jstring :: "json \<Rightarrow> string" where
  "jstring (JString s) = s"
| "jstring _ = []"

lemma jmember_size: "jmember a k = Some v \<Longrightarrow> size v < size a"
proof (cases a)
  case (JObject kvs)
  assume "jmember a k = Some v"
  then have "(k, v) \<in> set kvs" using JObject map_of_SomeD by fastforce
  then have "size v < size_list (size_prod (\<lambda>_. 0) size) kvs"
    by (induction kvs) auto
  then show ?thesis using JObject by simp
qed simp_all

lemma jlist_size: "x \<in> set (jlist (jmember a k)) \<Longrightarrow> size x < size a"
proof (cases "jmember a k")
  case (Some v)
  assume x: "x \<in> set (jlist (jmember a k))"
  with Some obtain vs where v: "v = JArray vs" by (cases v) auto
  with x Some have "x \<in> set vs" by simp
  then have "size x < size v" unfolding v by (induction vs) auto
  with jmember_size [OF Some] show ?thesis by simp
qed simp

lemma jlist_size_list: "size_list size (jlist (jmember a k)) \<le> size a"
proof (cases "jmember a k")
  case (Some v)
  have "size_list size (jlist (Some v)) \<le> size v" by (cases v) simp_all
  with jmember_size [OF Some] Some show ?thesis by simp
qed simp

section \<open>Which functions are interposed\<close>

definition SUPPORTED_RET :: "string list" where
  "SUPPORTED_RET = [''void'', ''scalar'', ''ptr_alias_arg'', ''ptr_into_arg'', ''handle'']"

definition SUPPORTED_SIZE :: "string list" where
  "SUPPORTED_SIZE = [''none'', ''na'', ''const'', ''from_arg'', ''from_arg_pointee'', ''cstr'', ''ptr_array'']"

definition LIND_RAW_ARGS_MAX :: nat where "LIND_RAW_ARGS_MAX = 6"

definition NEVER_INTERPOSE_SUBSTR :: "string list" where
  "NEVER_INTERPOSE_SUBSTR = [''setjmp'', ''longjmp'', ''locale'', ''printf'', ''scanf'']"

definition NEVER_INTERPOSE :: "string list" where
  "NEVER_INTERPOSE = [''exit'', ''_exit'', ''_Exit'', ''quick_exit'', ''pthread_exit'', ''abort'', ''execl'',
     ''execlp'', ''execle'', ''execv'', ''execve'', ''execveat'', ''execvp'', ''execvpe'',
     ''fexecve'', ''fcntl'', ''ioctl'', ''open'', ''open64'', ''syscall'', ''err'', ''errx'',
     ''warn'', ''warnx'', ''verr'', ''verrx'', ''vwarn'', ''vwarnx'', ''syslog'', ''vsyslog'',
     ''prctl'', ''ptrace'', ''semctl'', ''__libc_setup_tls'', ''__ctype_init'',
     ''__wasi_init_tp'', ''acosl'', ''acosf64x'', ''fmodl'', ''fmodf64x'', ''remainder'',
     ''drem'', ''remainderf32x'', ''remainderf64'', ''gammal'', ''lgammal'', ''lgammal_r'',
     ''tgammal'', ''lgammaf64x'', ''lgammaf64x_r'', ''tgammaf64x'', ''powl'', ''powf64x'',
     ''remquol'', ''remquof64x'', ''scalb'', ''scalbf'', ''scalbl'']"

definition FD_FUNCS :: "string list" where
  "FD_FUNCS = [''read'', ''write'', ''close'', ''lseek'', ''lseek64'', ''pread'', ''pwrite'', ''pread64'',
     ''pwrite64'', ''readv'', ''writev'', ''preadv'', ''pwritev'', ''preadv64'', ''pwritev64'',
     ''preadv2'', ''pwritev2'', ''dup'', ''dup2'', ''dup3'', ''fchdir'', ''fchmod'', ''fchown'',
     ''fstat'', ''fstat64'', ''fstatfs'', ''fstatfs64'', ''fstatvfs'', ''fstatvfs64'', ''fsync'',
     ''fdatasync'', ''ftruncate'', ''ftruncate64'', ''flock'', ''fcntl64'', ''sendfile'',
     ''sendfile64'', ''fgetxattr'', ''fsetxattr'', ''flistxattr'', ''fremovexattr'',
     ''getdents'', ''getdents64'', ''epoll_ctl'', ''epoll_wait'', ''epoll_pwait'',
     ''epoll_pwait2'', ''fpathconf'', ''isatty'', ''ttyname'', ''ttyname_r'', ''tcgetattr'',
     ''tcsetattr'', ''tcflush'', ''tcdrain'', ''tcflow'', ''tcsendbreak'', ''tcgetsid'',
     ''tcgetpgrp'', ''tcsetpgrp'', ''fdopendir'', ''fdopen'', ''syncfs'', ''posix_fadvise'',
     ''posix_fadvise64'', ''posix_fallocate'', ''posix_fallocate64'', ''fallocate'',
     ''readahead'', ''flockfile'', ''accept'', ''accept4'', ''bind'', ''listen'', ''connect'',
     ''send'', ''recv'', ''sendto'', ''recvfrom'', ''sendmsg'', ''recvmsg'', ''recvmmsg'',
     ''sendmmsg'', ''getsockopt'', ''setsockopt'', ''getsockname'', ''getpeername'',
     ''shutdown'', ''sockatmark'', ''socket'', ''socketpair'', ''pipe'', ''pipe2'', ''eventfd'',
     ''eventfd2'', ''epoll_create'', ''epoll_create1'', ''timerfd_create'', ''timerfd_settime'',
     ''timerfd_gettime'', ''signalfd'', ''inotify_init'', ''inotify_init1'',
     ''inotify_add_watch'', ''inotify_rm_watch'', ''memfd_create'', ''creat'', ''creat64'',
     ''mkstemp'', ''mkstemp64'', ''mkostemp'', ''mkostemp64'', ''openat'', ''openat64'',
     ''faccessat'', ''faccessat2'', ''fchmodat'', ''fchownat'', ''fstatat'', ''fstatat64'',
     ''newfstatat'', ''linkat'', ''mkdirat'', ''mknodat'', ''readlinkat'', ''renameat'',
     ''renameat2'', ''symlinkat'', ''unlinkat'', ''utimensat'', ''statx'', ''name_to_handle_at'',
     ''open_by_handle_at'']"

definition substring :: "string \<Rightarrow> string \<Rightarrow> bool" where
  "substring s name \<longleftrightarrow> list_ex (\<lambda>i. take (length s) (drop i name) = s) [0..<Suc (length name)]"

function walk :: "json \<Rightarrow> bool" where
  "walk n =
     (if truthy (jmember n ''cursor'') then False
      else if jmember n ''kind'' = Some (JString ''ptr'')
        \<and> (case jmember n ''size_kind'' of
              None \<Rightarrow> False
            | Some k \<Rightarrow> k \<notin> set (JNull # map JString SUPPORTED_SIZE)) then False
      else (\<forall>ch\<in>set (jlist (jmember n ''pointee'') @ jlist (jmember n ''fields'')). walk ch))"
  by pat_completeness auto
termination
  by (relation "measure size") (auto dest: jlist_size)

declare walk.simps [simp del]

definition is_marshalable :: "json \<Rightarrow> bool" where
  "is_marshalable f =
     (let name = jstring (jget f ''name'' (JString [])) in
      if name \<in> set NEVER_INTERPOSE \<or> name \<in> set FD_FUNCS \<or> list_ex (\<lambda>s. substring s name) NEVER_INTERPOSE_SUBSTR then False
      else
        let nargs = length (jlist (jmember f ''args'')) in
        if LIND_RAW_ARGS_MAX < nargs then False
        else
          let ret = (if truthy (jmember f ''ret'') then jget f ''ret'' JNull else JObject []);
              r = jmember ret ''kind'' in
          if (case r of None \<Rightarrow> False | Some k \<Rightarrow> k \<noteq> JNull \<and> k \<notin> set (map JString SUPPORTED_RET)) then False
          else list_all walk (jlist (jmember f ''args'')))"

section \<open>Declarations\<close>

text \<open>The value of a designator: an enumerator, the text of a value of the document, or the address of
  an object declared before.\<close>

datatype init_val = Enum string | Val json | Addr string

type_synonym initializer = "(string \<times> init_val) list"

datatype decl =
    Arg_Decl string initializer
  | Fields_Decl string "(json \<times> string \<times> nat) list"
  | Layout_Decl string nat string json

record emitter =
  decls :: "decl list"
  uids :: nat

definition uid :: "string \<Rightarrow> emitter \<Rightarrow> string \<times> emitter" where
  "uid base e = (base @ ''_'' @ to_string (uids e + 1), e\<lparr> uids := uids e + 1 \<rparr>)"

definition declare_obj :: "decl \<Rightarrow> emitter \<Rightarrow> emitter" where
  "declare_obj d e = e\<lparr> decls := decls e @ [d] \<rparr>"

definition DIR :: "json \<Rightarrow> string" where
  "DIR d = (if d = JString ''in'' then ''LIND_PTR_IN'' else if d = JString ''out'' then ''LIND_PTR_OUT''
     else if d = JString ''inout'' then ''LIND_PTR_INOUT'' else ''LIND_PTR_IN'')"

definition SIZE_KIND :: "json \<Rightarrow> string" where
  "SIZE_KIND k =
     (if k = JString ''const'' then ''LIND_SIZE_CONST''
      else if k = JString ''from_arg'' then ''LIND_SIZE_FROM_ARG''
      else if k = JString ''from_arg_pointee'' then ''LIND_SIZE_FROM_ARG_POINTEE''
      else if k = JString ''cstr'' then ''LIND_SIZE_CSTR''
      else if k = JString ''ptr_array'' then ''LIND_SIZE_PTR_ARRAY''
      else ''LIND_SIZE_NONE'')"

definition RET_KIND :: "json \<Rightarrow> string" where
  "RET_KIND k =
     (if k = JString ''void'' then ''LIND_RET_VOID''
      else if k = JString ''scalar'' then ''LIND_RET_SCALAR''
      else if k = JString ''ptr_alias_arg'' then ''LIND_RET_PTR_ALIAS_ARG''
      else if k = JString ''ptr_into_arg'' then ''LIND_RET_PTR_INTO_ARG''
      else if k = JString ''handle'' then ''LIND_RET_HANDLE''
      else ''LIND_RET_SCALAR'')"

definition handle_class_id :: "(string \<Rightarrow> int) \<Rightarrow> json \<Rightarrow> init_val" where
  "handle_class_id hash cls = Val (JInt (hash (jstring cls) mod 2 ^ 31))"

text \<open>The designators of a pointer before its pointee is looked at.\<close>

definition ptr_parts :: "json \<Rightarrow> initializer" where
  "ptr_parts a =
     (let sk = jget a ''size_kind'' (JString ''const'') in
      [(''kind'', Enum ''LIND_ARG_PTR''), (''ptr_direction'', Enum (DIR (jget a ''dir'' (JString ''in'')))),
       (''size_kind'', Enum (SIZE_KIND sk))] @
      (if sk = JString ''const'' then [(''const_size'', Val (jget a ''const_size'' (JInt 0)))] else []) @
      (if sk = JString ''from_arg'' \<or> sk = JString ''from_arg_pointee''
       then [(''size_arg_index'', Val (jget a ''size_arg_index'' (jget a ''size_field_index'' (JInt 0))))] else []))"

definition scalar_body :: initializer where
  "scalar_body = [(''kind'', Enum ''LIND_ARG_SCALAR'')]"

function arg_spec_body :: "(string \<Rightarrow> int) \<Rightarrow> json \<Rightarrow> emitter \<Rightarrow> initializer \<times> emitter"
  and emit_fields :: "(string \<Rightarrow> int) \<Rightarrow> json list \<Rightarrow> emitter \<Rightarrow> (json \<times> string \<times> nat) list \<times> emitter" where
  "arg_spec_body hash a e =
     (let kind = jget a ''kind'' (JString ''scalar'') in
      if kind = JString ''scalar'' then (scalar_body, e)
      else if kind = JString ''handle'' then
        ([(''kind'', Enum ''LIND_ARG_HANDLE''),
          (''handle_class'', handle_class_id hash (jget a ''handle_class'' (JString ''void'')))], e)
      else if kind \<noteq> JString ''ptr'' then (scalar_body, e)
      else
        (case jlist (jmember a ''pointee'') of
           [] \<Rightarrow> (ptr_parts a, e)
         | p # _ \<Rightarrow>
             if jget a ''size_kind'' (JString ''const'') = JString ''ptr_array'' then
               (case arg_spec_body hash p e of (body, e1) \<Rightarrow>
                case uid ''elem'' e1 of (name, e2) \<Rightarrow>
                  (ptr_parts a @ [(''element'', Addr name)], declare_obj (Arg_Decl name body) e2))
             else if jmember p ''kind'' = Some (JString ''struct'') then
               (case emit_fields hash (jlist (jmember p ''fields'')) e of (field_inits, e1) \<Rightarrow>
                case uid ''fields'' e1 of (fields_name, e2) \<Rightarrow>
                case uid ''layout'' (declare_obj (Fields_Decl fields_name field_inits) e2) of (layout_name, e3) \<Rightarrow>
                  (ptr_parts a @ [(''layout'', Addr layout_name)],
                   declare_obj (Layout_Decl layout_name (length field_inits) fields_name (jget p ''size'' (JInt 0))) e3))
             else if jmember p ''kind'' = Some (JString ''ptr_into_arg'') then
               (ptr_parts a @ [(''out_ptr_into_arg1'', Val (JInt (jint (jget p ''into_arg'' (JInt 0)) + 1)))], e)
             else (ptr_parts a, e)))"
| "emit_fields hash [] e = ([], e)"
| "emit_fields hash (f # fs) e =
     (case uid ''fspec'' e of (spec_name, e1) \<Rightarrow>
      case arg_spec_body hash f e1 of (body, e2) \<Rightarrow>
      case emit_fields hash fs (declare_obj (Arg_Decl spec_name body) e2) of (rest, e3) \<Rightarrow>
        ((jget f ''offset'' (JInt 0), spec_name, if truthy (jmember f ''touched'') then 1 else 0) # rest, e3))"
  by pat_completeness auto
termination
proof (relation "measure (\<lambda>x. case x of Inl (hash, a, e) \<Rightarrow> 2 * size a | Inr (hash, fs, e) \<Rightarrow> 2 * size_list size fs + 1)")
  have head: "size p < size a" if "jlist (jmember a k) = p # ps" for a p ps k
    using jlist_size [of p a k] that by simp
  have sub: "2 * size_list size (jlist (jmember p l)) + 1 < 2 * size a" if "jlist (jmember a k) = p # ps" for a p ps k l
    using head [OF that] jlist_size_list [of p l] by linarith
  fix hash a e kind p ps
  show "(Inl (hash, p, e), Inl (hash, a, e)) \<in> measure (\<lambda>x. case x of Inl (hash, a, e) \<Rightarrow> 2 * size a
      | Inr (hash, fs, e) \<Rightarrow> 2 * size_list size fs + 1)" if "jlist (jmember a ''pointee'') = p # ps"
    using head [OF that] by simp
  show "(Inr (hash, jlist (jmember p ''fields''), e), Inl (hash, a, e)) \<in> measure (\<lambda>x. case x of Inl (hash, a, e) \<Rightarrow> 2 * size a
      | Inr (hash, fs, e) \<Rightarrow> 2 * size_list size fs + 1)" if "jlist (jmember a ''pointee'') = p # ps"
    using sub [OF that] by simp
qed auto

declare arg_spec_body.simps [simp del]

fun emit_args :: "(string \<Rightarrow> int) \<Rightarrow> json list \<Rightarrow> emitter \<Rightarrow> initializer list \<times> emitter" where
  "emit_args hash [] e = ([], e)"
| "emit_args hash (a # as) e =
     (case arg_spec_body hash a e of (body, e1) \<Rightarrow>
      case emit_args hash as e1 of (bodies, e2) \<Rightarrow> (body # bodies, e2))"

definition ret_spec_body :: "(string \<Rightarrow> int) \<Rightarrow> json \<Rightarrow> initializer" where
  "ret_spec_body hash rt =
     (let kind = jget rt ''kind'' (JString ''scalar'') in
      [(''kind'', Enum (RET_KIND kind))] @
      (if kind = JString ''ptr_alias_arg'' \<or> kind = JString ''ptr_into_arg''
       then [(''alias_arg_index'', Val (jget rt ''alias_arg'' (JInt 0)))] else []) @
      (if kind = JString ''handle''
       then [(''handle_class'', handle_class_id hash (jget rt ''handle_class'' (JString ''void'')))] else []))"

text \<open>The object \<^verbatim>\<open>spec_<name>\<close> of a function.\<close>

record spec_object =
  so_name :: string
  so_nargs :: nat
  so_args :: "initializer list"
  so_ret :: initializer

definition emit_function_spec :: "(string \<Rightarrow> int) \<Rightarrow> json \<Rightarrow> emitter \<Rightarrow> spec_object \<times> emitter" where
  "emit_function_spec hash fn e =
     (let args = jlist (jmember fn ''args'');
          rt = jget fn ''ret'' (JObject [(''kind'', JString ''void'')]) in
      case emit_args hash args e of (arg_inits, e1) \<Rightarrow>
        (\<lparr> so_name = ''spec_'' @ jstring (jget fn ''name'' JNull), so_nargs = length args, so_args = arg_inits,
           so_ret = ret_spec_body hash rt \<rparr>, e1))"

text \<open>The table of a grate: the names, each with the object of its specification.\<close>

fun emit_table :: "(string \<Rightarrow> int) \<Rightarrow> json list \<Rightarrow> emitter \<Rightarrow> (string \<times> spec_object) list \<times> emitter" where
  "emit_table hash [] e = ([], e)"
| "emit_table hash (f # fs) e =
     (case emit_function_spec hash f e of (spec, e1) \<Rightarrow>
      case emit_table hash fs e1 of (rest, e2) \<Rightarrow> ((jstring (jget f ''name'' JNull), spec) # rest, e2))"

text \<open>\<open>only\<close> is the list of the option \<^verbatim>\<open>--only\<close>, empty if it is not given.\<close>

definition gen_grate :: "(string \<Rightarrow> int) \<Rightarrow> string list \<Rightarrow> json \<Rightarrow> (string \<times> spec_object) list \<times> emitter" where
  "gen_grate hash only d =
     (let marshal_fns = filter (\<lambda>f. jmember f ''decision'' = Some (JString ''marshal'')) (jlist (jmember d ''functions''));
          fns = filter is_marshalable marshal_fns;
          wanted = (if only = [] then fns else filter (\<lambda>f. jstring (jget f ''name'' JNull) \<in> set only) fns) in
      emit_table hash wanted \<lparr> decls = [], uids = 0 \<rparr>)"

section \<open>What the compiler reads\<close>

text \<open>
  The static objects as the runtime finds them: designators that are missing are zero, integers are
  converted to the type of the field, an address is that of an object declared before, and no name
  is declared twice. Anything else does not compile.
\<close>

datatype c_obj = Spec_Obj arg_spec | Fields_Obj "struct_field list" | Layout_Obj struct_layout

type_synonym c_env = "string \<rightharpoonup> c_obj"

fun read_num :: "nat \<Rightarrow> init_val option \<Rightarrow> nat option" where
  "read_num w None = Some 0"
| "read_num w (Some (Val (JInt i))) = Some (nat (i mod 2 ^ w))"
| "read_num w _ = None"

definition read_enum :: "(string \<times> 'a) list \<Rightarrow> 'a \<Rightarrow> init_val option \<Rightarrow> 'a option" where
  "read_enum table zero v =
     (case v of None \<Rightarrow> Some zero | Some (Enum c) \<Rightarrow> map_of table c | Some _ \<Rightarrow> None)"

definition arg_kinds :: "(string \<times> arg_kind) list" where
  "arg_kinds = [(''LIND_ARG_SCALAR'', ARG_SCALAR), (''LIND_ARG_PTR'', ARG_PTR), (''LIND_ARG_HANDLE'', ARG_HANDLE)]"

definition directions :: "(string \<times> ptr_direction) list" where
  "directions = [(''LIND_PTR_IN'', PTR_IN), (''LIND_PTR_OUT'', PTR_OUT), (''LIND_PTR_INOUT'', PTR_INOUT)]"

definition size_kinds :: "(string \<times> size_kind) list" where
  "size_kinds = [(''LIND_SIZE_NONE'', SIZE_NONE), (''LIND_SIZE_CONST'', SIZE_CONST), (''LIND_SIZE_FROM_ARG'', SIZE_FROM_ARG),
     (''LIND_SIZE_FROM_ARG_POINTEE'', SIZE_FROM_ARG_POINTEE), (''LIND_SIZE_CSTR'', SIZE_CSTR),
     (''LIND_SIZE_PTR_ARRAY'', SIZE_PTR_ARRAY)]"

definition return_kinds :: "(string \<times> return_kind) list" where
  "return_kinds = [(''LIND_RET_VOID'', RET_VOID), (''LIND_RET_SCALAR'', RET_SCALAR),
     (''LIND_RET_PTR_ALIAS_ARG'', RET_PTR_ALIAS_ARG), (''LIND_RET_PTR_INTO_ARG'', RET_PTR_INTO_ARG),
     (''LIND_RET_HANDLE'', RET_HANDLE)]"

definition read_layout :: "c_env \<Rightarrow> init_val option \<Rightarrow> struct_layout option option" where
  "read_layout env v =
     (case v of
        None \<Rightarrow> Some None
      | Some (Addr n) \<Rightarrow> (case env n of Some (Layout_Obj l) \<Rightarrow> Some (Some l) | _ \<Rightarrow> None)
      | Some _ \<Rightarrow> None)"

definition read_element :: "c_env \<Rightarrow> init_val option \<Rightarrow> arg_spec option option" where
  "read_element env v =
     (case v of
        None \<Rightarrow> Some None
      | Some (Addr n) \<Rightarrow> (case env n of Some (Spec_Obj s) \<Rightarrow> Some (Some s) | _ \<Rightarrow> None)
      | Some _ \<Rightarrow> None)"

definition read_spec :: "c_env \<Rightarrow> initializer \<Rightarrow> arg_spec option" where
  "read_spec env b =
     do { k \<leftarrow> read_enum arg_kinds ARG_SCALAR (map_of b ''kind'');
          d \<leftarrow> read_enum directions PTR_IN (map_of b ''ptr_direction'');
          z \<leftarrow> read_enum size_kinds SIZE_NONE (map_of b ''size_kind'');
          c \<leftarrow> read_num 64 (map_of b ''const_size'');
          i \<leftarrow> read_num 32 (map_of b ''size_arg_index'');
          lo \<leftarrow> read_layout env (map_of b ''layout'');
          el \<leftarrow> read_element env (map_of b ''element'');
          h \<leftarrow> read_num 32 (map_of b ''handle_class'');
          o1 \<leftarrow> read_num 32 (map_of b ''out_ptr_into_arg1'');
          fl \<leftarrow> read_num 32 (map_of b ''flags'');
          Some (Arg_Spec k d z c i lo el h o1 fl) }"

definition read_field :: "c_env \<Rightarrow> json \<times> string \<times> nat \<Rightarrow> struct_field option" where
  "read_field env f =
     (case f of (off, n, t) \<Rightarrow>
        do { c \<leftarrow> read_num 32 (Some (Val off));
             s \<leftarrow> (case env n of Some (Spec_Obj s) \<Rightarrow> Some s | _ \<Rightarrow> None);
             Some (Field c s (t = 1)) })"

definition define_obj :: "c_env \<Rightarrow> string \<Rightarrow> c_obj option \<Rightarrow> c_env option" where
  "define_obj env n obj = (if env n \<noteq> None then None else map_option (\<lambda>x. env(n \<mapsto> x)) obj)"

fun read_decl :: "c_env \<Rightarrow> decl \<Rightarrow> c_env option" where
  "read_decl env (Arg_Decl n b) = define_obj env n (map_option Spec_Obj (read_spec env b))"
| "read_decl env (Fields_Decl n fs) = define_obj env n (map_option Fields_Obj (omap (read_field env) fs))"
| "read_decl env (Layout_Decl n k fields_name sz) =
     define_obj env n
       (do { c \<leftarrow> read_num 32 (Some (Val sz));
             fs \<leftarrow> (case env fields_name of Some (Fields_Obj fs) \<Rightarrow> Some fs | _ \<Rightarrow> None);
             if k \<le> length fs then Some (Layout_Obj (Layout LO_STRUCT (take k fs) 0 c)) else None })"

fun read_decls :: "c_env \<Rightarrow> decl list \<Rightarrow> c_env option" where
  "read_decls env [] = Some env"
| "read_decls env (d # ds) = (case read_decl env d of None \<Rightarrow> None | Some env' \<Rightarrow> read_decls env' ds)"

definition read_return :: "initializer \<Rightarrow> return_spec option" where
  "read_return b =
     do { k \<leftarrow> read_enum return_kinds RET_VOID (map_of b ''kind'');
          i \<leftarrow> read_num 32 (map_of b ''alias_arg_index'');
          h \<leftarrow> read_num 32 (map_of b ''handle_class'');
          fl \<leftarrow> read_num 32 (map_of b ''flags'');
          Some \<lparr> rs_kind = k, alias_arg_index = i, rs_handle_class = h, rs_flags = fl \<rparr> }"

text \<open>The array of arguments has 16 places.\<close>

definition read_function :: "c_env \<Rightarrow> spec_object \<Rightarrow> marshal_spec option" where
  "read_function env so =
     do { as \<leftarrow> omap (read_spec env) (so_args so);
          r \<leftarrow> read_return (so_ret so);
          if so_nargs so = length as \<and> length as \<le> 16 then Some \<lparr> ms_args = as, ms_ret = r \<rparr> else None }"

section \<open>What the document says\<close>

text \<open>A specification read off the document directly, without names.\<close>

definition ptr_spec :: "json \<Rightarrow> struct_layout option \<Rightarrow> arg_spec option \<Rightarrow> nat \<Rightarrow> arg_spec option" where
  "ptr_spec a lo el o1 =
     map_option (\<lambda>s. Arg_Spec (as_kind s) (ptr_direction s) (as_size_kind s) (const_size s) (size_arg_index s) lo el
       (as_handle_class s) o1 (as_flags s)) (read_spec Map.empty (ptr_parts a))"

definition scalar_spec :: arg_spec where
  "scalar_spec = Arg_Spec ARG_SCALAR PTR_IN SIZE_NONE 0 0 None None 0 0 0"

function doc_spec :: "(string \<Rightarrow> int) \<Rightarrow> json \<Rightarrow> arg_spec option"
  and doc_fields :: "(string \<Rightarrow> int) \<Rightarrow> json list \<Rightarrow> struct_field list option" where
  "doc_spec hash a =
     (let kind = jget a ''kind'' (JString ''scalar'') in
      if kind = JString ''scalar'' then Some scalar_spec
      else if kind = JString ''handle'' then
        Some (Arg_Spec ARG_HANDLE PTR_IN SIZE_NONE 0 0 None None
          (nat (hash (jstring (jget a ''handle_class'' (JString ''void''))) mod 2 ^ 31)) 0 0)
      else if kind \<noteq> JString ''ptr'' then Some scalar_spec
      else
        (case jlist (jmember a ''pointee'') of
           [] \<Rightarrow> ptr_spec a None None 0
         | p # _ \<Rightarrow>
             if jget a ''size_kind'' (JString ''const'') = JString ''ptr_array'' then
               (case doc_spec hash p of None \<Rightarrow> None | Some s \<Rightarrow> ptr_spec a None (Some s) 0)
             else if jmember p ''kind'' = Some (JString ''struct'') then
               (case doc_fields hash (jlist (jmember p ''fields'')) of
                  None \<Rightarrow> None
                | Some fs \<Rightarrow>
                    (case read_num 32 (Some (Val (jget p ''size'' (JInt 0)))) of
                       None \<Rightarrow> None
                     | Some n \<Rightarrow> ptr_spec a (Some (Layout LO_STRUCT fs 0 n)) None 0))
             else if jmember p ''kind'' = Some (JString ''ptr_into_arg'') then
               ptr_spec a None None (nat ((jint (jget p ''into_arg'' (JInt 0)) + 1) mod 2 ^ 32))
             else ptr_spec a None None 0))"
| "doc_fields hash [] = Some []"
| "doc_fields hash (f # fs) =
     (case (read_num 32 (Some (Val (jget f ''offset'' (JInt 0)))), doc_spec hash f, doc_fields hash fs) of
        (Some c, Some s, Some rest) \<Rightarrow> Some (Field c s (truthy (jmember f ''touched'')) # rest)
      | _ \<Rightarrow> None)"
  by pat_completeness auto
termination
proof (relation "measure (\<lambda>x. case x of Inl (hash, a) \<Rightarrow> 2 * size a | Inr (hash, fs) \<Rightarrow> 2 * size_list size fs + 1)")
  have head: "size p < size a" if "jlist (jmember a k) = p # ps" for a p ps k
    using jlist_size [of p a k] that by simp
  have sub: "2 * size_list size (jlist (jmember p l)) + 1 < 2 * size a" if "jlist (jmember a k) = p # ps" for a p ps k l
    using head [OF that] jlist_size_list [of p l] by linarith
  fix hash a kind p ps
  show "(Inl (hash, p), Inl (hash, a)) \<in> measure (\<lambda>x. case x of Inl (hash, a) \<Rightarrow> 2 * size a
      | Inr (hash, fs) \<Rightarrow> 2 * size_list size fs + 1)" if "jlist (jmember a ''pointee'') = p # ps"
    using head [OF that] by simp
  show "(Inr (hash, jlist (jmember p ''fields'')), Inl (hash, a)) \<in> measure (\<lambda>x. case x of Inl (hash, a) \<Rightarrow> 2 * size a
      | Inr (hash, fs) \<Rightarrow> 2 * size_list size fs + 1)" if "jlist (jmember a ''pointee'') = p # ps"
    using sub [OF that] by simp
qed auto

declare doc_spec.simps [simp del]

definition doc_function :: "(string \<Rightarrow> int) \<Rightarrow> json \<Rightarrow> marshal_spec option" where
  "doc_function hash fn =
     do { as \<leftarrow> omap (doc_spec hash) (jlist (jmember fn ''args''));
          r \<leftarrow> read_return (ret_spec_body hash (jget fn ''ret'' (JObject [(''kind'', JString ''void'')])));
          if length as \<le> 16 then Some \<lparr> ms_args = as, ms_ret = r \<rparr> else None }"

section \<open>Names\<close>

text \<open>The number at the end of a generated name tells it apart.\<close>

lemma to_string_inj: "to_string m = to_string n \<Longrightarrow> m = n"
proof (induction m arbitrary: n rule: to_string.induct)
  case (1 m)
  have len: "length (to_string k) = 1 \<longleftrightarrow> k < 10" for k
    by (subst to_string.simps) simp
  have digit: "i = j" if "char_of (48 + i :: nat) = (char_of (48 + j) :: char)" "i < 10" "j < 10" for i j
  proof -
    have "of_char (char_of (48 + i :: nat) :: char) = (of_char (char_of (48 + j) :: char) :: nat)" using that(1) by simp
    with that(2,3) show ?thesis by (simp only: of_char_digit)
  qed
  have same: "m < 10 \<longleftrightarrow> n < 10" using "1.prems" len [of m] len [of n] by simp
  have m: "to_string m = (if m < 10 then [char_of (48 + m)] else to_string (m div 10) @ [char_of (48 + m mod 10)])"
    and n: "to_string n = (if n < 10 then [char_of (48 + n)] else to_string (n div 10) @ [char_of (48 + n mod 10)])"
    by (rule to_string.simps)+
  show ?case
  proof (cases "m < 10")
    case True
    with same "1.prems" m n have "(char_of (48 + m) :: char) = char_of (48 + n)" by simp
    from digit [OF this] True same show ?thesis by blast
  next
    case False
    with same "1.prems" m n have eq: "to_string (m div 10) = to_string (n div 10)"
        "(char_of (48 + m mod 10) :: char) = char_of (48 + n mod 10)"
      by (simp_all only: if_False append1_eq_conv)
    have "m div 10 = n div 10" by (rule "1.IH" [OF False eq(1)])
    moreover have "m mod 10 = n mod 10" by (rule digit [OF eq(2)]) simp_all
    ultimately show ?thesis by (metis div_mult_mod_eq)
  qed
qed

lemma name_number: "a @ ''_'' @ to_string m = b @ ''_'' @ to_string n \<Longrightarrow> m = n"
proof -
  assume eq: "a @ ''_'' @ to_string m = b @ ''_'' @ to_string n"
  have no: "c \<noteq> CHR ''_''" if "c \<in> set (to_string k)" for c k
    using to_string_digits [OF that] by auto
  have "takeWhile (\<lambda>c. c \<noteq> CHR ''_'') (rev (x @ ''_'' @ to_string k)) = rev (to_string k)" for x k
    by (simp, subst takeWhile_append2) (use no in auto)
  from this [of a m] this [of b n] eq have "rev (to_string m) = rev (to_string n)" by (simp only:)
  then have "to_string m = to_string n" by simp
  then show ?thesis by (rule to_string_inj)
qed

definition fresh_above :: "nat \<Rightarrow> c_env \<Rightarrow> bool" where
  "fresh_above n env \<longleftrightarrow> (\<forall>base k. n < k \<longrightarrow> env (base @ ''_'' @ to_string k) = None)"

definition grown :: "nat \<Rightarrow> c_env \<Rightarrow> c_env \<Rightarrow> bool" where
  "grown n env env' \<longleftrightarrow> env \<subseteq>\<^sub>m env' \<and> (\<forall>base k. k \<le> n \<longrightarrow> env' (base @ ''_'' @ to_string k) = env (base @ ''_'' @ to_string k))"

lemma grown_refl: "grown n env env"
  by (simp add: grown_def)

lemma grown_trans: "grown n env env' \<Longrightarrow> grown k env' env'' \<Longrightarrow> n \<le> k \<Longrightarrow> grown n env env''"
  unfolding grown_def using map_le_trans by fastforce

lemma fresh_above_mono: "fresh_above n env \<Longrightarrow> n \<le> k \<Longrightarrow> fresh_above k env"
  by (simp add: fresh_above_def)

text \<open>Declaring an object under the next number.\<close>

lemma define_next:
  assumes "fresh_above n env" and "n < k"
  shows "define_obj env (base @ ''_'' @ to_string k) (Some x) = Some (env(base @ ''_'' @ to_string k \<mapsto> x))"
    and "grown n env (env(base @ ''_'' @ to_string k \<mapsto> x))"
    and "fresh_above k (env(base @ ''_'' @ to_string k \<mapsto> x))"
proof -
  have none: "env (base @ ''_'' @ to_string k) = None" using assms unfolding fresh_above_def by blast
  then show "define_obj env (base @ ''_'' @ to_string k) (Some x) = Some (env(base @ ''_'' @ to_string k \<mapsto> x))"
    by (simp add: define_obj_def)
  have other: "(env(base @ ''_'' @ to_string k \<mapsto> x)) (b @ ''_'' @ to_string j) = env (b @ ''_'' @ to_string j)" if "j \<noteq> k" for b j
    using name_number [of b j base k] that by (simp only: fun_upd_def) (metis (full_types))
  show "grown n env (env(base @ ''_'' @ to_string k \<mapsto> x))"
    unfolding grown_def map_le_def
  proof (intro conjI ballI allI impI)
    fix a assume "a \<in> dom env"
    with none show "env a = (env(base @ ''_'' @ to_string k \<mapsto> x)) a" by (cases "a = base @ ''_'' @ to_string k") (auto simp only: fun_upd_def if_False dom_def)
  next
    fix b j assume "j \<le> n"
    with assms(2) have "j \<noteq> k" by simp
    then show "(env(base @ ''_'' @ to_string k \<mapsto> x)) (b @ ''_'' @ to_string j) = env (b @ ''_'' @ to_string j)" by (rule other)
  qed
  show "fresh_above k (env(base @ ''_'' @ to_string k \<mapsto> x))"
    unfolding fresh_above_def
  proof (intro allI impI)
    fix b j assume "k < j"
    with assms other [of j b] show "(env(base @ ''_'' @ to_string k \<mapsto> x)) (b @ ''_'' @ to_string j) = None"
      unfolding fresh_above_def by (metis less_trans less_irrefl_nat)
  qed
qed

section \<open>Reading what is declared\<close>

lemma ptr_parts_rest:
  "map_of (ptr_parts a) ''layout'' = None" "map_of (ptr_parts a) ''element'' = None" "map_of (ptr_parts a) ''handle_class'' = None"
  "map_of (ptr_parts a) ''out_ptr_into_arg1'' = None" "map_of (ptr_parts a) ''flags'' = None"
  by (simp_all add: ptr_parts_def Let_def)

lemma map_of_more: "map_of xs k = None \<Longrightarrow> map_of (xs @ [(k, v)]) q = (if q = k then Some v else map_of xs q)"
  by (auto simp: map_add_def split: option.split)

text \<open>The part of a pointer that needs no names.\<close>

definition ptr_base :: "json \<Rightarrow> (arg_kind \<times> ptr_direction \<times> size_kind \<times> nat \<times> nat) option" where
  "ptr_base a =
     do { k \<leftarrow> read_enum arg_kinds ARG_SCALAR (map_of (ptr_parts a) ''kind'');
          d \<leftarrow> read_enum directions PTR_IN (map_of (ptr_parts a) ''ptr_direction'');
          z \<leftarrow> read_enum size_kinds SIZE_NONE (map_of (ptr_parts a) ''size_kind'');
          c \<leftarrow> read_num 64 (map_of (ptr_parts a) ''const_size'');
          i \<leftarrow> read_num 32 (map_of (ptr_parts a) ''size_arg_index'');
          Some (k, d, z, c, i) }"

lemma read_spec_parts:
  assumes "read_layout env (map_of b ''layout'') = Some lo" and "read_element env (map_of b ''element'') = Some el"
    and "read_num 32 (map_of b ''out_ptr_into_arg1'') = Some o1"
    and "\<And>k. k \<in> {''kind'', ''ptr_direction'', ''size_kind'', ''const_size'', ''size_arg_index'', ''handle_class'', ''flags''} \<Longrightarrow>
      map_of b k = map_of (ptr_parts a) k"
  shows "read_spec env b = map_option (\<lambda>(k, d, z, c, i). Arg_Spec k d z c i lo el 0 o1 0) (ptr_base a)"
proof -
  have eq: "map_of b ''kind'' = map_of (ptr_parts a) ''kind''" "map_of b ''ptr_direction'' = map_of (ptr_parts a) ''ptr_direction''"
      "map_of b ''size_kind'' = map_of (ptr_parts a) ''size_kind''" "map_of b ''const_size'' = map_of (ptr_parts a) ''const_size''"
      "map_of b ''size_arg_index'' = map_of (ptr_parts a) ''size_arg_index''" "map_of b ''handle_class'' = None" "map_of b ''flags'' = None"
    using assms(4) by (simp_all add: ptr_parts_rest)
  show ?thesis
    unfolding read_spec_def ptr_base_def eq assms(1-3)
    by (cases "read_enum arg_kinds ARG_SCALAR (map_of (ptr_parts a) ''kind'')";
        cases "read_enum directions PTR_IN (map_of (ptr_parts a) ''ptr_direction'')";
        cases "read_enum size_kinds SIZE_NONE (map_of (ptr_parts a) ''size_kind'')";
        cases "read_num 64 (map_of (ptr_parts a) ''const_size'')";
        cases "read_num 32 (map_of (ptr_parts a) ''size_arg_index'')")
      simp_all
qed

lemma ptr_spec_base: "ptr_spec a lo el o1 = map_option (\<lambda>(k, d, z, c, i). Arg_Spec k d z c i lo el 0 o1 0) (ptr_base a)"
proof -
  have "read_spec Map.empty (ptr_parts a) = map_option (\<lambda>(k, d, z, c, i). Arg_Spec k d z c i None None 0 0 0) (ptr_base a)"
    by (rule read_spec_parts) (simp_all add: ptr_parts_rest read_layout_def read_element_def)
  then show ?thesis by (cases "ptr_base a") (auto simp: ptr_spec_def)
qed

lemma read_spec_ptr: "read_spec env (ptr_parts a) = ptr_spec a None None 0"
  unfolding ptr_spec_base by (rule read_spec_parts) (simp_all add: ptr_parts_rest read_layout_def read_element_def)

lemma read_spec_element:
  "env n = Some (Spec_Obj s) \<Longrightarrow> read_spec env (ptr_parts a @ [(''element'', Addr n)]) = ptr_spec a None (Some s) 0"
  unfolding ptr_spec_base
  by (rule read_spec_parts) (auto simp: ptr_parts_rest map_of_more read_layout_def read_element_def simp del: map_of_append)

lemma read_spec_layout:
  "env n = Some (Layout_Obj l) \<Longrightarrow> read_spec env (ptr_parts a @ [(''layout'', Addr n)]) = ptr_spec a (Some l) None 0"
  unfolding ptr_spec_base
  by (rule read_spec_parts) (auto simp: ptr_parts_rest map_of_more read_layout_def read_element_def simp del: map_of_append)

lemma read_spec_into:
  "read_spec env (ptr_parts a @ [(''out_ptr_into_arg1'', Val (JInt i))]) = ptr_spec a None None (nat (i mod 2 ^ 32))"
  unfolding ptr_spec_base
  by (rule read_spec_parts) (auto simp: ptr_parts_rest map_of_more read_layout_def read_element_def simp del: map_of_append)

lemma read_spec_scalar: "read_spec env scalar_body = Some scalar_spec"
  by (simp add: read_spec_def scalar_body_def scalar_spec_def read_enum_def arg_kinds_def read_layout_def read_element_def)

lemma read_spec_handle:
  "read_spec env [(''kind'', Enum ''LIND_ARG_HANDLE''), (''handle_class'', handle_class_id hash c)]
   = Some (Arg_Spec ARG_HANDLE PTR_IN SIZE_NONE 0 0 None None (nat (hash (jstring c) mod 2 ^ 31)) 0 0)"
proof -
  have "hash (jstring c) mod 2 ^ 31 mod 2 ^ 32 = hash (jstring c) mod (2 ^ 31 :: int)"
    by (rule mod_pos_pos_trivial) (simp_all add: order_less_trans [OF pos_mod_bound])
  then show ?thesis
    by (simp add: read_spec_def read_enum_def arg_kinds_def read_layout_def read_element_def handle_class_id_def)
qed

text \<open>More declarations do not change what is read.\<close>

lemma more_objects: "env \<subseteq>\<^sub>m env' \<Longrightarrow> env n = Some x \<Longrightarrow> env' n = Some x"
  unfolding map_le_def by (metis domI)

lemma read_element_mono: "env \<subseteq>\<^sub>m env' \<Longrightarrow> read_element env v = Some el \<Longrightarrow> read_element env' v = Some el"
  by (simp add: read_element_def split: option.splits init_val.splits c_obj.splits) (auto dest: more_objects)

lemma read_layout_mono: "env \<subseteq>\<^sub>m env' \<Longrightarrow> read_layout env v = Some lo \<Longrightarrow> read_layout env' v = Some lo"
  by (simp add: read_layout_def split: option.splits init_val.splits c_obj.splits) (auto dest: more_objects)

lemma read_field_mono:
  assumes "env \<subseteq>\<^sub>m env'" and "read_field env f = Some x"
  shows "read_field env' f = Some x"
proof -
  obtain off n t where f: "f = (off, n, t)" by (cases f)
  with assms(2) obtain c s where "read_num 32 (Some (Val off)) = Some c" "env n = Some (Spec_Obj s)" "x = Field c s (t = 1)"
    by (auto simp: read_field_def bind_eq_Some_conv split: option.splits c_obj.splits)
  with f more_objects [OF assms(1)] show ?thesis by (simp add: read_field_def)
qed

lemma read_spec_mono:
  assumes "env \<subseteq>\<^sub>m env'" and "read_spec env b = Some s"
  shows "read_spec env' b = Some s"
proof -
  obtain lo el where "read_layout env (map_of b ''layout'') = Some lo" "read_element env (map_of b ''element'') = Some el"
    using assms(2) unfolding read_spec_def by (fastforce simp: bind_eq_Some_conv)
  with read_layout_mono [OF assms(1)] read_element_mono [OF assms(1)] have
    "read_layout env' (map_of b ''layout'') = read_layout env (map_of b ''layout'')"
    "read_element env' (map_of b ''element'') = read_element env (map_of b ''element'')" by simp_all
  with assms(2) show ?thesis unfolding read_spec_def by simp
qed

lemma omap_mono: "(\<And>x y. f x = Some y \<Longrightarrow> g x = Some y) \<Longrightarrow> omap f xs = Some ys \<Longrightarrow> omap g xs = Some ys"
  by (induction xs arbitrary: ys) (auto split: option.splits)

lemma read_decls_append: "read_decls env (xs @ ys) = (case read_decls env xs of None \<Rightarrow> None | Some env' \<Rightarrow> read_decls env' ys)"
  by (induction xs arbitrary: env) (auto split: option.split)

end
