(* ===== verification/Gen_Grate_Correct.thy ===== *)
theory Gen_Grate_Correct
  imports Gen_Grate
begin

text \<open>
  The declarations of a generated grate mean what the marshalling document says: every name that is
  referred to is declared once, before its use, with the contents meant for it.
\<close>

section \<open>Emission\<close>

text \<open>What is emitted between two states of the emitter, read in any environment that has none of the
  new names, declares them and leaves the rest alone.\<close>

definition emitted :: "emitter \<Rightarrow> emitter \<Rightarrow> (c_env \<Rightarrow> bool) \<Rightarrow> bool" where
  "emitted e e' P \<longleftrightarrow>
     uids e \<le> uids e' \<and>
     (\<exists>new. decls e' = decls e @ new \<and>
        (\<forall>env. fresh_above (uids e) env \<longrightarrow>
           (\<exists>env'. read_decls env new = Some env' \<and> grown (uids e) env env' \<and> fresh_above (uids e') env' \<and> P env')))"

lemma emitted_refl: "(\<And>env. P env) \<Longrightarrow> emitted e e P"
  unfolding emitted_def by (force simp: grown_refl)

lemma emitted_conseq: "emitted e e' P \<Longrightarrow> (\<And>env. P env \<Longrightarrow> Q env) \<Longrightarrow> emitted e e' Q"
  unfolding emitted_def by meson

lemma emitted_trans:
  assumes 1: "emitted e e' P" and 2: "emitted e' e'' Q" and mono: "\<And>env env'. env \<subseteq>\<^sub>m env' \<Longrightarrow> P env \<Longrightarrow> P env'"
  shows "emitted e e'' (\<lambda>env. P env \<and> Q env)"
proof -
  from 1 obtain new1 where n1: "decls e' = decls e @ new1" "uids e \<le> uids e'"
    and r1: "\<And>env. fresh_above (uids e) env \<Longrightarrow>
      \<exists>env'. read_decls env new1 = Some env' \<and> grown (uids e) env env' \<and> fresh_above (uids e') env' \<and> P env'"
    unfolding emitted_def by blast
  from 2 obtain new2 where n2: "decls e'' = decls e' @ new2" "uids e' \<le> uids e''"
    and r2: "\<And>env. fresh_above (uids e') env \<Longrightarrow>
      \<exists>env'. read_decls env new2 = Some env' \<and> grown (uids e') env env' \<and> fresh_above (uids e'') env' \<and> Q env'"
    unfolding emitted_def by blast
  have "\<exists>env'. read_decls env (new1 @ new2) = Some env' \<and> grown (uids e) env env' \<and> fresh_above (uids e'') env' \<and> P env' \<and> Q env'"
    if fr: "fresh_above (uids e) env" for env
  proof -
    obtain env1 where e1: "read_decls env new1 = Some env1" "grown (uids e) env env1" "fresh_above (uids e') env1" "P env1"
      using r1 [OF fr] by blast
    obtain env2 where e2: "read_decls env1 new2 = Some env2" "grown (uids e') env1 env2" "fresh_above (uids e'') env2" "Q env2"
      using r2 [OF e1(3)] by blast
    have "P env2" using mono [of env1 env2] e1(4) e2(2) unfolding grown_def by blast
    moreover have "grown (uids e) env env2" by (rule grown_trans [OF e1(2) e2(2) n1(2)])
    ultimately show ?thesis using e1(1) e2 by (simp add: read_decls_append)
  qed
  then show ?thesis unfolding emitted_def using n1 n2 by (metis append.assoc le_trans)
qed

text \<open>An object under a new number.\<close>

lemma emitted_next:
  assumes "\<And>env. P env \<Longrightarrow> read_decl env d = define_obj env (base @ ''_'' @ to_string (uids e + 1)) (Some x)"
    and "emitted e0 e P" and mono: "\<And>env env'. env \<subseteq>\<^sub>m env' \<Longrightarrow> P env \<Longrightarrow> P env'"
  shows "emitted e0 (declare_obj d (e\<lparr> uids := uids e + 1 \<rparr>)) (\<lambda>env. P env \<and> env (base @ ''_'' @ to_string (uids e + 1)) = Some x)"
proof -
  let ?n = "base @ ''_'' @ to_string (uids e + 1)"
  from assms(2) obtain new where n: "decls e = decls e0 @ new" "uids e0 \<le> uids e"
    and r: "\<And>env. fresh_above (uids e0) env \<Longrightarrow>
      \<exists>env'. read_decls env new = Some env' \<and> grown (uids e0) env env' \<and> fresh_above (uids e) env' \<and> P env'"
    unfolding emitted_def by blast
  have "\<exists>env'. read_decls env (new @ [d]) = Some env' \<and> grown (uids e0) env env' \<and> fresh_above (uids e + 1) env'
      \<and> P env' \<and> env' ?n = Some x" if fr: "fresh_above (uids e0) env" for env
  proof -
    obtain env1 where e1: "read_decls env new = Some env1" "grown (uids e0) env env1" "fresh_above (uids e) env1" "P env1"
      using r [OF fr] by blast
    have lt: "uids e < uids e + 1" by simp
    note def = define_next [OF e1(3) lt, of base x]
    have "P (env1(?n \<mapsto> x))" using def(2) mono [of env1] e1(4) unfolding grown_def by blast
    moreover have "grown (uids e0) env (env1(?n \<mapsto> x))" by (rule grown_trans [OF e1(2) def(2) n(2)])
    moreover have "read_decls env (new @ [d]) = Some (env1(?n \<mapsto> x))"
      using e1(1) def(1) assms(1) [OF e1(4)] by (simp only: read_decls_append option.case read_decls.simps)
    ultimately show ?thesis using def(3) by (intro exI [of _ "env1(?n \<mapsto> x)"] conjI) (simp_all only: fun_upd_same)
  qed
  then show ?thesis using n unfolding emitted_def declare_obj_def by simp
qed

text \<open>An object under a number that was taken before its parts were emitted.\<close>

lemma emitted_reserved:
  assumes "\<And>env. P env \<Longrightarrow> read_decl env d = define_obj env (base @ ''_'' @ to_string (uids e + 1)) (Some x)"
    and "emitted (e\<lparr> uids := uids e + 1 \<rparr>) e' P" and mono: "\<And>env env'. env \<subseteq>\<^sub>m env' \<Longrightarrow> P env \<Longrightarrow> P env'"
  shows "emitted e (declare_obj d e') (\<lambda>env. P env \<and> env (base @ ''_'' @ to_string (uids e + 1)) = Some x)"
proof -
  let ?n = "base @ ''_'' @ to_string (uids e + 1)"
  from assms(2) obtain new where n: "decls e' = decls e @ new" "uids e + 1 \<le> uids e'"
    and r: "\<And>env. fresh_above (uids e + 1) env \<Longrightarrow>
      \<exists>env'. read_decls env new = Some env' \<and> grown (uids e + 1) env env' \<and> fresh_above (uids e') env' \<and> P env'"
    unfolding emitted_def by auto
  have "\<exists>env'. read_decls env (new @ [d]) = Some env' \<and> grown (uids e) env env' \<and> fresh_above (uids e') env'
      \<and> P env' \<and> env' ?n = Some x" if fr: "fresh_above (uids e) env" for env
  proof -
    obtain env1 where e1: "read_decls env new = Some env1" "grown (uids e + 1) env env1" "fresh_above (uids e') env1" "P env1"
      using r [OF fresh_above_mono [OF fr]] by (meson le_add1)
    have "env ?n = None" using fr unfolding fresh_above_def by (meson less_add_one)
    then have none: "env1 ?n = None" using e1(2) unfolding grown_def by (metis order_refl)
    have other: "(env1(?n \<mapsto> x)) (b @ ''_'' @ to_string j) = env1 (b @ ''_'' @ to_string j)" if "j \<noteq> uids e + 1" for b j
      using name_number [of b j base "uids e + 1"] that by (simp only: fun_upd_def) (metis (full_types))
    have up: "env1 \<subseteq>\<^sub>m env1(?n \<mapsto> x)" unfolding map_le_def
    proof
      fix a assume "a \<in> dom env1"
      then show "env1 a = (env1(?n \<mapsto> x)) a" using none by (cases "a = ?n") (auto simp only: fun_upd_def if_False dom_def)
    qed
    have "grown (uids e) env (env1(?n \<mapsto> x))" unfolding grown_def
    proof (intro conjI allI impI)
      show "env \<subseteq>\<^sub>m env1(?n \<mapsto> x)" using e1(2) up unfolding grown_def by (blast intro: map_le_trans)
      fix b k assume "k \<le> uids e"
      then have "k \<noteq> uids e + 1" "k \<le> uids e + 1" by simp_all
      then show "(env1(?n \<mapsto> x)) (b @ ''_'' @ to_string k) = env (b @ ''_'' @ to_string k)"
        using other e1(2) unfolding grown_def by metis
    qed
    moreover have "fresh_above (uids e') (env1(?n \<mapsto> x))" unfolding fresh_above_def
    proof (intro allI impI)
      fix b k assume "uids e' < k"
      then have "k \<noteq> uids e + 1" using n(2) by simp
      with other e1(3) \<open>uids e' < k\<close> show "(env1(?n \<mapsto> x)) (b @ ''_'' @ to_string k) = None" unfolding fresh_above_def by metis
    qed
    moreover have "P (env1(?n \<mapsto> x))" by (rule mono [OF up e1(4)])
    moreover have "define_obj env1 ?n (Some x) = Some (env1(?n \<mapsto> x))" using none by (simp only: define_obj_def) simp
    then have "read_decls env (new @ [d]) = Some (env1(?n \<mapsto> x))"
      using e1(1) assms(1) [OF e1(4)] by (simp only: read_decls_append option.case read_decls.simps)
    ultimately show ?thesis by (intro exI [of _ "env1(?n \<mapsto> x)"] conjI) (simp_all only: fun_upd_same)
  qed
  then show ?thesis using n unfolding emitted_def declare_obj_def by simp
qed

lemma omap_read_field_mono:
  "env \<subseteq>\<^sub>m env' \<Longrightarrow> omap (read_field env) fs = Some xs \<Longrightarrow> omap (read_field env') fs = Some xs"
  by (rule omap_mono [OF read_field_mono])

lemma read_arg_decl:
  "read_spec env b = Some s \<Longrightarrow> read_decl env (Arg_Decl n b) = define_obj env n (Some (Spec_Obj s))"
  by simp

lemma read_layout_decl:
  "env fn = Some (Fields_Obj fs) \<Longrightarrow> read_num 32 (Some (Val sz)) = Some c \<Longrightarrow>
   read_decl env (Layout_Decl n (length fs) fn sz) = define_obj env n (Some (Layout_Obj (Layout LO_STRUCT fs 0 c)))"
  by simp

lemma emitted_layout:
  assumes "emitted e e1 (\<lambda>env. omap (read_field env) inits = Some fs)"
    and "read_num 32 (Some (Val sz)) = Some c"
    and "uid ''fields'' e1 = (fields_name, e2)"
    and "uid ''layout'' (declare_obj (Fields_Decl fields_name inits) e2) = (layout_name, e3)"
  shows "emitted e (declare_obj (Layout_Decl layout_name (length inits) fields_name sz) e3)
    (\<lambda>env. env layout_name = Some (Layout_Obj (Layout LO_STRUCT fs 0 c)))"
proof -
  have len: "length inits = length fs" if "omap (read_field env) inits = Some fs" for env
    using omap_Some_length [OF that] by simp
  have names: "fields_name = ''fields'' @ ''_'' @ to_string (uids e1 + 1)" "e2 = e1\<lparr> uids := uids e1 + 1 \<rparr>"
    using assms(3) unfolding uid_def prod.inject by simp_all
  define e2' where "e2' = declare_obj (Fields_Decl fields_name inits) e2"
  have names': "layout_name = ''layout'' @ ''_'' @ to_string (uids e2' + 1)" "e3 = e2'\<lparr> uids := uids e2' + 1 \<rparr>"
    using assms(4) unfolding uid_def prod.inject e2'_def by simp_all
  have 1: "emitted e e2' (\<lambda>env. omap (read_field env) inits = Some fs \<and> env fields_name = Some (Fields_Obj fs))"
    unfolding e2'_def names
    by (rule emitted_next [OF _ assms(1)]) (simp_all add: omap_read_field_mono)
  have "emitted e (declare_obj (Layout_Decl layout_name (length inits) fields_name sz) e3)
    (\<lambda>env. (omap (read_field env) inits = Some fs \<and> env fields_name = Some (Fields_Obj fs))
       \<and> env layout_name = Some (Layout_Obj (Layout LO_STRUCT fs 0 c)))"
    unfolding names'
  proof (rule emitted_next [OF _ 1])
    fix env assume "omap (read_field env) inits = Some fs \<and> env fields_name = Some (Fields_Obj fs)"
    then show "read_decl env (Layout_Decl (''layout'' @ ''_'' @ to_string (uids e2' + 1)) (length inits) fields_name sz) =
        define_obj env (''layout'' @ ''_'' @ to_string (uids e2' + 1)) (Some (Layout_Obj (Layout LO_STRUCT fs 0 c)))"
      using read_layout_decl [of env fields_name fs sz c] len [of env] assms(2) by metis
  next
    fix env env' assume "env \<subseteq>\<^sub>m env'" "omap (read_field env) inits = Some fs \<and> env fields_name = Some (Fields_Obj fs)"
    then show "omap (read_field env') inits = Some fs \<and> env' fields_name = Some (Fields_Obj fs)"
      using omap_read_field_mono more_objects by metis
  qed
  then show ?thesis by (rule emitted_conseq) blast
qed

lemma emitted_element:
  assumes "emitted e e1 (\<lambda>env. read_spec env body = Some s)" and "uid ''elem'' e1 = (name, e2)"
  shows "emitted e (declare_obj (Arg_Decl name body) e2) (\<lambda>env. env name = Some (Spec_Obj s))"
proof -
  have names: "name = ''elem'' @ ''_'' @ to_string (uids e1 + 1)" "e2 = e1\<lparr> uids := uids e1 + 1 \<rparr>"
    using assms(2) unfolding uid_def prod.inject by simp_all
  have "emitted e (declare_obj (Arg_Decl name body) e2) (\<lambda>env. read_spec env body = Some s \<and> env name = Some (Spec_Obj s))"
    unfolding names by (rule emitted_next [OF _ assms(1)]) (simp_all only: read_arg_decl read_spec_mono)
  then show ?thesis by (rule emitted_conseq) blast
qed

lemma emitted_field:
  assumes "emitted (e\<lparr> uids := uids e + 1 \<rparr>) e2 (\<lambda>env. read_spec env body = Some s)" and "uid ''fspec'' e = (name, e1)"
  shows "emitted e (declare_obj (Arg_Decl name body) e2) (\<lambda>env. env name = Some (Spec_Obj s))"
proof -
  have name: "name = ''fspec'' @ ''_'' @ to_string (uids e + 1)" using assms(2) unfolding uid_def prod.inject by simp
  have "emitted e (declare_obj (Arg_Decl name body) e2) (\<lambda>env. read_spec env body = Some s \<and> env name = Some (Spec_Obj s))"
    unfolding name by (rule emitted_reserved [OF _ assms(1)]) (simp_all only: read_arg_decl read_spec_mono)
  then show ?thesis by (rule emitted_conseq) blast
qed

text \<open>The body of a specification, with what it declares, is read as the document has it.\<close>

lemma arg_spec_body_emitted:
  "arg_spec_body hash a e = (b, e') \<Longrightarrow> doc_spec hash a = Some s \<Longrightarrow> emitted e e' (\<lambda>env. read_spec env b = Some s)"
  "emit_fields hash fs e = (inits, e') \<Longrightarrow> doc_fields hash fs = Some xs \<Longrightarrow>
   emitted e e' (\<lambda>env. omap (read_field env) inits = Some xs)"
proof (induction hash a e and hash fs e arbitrary: b e' s and inits e' xs rule: arg_spec_body_emit_fields.induct)
  case (1 hash a e)
  let ?kind = "jget a ''kind'' (JString ''scalar'')"
  note b = arg_spec_body.simps [of hash a e] and d = doc_spec.simps [of hash a]
  consider "?kind \<noteq> JString ''handle''" "?kind \<noteq> JString ''ptr''" | "?kind = JString ''handle''"
    | "?kind = JString ''ptr''" "jlist (jmember a ''pointee'') = []"
    | p ps where "?kind = JString ''ptr''" "jlist (jmember a ''pointee'') = p # ps"
    by (cases "jlist (jmember a ''pointee'')") auto
  then show ?case
  proof cases
    case 1
    then have "b = scalar_body" "e' = e" "s = scalar_spec" using "1.prems" b d by (auto simp: Let_def split: if_splits)
    then show ?thesis by (auto intro: emitted_refl simp: read_spec_scalar)
  next
    case 2
    with "1.prems" b d show ?thesis by (auto intro!: emitted_refl simp: Let_def read_spec_handle)
  next
    case 3
    with "1.prems" b d show ?thesis by (auto intro!: emitted_refl simp: Let_def read_spec_ptr)
  next
    case (4 p ps)
    note kinds = 4
    consider (arr) "jget a ''size_kind'' (JString ''const'') = JString ''ptr_array''"
      | (struct) "jget a ''size_kind'' (JString ''const'') \<noteq> JString ''ptr_array''" "jmember p ''kind'' = Some (JString ''struct'')"
      | (into) "jget a ''size_kind'' (JString ''const'') \<noteq> JString ''ptr_array''" "jmember p ''kind'' = Some (JString ''ptr_into_arg'')"
      | (flat) "jget a ''size_kind'' (JString ''const'') \<noteq> JString ''ptr_array''" "jmember p ''kind'' \<noteq> Some (JString ''struct'')"
          "jmember p ''kind'' \<noteq> Some (JString ''ptr_into_arg'')"
      by blast
    then show ?thesis
    proof cases
      case arr
      obtain body e1 name e2 where u: "arg_spec_body hash p e = (body, e1)" "uid ''elem'' e1 = (name, e2)"
        by (metis surj_pair)
      obtain s' where s': "doc_spec hash p = Some s'" "ptr_spec a None (Some s') 0 = Some s"
        using "1.prems"(2) d kinds arr by (auto simp: Let_def split: option.splits)
      have res: "b = ptr_parts a @ [(''element'', Addr name)]" "e' = declare_obj (Arg_Decl name body) e2"
        using "1.prems"(1) b kinds arr u by (auto simp: Let_def)
      have "emitted e e1 (\<lambda>env. read_spec env body = Some s')"
        by (rule "1.IH"(1)) (use kinds arr u s' in simp_all)
      from emitted_element [OF this u(2)] show ?thesis unfolding res
        by (rule emitted_conseq) (simp add: read_spec_element s'(2))
    next
      case struct
      obtain inits e1 fname e2 lname e3 where u: "emit_fields hash (jlist (jmember p ''fields'')) e = (inits, e1)"
          "uid ''fields'' e1 = (fname, e2)" "uid ''layout'' (declare_obj (Fields_Decl fname inits) e2) = (lname, e3)"
        by (metis surj_pair)
      obtain xs c where s': "doc_fields hash (jlist (jmember p ''fields'')) = Some xs"
          "read_num 32 (Some (Val (jget p ''size'' (JInt 0)))) = Some c" "ptr_spec a (Some (Layout LO_STRUCT xs 0 c)) None 0 = Some s"
        using "1.prems"(2) d kinds struct by (auto simp: Let_def split: option.splits)
      have res: "b = ptr_parts a @ [(''layout'', Addr lname)]"
          "e' = declare_obj (Layout_Decl lname (length inits) fname (jget p ''size'' (JInt 0))) e3"
        using "1.prems"(1) b kinds struct u by (auto simp: Let_def)
      have "emitted e e1 (\<lambda>env. omap (read_field env) inits = Some xs)"
        by (rule "1.IH"(2)) (use kinds struct u s' in simp_all)
      from emitted_layout [OF this s'(2) u(2,3)] show ?thesis unfolding res
        by (rule emitted_conseq) (simp add: read_spec_layout s'(3))
    next
      case into
      with "1.prems" b d kinds show ?thesis by (auto intro!: emitted_refl simp: Let_def read_spec_into)
    next
      case flat
      with "1.prems" b d kinds show ?thesis by (auto intro!: emitted_refl simp: Let_def read_spec_ptr)
    qed
  qed
next
  case (2 hash e)
  then show ?case by (auto intro: emitted_refl)
next
  case (3 hash f fs e)
  obtain name e1 body e2 rest e3 where u: "uid ''fspec'' e = (name, e1)" "arg_spec_body hash f e1 = (body, e2)"
      "emit_fields hash fs (declare_obj (Arg_Decl name body) e2) = (rest, e3)"
    by (metis surj_pair)
  obtain c s ys where s: "read_num 32 (Some (Val (jget f ''offset'' (JInt 0)))) = Some c" "doc_spec hash f = Some s"
      "doc_fields hash fs = Some ys" "xs = Field c s (truthy (jmember f ''touched'')) # ys"
    using "3.prems"(2) by (auto split: option.splits)
  let ?init = "(jget f ''offset'' (JInt 0), name, if truthy (jmember f ''touched'') then 1 else 0 :: nat)"
  have res: "inits = ?init # rest" "e' = e3" using "3.prems"(1) u by auto
  have e1: "e1 = e\<lparr> uids := uids e + 1 \<rparr>" using u(1) unfolding uid_def by simp
  have "emitted e1 e2 (\<lambda>env. read_spec env body = Some s)" using "3.IH"(1) u s by simp
  from emitted_field [OF this [unfolded e1] u(1)] have 1: "emitted e (declare_obj (Arg_Decl name body) e2) (\<lambda>env. env name = Some (Spec_Obj s))" .
  have 2: "emitted (declare_obj (Arg_Decl name body) e2) e3 (\<lambda>env. omap (read_field env) rest = Some ys)"
    using "3.IH"(2) u s by simp
  have "emitted e e3 (\<lambda>env. env name = Some (Spec_Obj s) \<and> omap (read_field env) rest = Some ys)"
    by (rule emitted_trans [OF 1 2]) (rule more_objects)
  then show ?case unfolding res s(4)
  proof (rule emitted_conseq)
    fix env assume *: "env name = Some (Spec_Obj s) \<and> omap (read_field env) rest = Some ys"
    then have "read_field env ?init = Some (Field c s (truthy (jmember f ''touched'')))" using s(1) by (simp add: read_field_def)
    with * show "omap (read_field env) (?init # rest) = Some (Field c s (truthy (jmember f ''touched'')) # ys)" by simp
  qed
qed

lemma emit_args_emitted:
  "emit_args hash as e = (bs, e') \<Longrightarrow> omap (doc_spec hash) as = Some ss \<Longrightarrow>
   length bs = length as \<and> emitted e e' (\<lambda>env. omap (read_spec env) bs = Some ss)"
proof (induction as arbitrary: e bs ss)
  case Nil
  then show ?case by (auto intro: emitted_refl)
next
  case (Cons a as)
  obtain b e1 rest where u: "arg_spec_body hash a e = (b, e1)" "emit_args hash as e1 = (rest, e')" "bs = b # rest"
    using Cons.prems(1) by (auto split: prod.splits)
  obtain s ss' where s: "doc_spec hash a = Some s" "omap (doc_spec hash) as = Some ss'" "ss = s # ss'"
    using Cons.prems(2) by (auto split: option.splits)
  note 1 = arg_spec_body_emitted(1) [OF u(1) s(1)] and 2 = Cons.IH [OF u(2) s(2)]
  have "emitted e e' (\<lambda>env. read_spec env b = Some s \<and> omap (read_spec env) rest = Some ss')"
    by (rule emitted_trans [OF 1 conjunct2 [OF 2]]) (rule read_spec_mono)
  then have "emitted e e' (\<lambda>env. omap (read_spec env) bs = Some ss)"
    unfolding u(3) s(3) by (rule emitted_conseq) simp
  with 2 show ?case by (simp add: u(3))
qed

lemma read_function_mono: "env \<subseteq>\<^sub>m env' \<Longrightarrow> read_function env so = Some m \<Longrightarrow> read_function env' so = Some m"
proof -
  assume le: "env \<subseteq>\<^sub>m env'" and m: "read_function env so = Some m"
  then obtain ss where "omap (read_spec env) (so_args so) = Some ss"
    by (auto simp: read_function_def bind_eq_Some_conv)
  moreover from this have "omap (read_spec env') (so_args so) = Some ss" using omap_mono read_spec_mono [OF le] by metis
  ultimately show ?thesis using m by (simp add: read_function_def)
qed

lemma emit_function_spec_emitted:
  assumes "emit_function_spec hash fn e = (so, e')" and "doc_function hash fn = Some m"
  shows "emitted e e' (\<lambda>env. read_function env so = Some m)"
proof -
  obtain bs where bs: "emit_args hash (jlist (jmember fn ''args'')) e = (bs, e')"
      "so = \<lparr> so_name = ''spec_'' @ jstring (jget fn ''name'' JNull), so_nargs = length (jlist (jmember fn ''args'')), so_args = bs,
         so_ret = ret_spec_body hash (jget fn ''ret'' (JObject [(''kind'', JString ''void'')])) \<rparr>"
    using assms(1) by (auto simp: emit_function_spec_def Let_def split: prod.splits)
  obtain ss where ss: "omap (doc_spec hash) (jlist (jmember fn ''args'')) = Some ss"
    using assms(2) by (auto simp: doc_function_def bind_eq_Some_conv)
  note em = emit_args_emitted [OF bs(1) ss]
  have len: "length ss = length bs" using omap_Some_length [OF ss] em by simp
  from conjunct2 [OF em] show ?thesis
  proof (rule emitted_conseq)
    fix env assume "omap (read_spec env) bs = Some ss"
    with assms(2) ss len em show "read_function env so = Some m"
      by (simp add: bs(2) read_function_def doc_function_def)
  qed
qed

text \<open>The functions of a document that are interposed.\<close>

definition interposed :: "string list \<Rightarrow> json \<Rightarrow> json list" where
  "interposed only d =
     filter (\<lambda>f. jmember f ''decision'' = Some (JString ''marshal'') \<and> is_marshalable f
       \<and> (only = [] \<or> jstring (jget f ''name'' JNull) \<in> set only)) (jlist (jmember d ''functions''))"

lemma gen_grate_interposed: "gen_grate hash only d = emit_table hash (interposed only d) \<lparr> decls = [], uids = 0 \<rparr>"
proof (cases "only = []")
  case True
  then show ?thesis by (simp add: gen_grate_def interposed_def Let_def conj_commute)
next
  case False
  then show ?thesis by (simp add: gen_grate_def interposed_def Let_def conj_commute)
qed

lemma emit_table_emitted:
  "emit_table hash fs e = (table, e') \<Longrightarrow> list_all (\<lambda>f. doc_function hash f \<noteq> None) fs \<Longrightarrow>
   emitted e e' (\<lambda>env. list_all2 (\<lambda>f (name, so). name = jstring (jget f ''name'' JNull) \<and> so_name so = ''spec_'' @ name
     \<and> read_function env so = doc_function hash f) fs table)"
proof (induction fs arbitrary: e table)
  case Nil
  then show ?case by (auto intro: emitted_refl)
next
  case (Cons f fs)
  obtain so e1 rest where u: "emit_function_spec hash f e = (so, e1)" "emit_table hash fs e1 = (rest, e')"
      "table = (jstring (jget f ''name'' JNull), so) # rest"
    using Cons.prems(1) by (auto split: prod.splits)
  obtain m where m: "doc_function hash f = Some m" using Cons.prems(2) by auto
  have name: "so_name so = ''spec_'' @ jstring (jget f ''name'' JNull)"
    using u(1) by (auto simp: emit_function_spec_def Let_def split: prod.splits)
  note 1 = emit_function_spec_emitted [OF u(1) m]
  have 2: "emitted e1 e' (\<lambda>env. list_all2 (\<lambda>f (name, so). name = jstring (jget f ''name'' JNull) \<and> so_name so = ''spec_'' @ name
     \<and> read_function env so = doc_function hash f) fs rest)"
    using Cons.IH [OF u(2)] Cons.prems(2) by simp
  have "emitted e e' (\<lambda>env. read_function env so = Some m \<and> list_all2 (\<lambda>f (name, so). name = jstring (jget f ''name'' JNull)
     \<and> so_name so = ''spec_'' @ name \<and> read_function env so = doc_function hash f) fs rest)"
    by (rule emitted_trans [OF 1 2]) (rule read_function_mono)
  then show ?case unfolding u(3) by (rule emitted_conseq) (simp add: m name)
qed


text \<open>A document with a function that takes a pointer to a record with a string.\<close>

definition name_field_doc :: json where
  "name_field_doc = JObject [(''kind'', JString ''ptr''), (''field'', JString ''name''), (''offset'', JInt 4), (''touched'', JBool True),
     (''type'', JString ''<ptr>''), (''size'', JInt 4), (''dir'', JString ''in''), (''size_kind'', JString ''cstr'')]"

definition entry_ptr :: json where
  "entry_ptr = JObject [(''kind'', JString ''ptr''), (''type'', JString ''<ptr>''), (''size'', JInt 4), (''dir'', JString ''in''),
     (''size_kind'', JString ''const''), (''const_size'', JInt 8),
     (''pointee'', JArray [JObject [(''kind'', JString ''struct''), (''type'', JString ''entry''), (''size'', JInt 8),
        (''fields'', JArray [JObject [(''kind'', JString ''scalar''), (''field'', JString ''id''), (''offset'', JInt 0)], name_field_doc])]])]"

definition entry_doc :: json where
  "entry_doc = JObject [(''functions'', JArray
     [JObject [(''name'', JString ''enter''), (''decision'', JString ''marshal''),
        (''ret'', JObject [(''kind'', JString ''scalar'')]), (''args'', JArray [entry_ptr])],
      JObject [(''name'', JString ''abort''), (''decision'', JString ''marshal''),
        (''ret'', JObject [(''kind'', JString ''scalar'')]), (''args'', JArray [])]])]"

lemma entry_run:
  "length (interposed [] entry_doc) = 1
   \<and> list_all (\<lambda>f. doc_function (\<lambda>s. int (length s)) f \<noteq> None) (interposed [] entry_doc)
   \<and> length (decls (snd (gen_grate (\<lambda>s. int (length s)) [] entry_doc))) = 4"
  by code_simp


end
