(* ===== verification/Pipeline.thy ===== *)
theory Pipeline
  imports Gen_Grate_Correct
begin

text \<open>
  From the records of the inference to the specifications the runtime reads: what the generator
  makes of a record's document.
\<close>

section \<open>Members of a document\<close>

lemma map_of_if: "map_of (if c then xs else ys) k = (if c then map_of xs k else map_of ys k)"
  by simp

lemma rev_if: "rev (if c then xs else ys) = (if c then rev xs else rev ys)"
  by simp

lemma field_doc_members:
  "map_of (rev (field_doc a)) k =
     (if fieldName a = [] then None
      else if k = ''touched'' then Some (JBool (touched a))
      else if k = ''offset'' then Some (JInt (int (offsetBytes a)))
      else if k = ''field'' then Some (JString (fieldName a)) else None)"
  by (simp add: field_doc_def)

lemma pointer_doc_members:
  "map_of (rev (pointer_doc r a)) ''dir'' = Some (JString (dirName (dir a)))"
  "map_of (rev (pointer_doc r a)) ''size_kind'' = Some (JString (sizeKindName (sizeKind a)))"
  "map_of (rev (pointer_doc r a)) ''cursor'' = (if cursor a then Some (JBool True) else None)"
  "map_of (rev (pointer_doc r a)) ''const_size'' = (if sizeKind a = SK_Const then Some (JInt (int (constSize a))) else None)"
  "map_of (rev (pointer_doc r a)) ''size_arg_index'' =
     (if sizeKind a \<in> {SK_FromArg, SK_FromArgPointee} \<and> fieldName a = [] then Some (JInt (remapArg r a (sizeArgIndex a))) else None)"
  "map_of (rev (pointer_doc r a)) ''size_field_index'' =
     (if sizeKind a \<in> {SK_FromArg, SK_FromArgPointee} \<and> fieldName a \<noteq> [] then Some (JInt (sizeArgIndex a)) else None)"
  "map_of (rev (pointer_doc r a)) ''kind'' = None" "map_of (rev (pointer_doc r a)) ''size'' = None"
  "map_of (rev (pointer_doc r a)) ''offset'' = None" "map_of (rev (pointer_doc r a)) ''touched'' = None"
  "map_of (rev (pointer_doc r a)) ''pointee'' = None" "map_of (rev (pointer_doc r a)) ''fields'' = None"
  by (simp_all add: pointer_doc_def map_add_def)

text \<open>A node that is neither a handle nor a pointer into an argument.\<close>

definition plain_node :: "tree_attrs \<Rightarrow> bool" where
  "plain_node a \<longleftrightarrow> \<not> isHandle a \<and> \<not> ptrIntoArg a"

lemma node_doc_kind:
  "jmember (node_doc r (Node a cs)) ''kind'' =
     Some (JString (if isHandle a then ''handle'' else if ptrIntoArg a then ''ptr_into_arg'' else nodeKindName (kind a)))"
  by (simp add: map_add_def field_doc_members pointer_doc_members map_of_if rev_if)

lemma node_doc_field:
  "fieldName a \<noteq> [] \<Longrightarrow> jmember (node_doc r (Node a cs)) ''offset'' =
     (if \<not> isHandle a \<and> ptrIntoArg a then None else Some (JInt (int (offsetBytes a))))"
  by (simp add: map_add_def field_doc_members pointer_doc_members map_of_if rev_if)

lemma node_doc_nofield:
  "fieldName a = [] \<Longrightarrow> jmember (node_doc r (Node a cs)) ''offset'' = None"
  by (simp add: map_add_def field_doc_members pointer_doc_members map_of_if rev_if)

lemma node_doc_size: "plain_node a \<Longrightarrow> jmember (node_doc r (Node a cs)) ''size'' = Some (JInt (int (sizeBytes a)))"
  by (simp add: plain_node_def map_add_def field_doc_members pointer_doc_members map_of_if rev_if)

lemma node_doc_pointer:
  assumes "plain_node a" and "kind a = NK_Pointer"
  shows "jlist (jmember (node_doc r (Node a cs)) ''pointee'') = map (node_doc r) cs"
    and "jmember (node_doc r (Node a cs)) ''dir'' = Some (JString (dirName (dir a)))"
    and "jmember (node_doc r (Node a cs)) ''size_kind'' = Some (JString (sizeKindName (sizeKind a)))"
    and "jmember (node_doc r (Node a cs)) ''const_size'' = (if sizeKind a = SK_Const then Some (JInt (int (constSize a))) else None)"
    and "jmember (node_doc r (Node a cs)) ''size_arg_index'' =
     (if sizeKind a \<in> {SK_FromArg, SK_FromArgPointee} \<and> fieldName a = [] then Some (JInt (remapArg r a (sizeArgIndex a))) else None)"
    and "jmember (node_doc r (Node a cs)) ''size_field_index'' =
     (if sizeKind a \<in> {SK_FromArg, SK_FromArgPointee} \<and> fieldName a \<noteq> [] then Some (JInt (sizeArgIndex a)) else None)"
  using assms
  by (simp_all add: plain_node_def map_add_def field_doc_members pointer_doc_members map_of_if rev_if recurses_def)

lemma node_doc_fields:
  assumes "plain_node a" and "kind a = NK_Struct"
  shows "jlist (jmember (node_doc r (Node a cs)) ''fields'') = map (node_doc r) cs"
  using assms by (simp add: plain_node_def map_add_def field_doc_members map_of_if rev_if recurses_def)

section \<open>Complete specifications\<close>

text \<open>Every pointer, at any depth, has a size that the runtime can determine.\<close>

fun spec_complete :: "arg_spec \<Rightarrow> bool"
  and layout_complete :: "struct_layout \<Rightarrow> bool"
  and field_complete :: "struct_field \<Rightarrow> bool" where
  "spec_complete (Arg_Spec k d z c i lo el h o1 fl) \<longleftrightarrow>
     (k = ARG_PTR \<longrightarrow> z \<noteq> SIZE_NONE)
     \<and> (case lo of None \<Rightarrow> True | Some l \<Rightarrow> layout_complete l)
     \<and> (case el of None \<Rightarrow> True | Some s \<Rightarrow> spec_complete s)"
| "layout_complete (Layout k fs d n) \<longleftrightarrow> (\<forall>f\<in>set fs. field_complete f)"
| "field_complete (Field off s t) \<longleftrightarrow> spec_complete s"

text \<open>The offsets of a tree fit the address space of the target.\<close>

fun offsets_ok :: "TreeNode \<Rightarrow> bool" where
  "offsets_ok (Node a cs) \<longleftrightarrow> int (offsetBytes a) + 4 < 2 ^ 32 \<and> (\<forall>c\<in>set cs. offsets_ok c)"

definition size_kind_of :: "SizeKind \<Rightarrow> size_kind" where
  "size_kind_of k =
     (case k of SK_Const \<Rightarrow> SIZE_CONST | SK_FromArg \<Rightarrow> SIZE_FROM_ARG | SK_FromArgPointee \<Rightarrow> SIZE_FROM_ARG_POINTEE
      | SK_Cstr \<Rightarrow> SIZE_CSTR | SK_PtrArray \<Rightarrow> SIZE_PTR_ARRAY | _ \<Rightarrow> SIZE_NONE)"

lemma size_kind_of_sized: "size_kind_of k \<noteq> SIZE_NONE \<longleftrightarrow> sized k"
  by (cases k) (simp_all add: size_kind_of_def sized_def)

lemma size_kind_read: "map_of size_kinds (SIZE_KIND (JString (sizeKindName k))) = Some (size_kind_of k)"
  by (cases k) (simp_all add: size_kinds_def SIZE_KIND_def size_kind_of_def)

lemma direction_read: "\<exists>d. map_of directions (DIR v) = Some d"
  by (simp add: directions_def DIR_def)

text \<open>Nodes that are not copied.\<close>

lemma doc_spec_flat:
  assumes "\<not> (plain_node a \<and> kind a = NK_Pointer)"
  shows "\<exists>s. doc_spec hash (node_doc r (Node a cs)) = Some s \<and> spec_ok s \<and> spec_complete s"
proof -
  have k: "jget (node_doc r (Node a cs)) ''kind'' (JString ''scalar'') =
      JString (if isHandle a then ''handle'' else if ptrIntoArg a then ''ptr_into_arg'' else nodeKindName (kind a))"
    unfolding jget_def node_doc_kind by simp
  show ?thesis
  proof (cases "isHandle a")
    case True
    then show ?thesis using k by (subst doc_spec.simps) (simp add: Let_def)
  next
    case False
    then have "nodeKindName (kind a) \<noteq> ''ptr'' \<or> ptrIntoArg a" "nodeKindName (kind a) \<noteq> ''handle''"
      using assms by (cases "kind a"; simp add: plain_node_def)+
    then show ?thesis using k False by (subst doc_spec.simps) (auto simp: Let_def scalar_spec_def)
  qed
qed

definition int_member :: "json \<Rightarrow> string \<Rightarrow> bool" where
  "int_member v k \<longleftrightarrow> (\<forall>x. jmember v k = Some x \<longrightarrow> (\<exists>i. x = JInt i))"

lemma jget_int: "int_member v k \<Longrightarrow> \<exists>i. jget v k (JInt j) = JInt i"
  by (cases "jmember v k") (auto simp: int_member_def jget_def)

lemma ptr_base_members:
  assumes "jmember v ''size_kind'' = Some (JString (sizeKindName k))"
    and "int_member v ''const_size''" and "int_member v ''size_arg_index''" and "int_member v ''size_field_index''"
  shows "\<exists>d c i. ptr_base v = Some (ARG_PTR, d, size_kind_of k, c, i)"
proof -
  have sk: "jget v ''size_kind'' (JString ''const'') = JString (sizeKindName k)" using assms(1) by (simp add: jget_def)
  obtain c0 where c0: "jget v ''const_size'' (JInt 0) = JInt c0" using jget_int [OF assms(2)] by blast
  obtain i1 where i1: "jget v ''size_field_index'' (JInt 0) = JInt i1" using jget_int [OF assms(4)] by blast
  obtain i0 where i0: "jget v ''size_arg_index'' (jget v ''size_field_index'' (JInt 0)) = JInt i0"
    using jget_int [OF assms(3)] i1 by metis
  obtain d where d: "map_of directions (DIR (jget v ''dir'' (JString ''in''))) = Some d" using direction_read by blast
  have parts: "map_of (ptr_parts v) ''kind'' = Some (Enum ''LIND_ARG_PTR'')"
      "map_of (ptr_parts v) ''ptr_direction'' = Some (Enum (DIR (jget v ''dir'' (JString ''in''))))"
      "map_of (ptr_parts v) ''size_kind'' = Some (Enum (SIZE_KIND (JString (sizeKindName k))))"
    using sk by (simp_all add: ptr_parts_def Let_def)
  have c: "\<exists>c. read_num 64 (map_of (ptr_parts v) ''const_size'') = Some c"
    by (simp add: ptr_parts_def Let_def sk c0)
  have i: "\<exists>i. read_num 32 (map_of (ptr_parts v) ''size_arg_index'') = Some i"
    by (simp add: ptr_parts_def Let_def sk i0)
  have "map_of arg_kinds ''LIND_ARG_PTR'' = Some ARG_PTR" by (simp add: arg_kinds_def)
  then show ?thesis unfolding ptr_base_def parts read_enum_def using c i d size_kind_read by fastforce
qed

lemma ptr_spec_node:
  assumes "plain_node a" and "kind a = NK_Pointer"
  obtains d c i where "\<And>lo el o1. ptr_spec (node_doc r (Node a cs)) lo el o1
    = Some (Arg_Spec ARG_PTR d (size_kind_of (sizeKind a)) c i lo el 0 o1 0)"
proof -
  note m = node_doc_pointer [OF assms, of r cs]
  have ints: "int_member (node_doc r (Node a cs)) ''const_size''" "int_member (node_doc r (Node a cs)) ''size_arg_index''"
      "int_member (node_doc r (Node a cs)) ''size_field_index''"
    unfolding int_member_def m by simp_all
  show thesis using ptr_base_members [OF m(3) ints] that unfolding ptr_spec_base by auto
qed

lemma node_doc_offset:
  "\<exists>k. read_num 32 (Some (Val (jget (node_doc r (Node a cs)) ''offset'' (JInt 0)))) = Some k
     \<and> (offsetBytes a + 4 < 2 ^ 32 \<longrightarrow> k + 4 < 2 ^ 32)"
proof (cases "fieldName a = [] \<or> \<not> isHandle a \<and> ptrIntoArg a")
  case True
  then have "jmember (node_doc r (Node a cs)) ''offset'' = None" using node_doc_field node_doc_nofield by metis
  then show ?thesis by (simp add: jget_def)
next
  case False
  then have m: "jmember (node_doc r (Node a cs)) ''offset'' = Some (JInt (int (offsetBytes a)))"
    using node_doc_field [of a r cs] by auto
  have "int (offsetBytes a) mod 2 ^ 32 = int (offsetBytes a)" if "offsetBytes a + 4 < 2 ^ 32"
    using that by simp
  then show ?thesis unfolding jget_def m by simp
qed

lemma doc_fields_nodes:
  assumes "\<And>n. n \<in> set ns \<Longrightarrow> \<exists>s. doc_spec hash (node_doc r n) = Some s \<and> (\<not> treeHasUnmappable n \<longrightarrow> spec_complete s)"
  shows "\<exists>fs. doc_fields hash (map (node_doc r) ns) = Some fs
    \<and> ((\<forall>n\<in>set ns. offsets_ok n) \<longrightarrow> list_all (\<lambda>f. fld_offset f + 4 < 2 ^ 32) fs)
    \<and> (\<not> list_ex treeHasUnmappable ns \<longrightarrow> list_all field_complete fs)"
  using assms
proof (induction ns)
  case (Cons n ns)
  obtain a cs where n: "n = Node a cs" by (cases n)
  obtain s where s: "doc_spec hash (node_doc r n) = Some s" "\<not> treeHasUnmappable n \<longrightarrow> spec_complete s"
    using Cons.prems [of n] by auto
  obtain k where k: "read_num 32 (Some (Val (jget (node_doc r n) ''offset'' (JInt 0)))) = Some k"
      "offsetBytes a + 4 < 2 ^ 32 \<longrightarrow> k + 4 < 2 ^ 32"
    using node_doc_offset unfolding n by blast
  obtain fs where fs: "doc_fields hash (map (node_doc r) ns) = Some fs"
      "(\<forall>n\<in>set ns. offsets_ok n) \<longrightarrow> list_all (\<lambda>f. fld_offset f + 4 < 2 ^ 32) fs"
      "\<not> list_ex treeHasUnmappable ns \<longrightarrow> list_all field_complete fs"
    using Cons.IH Cons.prems by auto
  let ?f = "Field k s (truthy (jmember (node_doc r n) ''touched''))"
  have "doc_fields hash (map (node_doc r) (n # ns)) = Some (?f # fs)"
    unfolding list.map doc_fields.simps k s fs by simp
  moreover have "offsets_ok n \<longrightarrow> fld_offset ?f + 4 < 2 ^ 32" using k(2) by (simp add: n)
  moreover have "\<not> treeHasUnmappable n \<longrightarrow> field_complete ?f" using s(2) by simp
  ultimately show ?case using fs(2,3) by (intro exI [of _ "?f # fs"]) simp
qed simp

lemma doc_spec_pointee:
  assumes t: "plain_node a" "kind a = NK_Pointer"
    and ih: "\<And>n. n \<in> set (m # children m) \<Longrightarrow> \<exists>s. doc_spec hash (node_doc r n) = Some s \<and> (offsets_ok n \<longrightarrow> spec_ok s)
      \<and> (\<not> treeHasUnmappable n \<longrightarrow> spec_complete s)"
  shows "\<exists>s. doc_spec hash (node_doc r (Node a (m # ms))) = Some s \<and> (offsets_ok m \<longrightarrow> spec_ok s)
     \<and> (sized (sizeKind a) \<and> \<not> treeHasUnmappable m \<longrightarrow> spec_complete s)"
proof -
  let ?v = "node_doc r (Node a (m # ms))"
  obtain d c i where ps: "\<And>lo el o1. ptr_spec ?v lo el o1 = Some (Arg_Spec ARG_PTR d (size_kind_of (sizeKind a)) c i lo el 0 o1 0)"
    using ptr_spec_node [OF t, of r "m # ms"] by blast
  have hd: "jget ?v ''kind'' (JString ''scalar'') = JString ''ptr''"
      "jget ?v ''size_kind'' (JString ''const'') = JString (sizeKindName (sizeKind a))"
    unfolding jget_def node_doc_kind node_doc_pointer(3) [OF t] using t by (simp_all add: plain_node_def)
  note ds = doc_spec.simps [of hash ?v, unfolded Let_def hd node_doc_pointer(1) [OF t] list.map list.case]
  obtain b bs where m: "m = Node b bs" by (cases m)
  have k: "jmember (node_doc r m) ''kind'' = Some (JString ''struct'') \<longleftrightarrow> plain_node b \<and> kind b = NK_Struct"
    unfolding m node_doc_kind by (cases "kind b") (simp_all add: plain_node_def)
  consider (array) "sizeKindName (sizeKind a) = ''ptr_array''"
    | (struct) "sizeKindName (sizeKind a) \<noteq> ''ptr_array''" "plain_node b" "kind b = NK_Struct"
    | (other) "sizeKindName (sizeKind a) \<noteq> ''ptr_array''" "jmember (node_doc r m) ''kind'' \<noteq> Some (JString ''struct'')"
    using k by blast
  then show ?thesis
  proof cases
    case array
    obtain s where s: "doc_spec hash (node_doc r m) = Some s" "offsets_ok m \<longrightarrow> spec_ok s" "\<not> treeHasUnmappable m \<longrightarrow> spec_complete s"
      using ih [of m] by auto
    then show ?thesis unfolding ds using array ps size_kind_of_sized by simp
  next
    case struct
    have k': "jmember (node_doc r m) ''kind'' = Some (JString ''struct'')" using k struct by simp
    have "\<exists>s. doc_spec hash (node_doc r n) = Some s \<and> (\<not> treeHasUnmappable n \<longrightarrow> spec_complete s)" if "n \<in> set bs" for n
      using ih [of n] that by (auto simp: m)
    then obtain fs where fs: "doc_fields hash (map (node_doc r) bs) = Some fs"
        "(\<forall>n\<in>set bs. offsets_ok n) \<longrightarrow> list_all (\<lambda>f. fld_offset f + 4 < 2 ^ 32) fs"
        "\<not> list_ex treeHasUnmappable bs \<longrightarrow> list_all field_complete fs"
      using doc_fields_nodes [of bs hash r] by blast
    have fm: "jlist (jmember (node_doc r m) ''fields'') = map (node_doc r) bs" unfolding m by (rule node_doc_fields [OF struct(2,3)])
    have z: "jget (node_doc r m) ''size'' (JInt 0) = JInt (int (sizeBytes b))"
      unfolding m jget_def node_doc_size [OF struct(2)] by simp
    have "offsets_ok m \<longrightarrow> (\<forall>n\<in>set bs. offsets_ok n)" "\<not> treeHasUnmappable m \<longrightarrow> \<not> list_ex treeHasUnmappable bs"
      using struct by (auto simp: m plain_node_def)
    then show ?thesis unfolding ds k' fm fs z using struct(1) fs(2,3) ps size_kind_of_sized by (simp add: list_all_iff)
  next
    case other
    then show ?thesis unfolding ds using ps size_kind_of_sized by simp
  qed
qed

lemma child_size: "m \<in> set cs \<Longrightarrow> size m < size (Node a cs)"
  using size_list_estimation' [of m cs "size m" size] by simp

lemma doc_spec_node:
  "\<exists>s. doc_spec hash (node_doc r n) = Some s \<and> (offsets_ok n \<longrightarrow> spec_ok s)
     \<and> (\<not> treeHasUnmappable n \<longrightarrow> spec_complete s)"
proof (induction n rule: measure_induct_rule [of size])
  case (less n)
  obtain a cs where n: "n = Node a cs" by (cases n)
  have sub: "size m < size n" if "m \<in> set cs" for m
    unfolding n using that by (rule child_size)
  show ?case
  proof (cases "plain_node a \<and> kind a = NK_Pointer")
    case False
    then show ?thesis unfolding n using doc_spec_flat by blast
  next
    case True
    then have t: "plain_node a" "kind a = NK_Pointer" by simp_all
    have un: "\<not> treeHasUnmappable n \<longrightarrow> sized (sizeKind a) \<and> \<not> list_ex treeHasUnmappable cs"
      using t by (simp add: n plain_node_def)
    show ?thesis
    proof (cases cs)
      case Nil
      obtain d c i where "\<And>lo el o1. ptr_spec (node_doc r n) lo el o1 = Some (Arg_Spec ARG_PTR d (size_kind_of (sizeKind a)) c i lo el 0 o1 0)"
        using ptr_spec_node [OF t, of r cs] unfolding n by blast
      moreover have "jget (node_doc r n) ''kind'' (JString ''scalar'') = JString ''ptr''"
        unfolding jget_def n node_doc_kind using t by (simp add: plain_node_def)
      moreover have "jlist (jmember (node_doc r n) ''pointee'') = []" unfolding n node_doc_pointer(1) [OF t] Nil by simp
      ultimately have "doc_spec hash (node_doc r n) = Some (Arg_Spec ARG_PTR d (size_kind_of (sizeKind a)) c i None None 0 0 0)"
        by (subst doc_spec.simps) (simp only: Let_def json.inject, simp)
      then show ?thesis using un size_kind_of_sized by auto
    next
      case (Cons m ms)
      have "size x < size n" if "x \<in> set (m # children m)" for x
      proof (cases "x = m")
        case True
        then show ?thesis using sub [of m] Cons by simp
      next
        case False
        then have "size x < size m" using that child_size [of x "children m" "attrs m"] by (metis TreeNode.collapse set_ConsD)
        also have "size m < size n" using sub [of m] Cons by simp
        finally show ?thesis .
      qed
      then have "\<exists>s. doc_spec hash (node_doc r (Node a (m # ms))) = Some s \<and> (offsets_ok m \<longrightarrow> spec_ok s)
          \<and> (sized (sizeKind a) \<and> \<not> treeHasUnmappable m \<longrightarrow> spec_complete s)"
        by (rule doc_spec_pointee [OF t less.IH])
      then obtain s where s: "doc_spec hash (node_doc r n) = Some s" "offsets_ok m \<longrightarrow> spec_ok s"
          "sized (sizeKind a) \<and> \<not> treeHasUnmappable m \<longrightarrow> spec_complete s"
        unfolding n Cons by blast
      have "offsets_ok n \<longrightarrow> offsets_ok m" by (simp add: n Cons)
      moreover have "\<not> treeHasUnmappable n \<longrightarrow> sized (sizeKind a) \<and> \<not> treeHasUnmappable m" using un by (simp add: Cons)
      ultimately show ?thesis using s by (intro exI [of _ s]) simp
    qed
  qed
qed

section \<open>Records\<close>

lemma inferFunction_sret_node:
  assumes "inferFunction ann F ft = Some ft'" and "list_all tree_fresh (params ft)" and "retSretArg ft = None"
    and "retSretArg ft' = Some n"
  obtains z where "n = sret_node z"
proof -
  from assms(1) obtain ft1 ft2 ft3 c where
    1: "inferVariadic F (sret_offset F) ft = Some ft1" and
    2: "inferParams ann F (sret_offset F) [0..<length (params ft1)] (ft1, -1) = Some (ft2, c)" and
    3: "inferReturn ann F (sret_offset F) c (unmappableNet ft2) = Some ft3" and
    4: "ft' = enforceRawArgSlotCap ft3" by (rule inferFunction_stages)
  have v: "list_all copy_ok (params ft1)" "retSretArg ft1 = None"
    using inferVariadic_ok [OF 1 assms(2)] assms(3) by simp_all
  have "param_frame ft2 = param_frame ft1" using inferParams_ok [OF 2 _ v(1)] by (simp add: refines_def)
  then have "retSretArg (param_frame ft2) = retSretArg (param_frame ft1)" by simp
  then have "retSretArg ft2 = None" using v(2) by (simp add: param_frame_def)
  then have "retSretArg (lowerAbiReturn F (sret_offset F = 1) (unmappableNet ft2)) = Some n"
    using inferReturn_ok [OF 3] 4 assms(4) by (auto simp: slotCap_ok unmappableNet_ok(2) split: if_split_asm)
  then show thesis by (intro that) (auto simp: lowerAbiReturn_def push_warning_def Let_def)
qed

lemma omap_all:
  "(\<And>x. x \<in> set xs \<Longrightarrow> \<exists>y. f x = Some y \<and> P y) \<Longrightarrow> \<exists>ys. omap f xs = Some ys \<and> list_all P ys"
proof (induction xs)
  case (Cons x xs)
  then obtain y ys where "f x = Some y" "P y" "omap f xs = Some ys" "list_all P ys" by force
  then show ?case by simp
qed simp

lemma sret_node_ok: "offsets_ok (sret_node z)" "\<not> treeHasUnmappable (sret_node z)"
  by (simp_all add: sret_node_def default_attrs_def sized_def)

lemma slot_doc_spec: "doc_spec hash (slot_doc i n) = Some scalar_spec"
proof -
  have "jget (slot_doc i n) ''kind'' (JString ''scalar'') = JString ''scalar''" by (simp add: slot_doc_def jget_def)
  then show ?thesis by (subst doc_spec.simps) (simp add: Let_def)
qed

text \<open>A record as the inference leaves it: nothing unmappable, and a hidden result that is a pointer to
  a result of constant size.\<close>

definition record_ok :: "FunctionTrees \<Rightarrow> bool" where
  "record_ok ft \<longleftrightarrow> \<not> list_ex treeHasUnmappable (params ft)
     \<and> (\<forall>n. retSretArg ft = Some n \<longrightarrow> (\<exists>z. n = sret_node z)) \<and> raw_slots ft \<le> kMaxRawArgSlots"

lemma buildRecord_record_ok:
  assumes "buildRecord ann name f = Some (Some ft)" and "\<not> forceLocal ft"
  shows "record_ok ft"
proof -
  obtain ft0 where 0: "inferFunction ann (fn_ir f) ft0 = Some ft" "list_all tree_fresh (params ft0)" "retSretArg ft0 = None"
    using buildRecord_ok [OF assms(1)] by metis
  have "\<exists>z. n = sret_node z" if "retSretArg ft = Some n" for n
    using inferFunction_sret_node [OF 0 that] by blast
  with inferFunction_verdict [OF 0(1) assms(2)] show ?thesis by (simp add: record_ok_def)
qed

abbreviation safe_spec :: "arg_spec \<Rightarrow> bool" where
  "safe_spec s \<equiv> spec_ok s \<and> spec_complete s"

lemma arg_docs_specs:
  assumes "record_ok ft" and "list_all offsets_ok (params ft)"
  shows "\<exists>as. omap (doc_spec hash) (arg_docs ft) = Some as \<and> list_all safe_spec as"
proof (rule omap_all)
  have node: "\<exists>s. doc_spec hash (node_doc r n) = Some s \<and> safe_spec s" if "offsets_ok n" "\<not> treeHasUnmappable n" for r n
    using doc_spec_node [of hash r n] that by blast
  have params: "offsets_ok p" "\<not> treeHasUnmappable p" if "p \<in> set (params ft)" for p
    using assms that by (auto simp: record_ok_def list_all_iff list_ex_iff)
  fix v assume "v \<in> set (arg_docs ft)"
  then consider (sret) n where "retSretArg ft = Some n" "v = node_doc (Some (arg_remap ft)) n"
    | (param) p where "p \<in> set (params ft)" "v \<in> set (param_docs (arg_remap ft) p)"
    by (cases "retSretArg ft") (auto simp: arg_docs_def)
  then show "\<exists>s. doc_spec hash v = Some s \<and> safe_spec s"
  proof cases
    case sret
    then obtain z where "n = sret_node z" using assms(1) by (auto simp: record_ok_def)
    then show ?thesis unfolding sret using node sret_node_ok by blast
  next
    case param
    then consider "v = node_doc (Some (arg_remap ft)) p" | i where "v = slot_doc i p"
      by (auto simp: param_docs_def split: if_split_asm)
    then show ?thesis
    proof cases
      case 1
      then show ?thesis using node params [OF param(1)] by blast
    next
      case 2
      then show ?thesis using slot_doc_spec by (simp add: scalar_spec_def)
    qed
  qed
qed

lemma ret_doc_reads: "\<exists>r. read_return (ret_spec_body hash (JObject (ret_doc ft))) = Some r"
proof -
  let ?rt = "JObject (ret_doc ft)"
  have i: "\<exists>i. read_num 32 (Some (Val (jget ?rt ''alias_arg'' (JInt 0)))) = Some i"
    by (cases "retKind ft") (simp_all add: jget_def ret_doc_def split: list.split)
  have e: "\<exists>r. map_of return_kinds (RET_KIND v) = Some r" for v
    by (simp add: return_kinds_def RET_KIND_def)
  have h: "\<exists>h. read_num 32 (Some (handle_class_id hash v)) = Some h" for v by (simp add: handle_class_id_def)
  let ?b = "ret_spec_body hash ?rt"
  have "\<exists>r. read_enum return_kinds RET_VOID (map_of ?b ''kind'') = Some r"
    using e by (simp add: ret_spec_body_def Let_def read_enum_def)
  moreover have "\<exists>x. read_num 32 (map_of ?b ''alias_arg_index'') = Some x" using i by (simp add: ret_spec_body_def Let_def)
  moreover have "\<exists>x. read_num 32 (map_of ?b ''handle_class'') = Some x" using h by (simp add: ret_spec_body_def Let_def)
  moreover have "\<exists>x. read_num 32 (map_of ?b ''flags'') = Some x" by (simp add: ret_spec_body_def Let_def)
  ultimately show ?thesis unfolding read_return_def by fastforce
qed

lemma function_doc_members:
  assumes "\<not> forceLocal ft"
  shows "jmember (function_doc ft) ''args'' = Some (JArray (arg_docs ft))"
    and "jmember (function_doc ft) ''ret'' = Some (JObject (ret_doc ft))"
    and "jmember (function_doc ft) ''name'' = Some (JString (funcName ft))"
  using assms by (simp_all add: function_doc_def map_add_def)

lemma function_doc_decision:
  "jmember (function_doc ft) ''decision'' = Some (JString ''marshal'') \<longleftrightarrow> \<not> forceLocal ft"
  by (simp add: function_doc_def map_add_def)

lemma doc_function_record:
  assumes "\<not> forceLocal ft" and "record_ok ft" and "list_all offsets_ok (params ft)"
  obtains spec where "doc_function hash (function_doc ft) = Some spec" "list_all safe_spec (ms_args spec)"
    "length (ms_args spec) = raw_slots ft"
proof -
  note m = function_doc_members [OF assms(1)]
  obtain as where as: "omap (doc_spec hash) (arg_docs ft) = Some as" "list_all safe_spec as"
    using arg_docs_specs [OF assms(2,3)] by blast
  obtain r where r: "read_return (ret_spec_body hash (JObject (ret_doc ft))) = Some r" using ret_doc_reads by blast
  have n: "length as = raw_slots ft" using omap_Some_length [OF as(1)] length_arg_docs by simp
  moreover have "raw_slots ft \<le> 6" using assms(2) by (simp add: record_ok_def kMaxRawArgSlots_def)
  ultimately have "doc_function hash (function_doc ft) = Some \<lparr> ms_args = as, ms_ret = r \<rparr>"
    unfolding doc_function_def jget_def m by (simp add: as r)
  then show thesis using that n as(2) by simp
qed

section \<open>The document of a run\<close>

text \<open>What \<^verbatim>\<open>jsonDocument\<close> writes and \<^verbatim>\<open>json.load\<close> reads.\<close>

definition records_doc :: "string \<Rightarrow> FunctionTrees list \<Rightarrow> json" where
  "records_doc label records =
     JObject [(''module'', JString label), (''function_count'', JInt (int (length records))),
       (''functions'', JArray (map function_doc records))]"

lemma function_doc_name: "jstring (jget (function_doc ft) ''name'' JNull) = funcName ft"
  by (simp add: function_doc_def jget_def map_add_def)

text \<open>The records whose functions a grate interposes.\<close>

definition interposed_of :: "string list \<Rightarrow> FunctionTrees list \<Rightarrow> FunctionTrees list" where
  "interposed_of only records =
     filter (\<lambda>ft. \<not> forceLocal ft \<and> is_marshalable (function_doc ft) \<and> (only = [] \<or> funcName ft \<in> set only)) records"

lemma interposed_records:
  "interposed only (records_doc label records) = map function_doc (interposed_of only records)"
  by (simp add: interposed_of_def interposed_def records_doc_def filter_map o_def function_doc_decision function_doc_name)

lemma is_marshalable_name:
  assumes "is_marshalable (function_doc ft)"
  shows "funcName ft \<notin> set NEVER_INTERPOSE \<union> set FD_FUNCS"
proof -
  have "jstring (jget (function_doc ft) ''name'' (JString [])) = funcName ft"
    by (simp add: function_doc_def jget_def map_add_def)
  with assms show ?thesis by (auto simp: is_marshalable_def Let_def split: if_split_asm)
qed

text \<open>What the runtime guarantees when it prepares a call along a specification, whatever the caller
  passes and whatever the grate's arena holds.\<close>

definition prepares_safely :: "arg_spec list \<Rightarrow> bool" where
  "prepares_safely specs \<longleftrightarrow>
     (\<forall>m raw (s :: mstate). arena_fits m \<longrightarrow> arena_used s \<le> ARENA_SIZE \<longrightarrow>
        (case pre_args m raw 0 specs s of
           Trap r t \<Rightarrow> src_mem t = src_mem s \<and> handle_table t = handle_table s
         | Ret (vs, shs) t \<Rightarrow> src_mem t = src_mem s \<and> handle_table t = handle_table s \<and> length vs = length specs
             \<and> (\<forall>j < length specs. delivered m s (specs ! j) (raw ! j) (vs ! j))))"

lemma safe_specs_prepare:
  assumes "list_all spec_ok specs"
  shows "prepares_safely specs"
  unfolding prepares_safely_def
proof (intro allI impI)
  fix m raw and s :: mstate assume fits: "arena_fits m" and used: "arena_used s \<le> ARENA_SIZE"
  note keeps = pre_args_keeps [OF fits assms used, of raw 0]
  show "case pre_args m raw 0 specs s of
      Trap r t \<Rightarrow> src_mem t = src_mem s \<and> handle_table t = handle_table s
    | Ret (vs, shs) t \<Rightarrow> src_mem t = src_mem s \<and> handle_table t = handle_table s \<and> length vs = length specs
        \<and> (\<forall>j < length specs. delivered m s (specs ! j) (raw ! j) (vs ! j))"
  proof (cases "pre_args m raw 0 specs s")
    case (Trap r t)
    with keeps_Trap [OF keeps] show ?thesis by (simp add: frame_def)
  next
    case (Ret x t)
    obtain vs shs where x: "x = (vs, shs)" by fastforce
    from keeps_Ret [OF keeps Ret] have "src_mem t = src_mem s" "handle_table t = handle_table s" by (simp_all add: frame_def)
    with Ret x pre_args_delivered [OF fits assms used, of raw 0 vs shs t] show ?thesis by simp
  qed
qed

text \<open>What holds of the specification generated for a record.\<close>

definition safe_interposition :: "FunctionTrees \<Rightarrow> marshal_spec \<Rightarrow> bool" where
  "safe_interposition ft spec \<longleftrightarrow>
     length (ms_args spec) = raw_slots ft \<and> raw_slots ft \<le> RAW_ARGS_MAX
     \<and> list_all spec_complete (ms_args spec) \<and> prepares_safely (ms_args spec)"

lemma record_interposition:
  assumes "\<not> forceLocal ft" and "record_ok ft" and "list_all offsets_ok (params ft)"
  obtains spec where "doc_function hash (function_doc ft) = Some spec" "safe_interposition ft spec"
proof -
  obtain spec where spec: "doc_function hash (function_doc ft) = Some spec" "list_all safe_spec (ms_args spec)"
      "length (ms_args spec) = raw_slots ft"
    using doc_function_record [OF assms] by blast
  have "safe_interposition ft spec"
    using spec assms(2) safe_specs_prepare [of "ms_args spec"]
    by (simp add: safe_interposition_def record_ok_def kMaxRawArgSlots_def RAW_ARGS_MAX_def list_all_iff)
  with spec(1) show thesis by (rule that)
qed

lemma collect_records:
  assumes "collect ann showAll exports mods = Some (records, names)"
  shows "distinct (map funcName records)"
    and "ft \<in> set records \<Longrightarrow> exported exports (funcName ft)"
    and "ft \<in> set records \<Longrightarrow> \<not> forceLocal ft \<Longrightarrow> record_ok ft"
proof -
  have ok: "map funcName records = rev names" "distinct names" "list_all (exported exports) names"
    "\<forall>ft\<in>set records. \<exists>f. buildRecord ann (funcName ft) f = Some (Some ft)"
    using collect_ok [OF assms] by (auto simp: collected_ok_def)
  show "distinct (map funcName records)" using ok(1,2) by simp
  assume ft: "ft \<in> set records"
  have "funcName ft \<in> set (map funcName records)" using ft by simp
  then show "exported exports (funcName ft)" using ok(3) unfolding ok(1) by (simp add: list_all_iff)
  obtain f where "buildRecord ann (funcName ft) f = Some (Some ft)" using ok(4) ft by blast
  then show "record_ok ft" if "\<not> forceLocal ft" using that by (rule buildRecord_record_ok)
qed

lemma table_names: "list_all2 (\<lambda>ft (name, so). name = funcName ft \<and> P ft so) fts table \<Longrightarrow> map fst table = map funcName fts"
  by (induction rule: list_all2_induct) auto

lemma table_entry: "list_all2 (\<lambda>x (name, so). Q x name so) xs table \<Longrightarrow> (name, so) \<in> set table \<Longrightarrow> \<exists>x\<in>set xs. Q x name so"
  by (induction rule: list_all2_induct) auto

lemma gen_grate_records:
  assumes "gen_grate hash only (records_doc label records) = (table, e)"
    and "\<And>ft. ft \<in> set (interposed_of only records) \<Longrightarrow> doc_function hash (function_doc ft) \<noteq> None"
  obtains env where "read_decls Map.empty (decls e) = Some env"
    "list_all2 (\<lambda>ft (name, so). name = funcName ft \<and> read_function env so = doc_function hash (function_doc ft))
       (interposed_of only records) table"
proof -
  have emit: "emit_table hash (map function_doc (interposed_of only records)) \<lparr> decls = [], uids = 0 \<rparr> = (table, e)"
    using assms(1) unfolding gen_grate_interposed interposed_records .
  have "list_all (\<lambda>f. doc_function hash f \<noteq> None) (map function_doc (interposed_of only records))"
    using assms(2) by (auto simp: list_all_iff)
  moreover have "fresh_above 0 (Map.empty :: c_env)" by (simp add: fresh_above_def)
  ultimately obtain env where env: "read_decls Map.empty (decls e) = Some env"
    "list_all2 (\<lambda>f (name, so). name = jstring (jget f ''name'' JNull) \<and> so_name so = ''spec_'' @ name
      \<and> read_function env so = doc_function hash f) (map function_doc (interposed_of only records)) table"
    using emit_table_emitted [OF emit] unfolding emitted_def by auto
  have "list_all2 (\<lambda>ft (name, so). name = funcName ft \<and> read_function env so = doc_function hash (function_doc ft))
       (interposed_of only records) table"
    using env(2) [unfolded list_all2_map1] by (rule list_all2_mono) (auto simp: function_doc_name)
  with env(1) show thesis by (rule that)
qed

end
