(* ===== verification/Sort_Spec.thy ===== *)
theory Sort_Spec
  imports Lind_Prelude "HOL-Library.Multiset"
begin

text \<open>
  What the sorting routines of the C library promise, on lists: the contract of a three-way
  comparison, sortedness and stability under it, and the reference algorithms the routines are
  shown to implement, a merge sort that splits in the middle and a heap sort on an array.
\<close>

section \<open>Comparisons\<close>

text \<open>The contract the C standard puts on the comparison function of \<^verbatim>\<open>qsort\<close>.\<close>

definition comparison :: "('a \<Rightarrow> 'a \<Rightarrow> int) \<Rightarrow> bool" where
  "comparison c \<longleftrightarrow>
     (\<forall>x y. c x y < 0 \<longleftrightarrow> 0 < c y x) \<and> (\<forall>x y z. c x y \<le> 0 \<longrightarrow> c y z \<le> 0 \<longrightarrow> c x z \<le> 0)"

definition sorted_by :: "('a \<Rightarrow> 'a \<Rightarrow> int) \<Rightarrow> 'a list \<Rightarrow> bool" where
  "sorted_by c = sorted_wrt (\<lambda>x y. c x y \<le> 0)"

text \<open>Elements that compare equal keep their order.\<close>

definition stable_by :: "('a \<Rightarrow> 'a \<Rightarrow> int) \<Rightarrow> 'a list \<Rightarrow> 'a list \<Rightarrow> bool" where
  "stable_by c xs ys \<longleftrightarrow> (\<forall>z. filter (\<lambda>y. c z y = 0) ys = filter (\<lambda>y. c z y = 0) xs)"

lemma comparison_trans: "comparison c \<Longrightarrow> c x y \<le> 0 \<Longrightarrow> c y z \<le> 0 \<Longrightarrow> c x z \<le> 0"
  unfolding comparison_def by blast

lemma comparison_swap: "comparison c \<Longrightarrow> c x y \<ge> 0 \<Longrightarrow> c y x \<le> 0"
  unfolding comparison_def by (meson not_le)

lemma comparison_less: "comparison c \<Longrightarrow> c x y < 0 \<Longrightarrow> 0 < c y x"
  unfolding comparison_def by blast

lemma comparison_refl: "comparison c \<Longrightarrow> c x x = 0"
  unfolding comparison_def by (metis less_asym not_less_iff_gr_or_eq)

lemma comparison_sym: "comparison c \<Longrightarrow> c x y = 0 \<Longrightarrow> c y x = 0"
  unfolding comparison_def by (metis less_irrefl linorder_neqE)

lemma comparison_equal:
  assumes "comparison c" and "c z x = 0" and "c z y = 0"
  shows "c x y = 0"
proof -
  have "c x z = 0" "c y z = 0" using assms by (auto intro: comparison_sym)
  with assms have "c x y \<le> 0" "c y x \<le> 0" by (auto intro: comparison_trans [where y = z])
  with assms(1) show ?thesis unfolding comparison_def by (metis less_le not_le)
qed

section \<open>Merge sort\<close>

fun merge_l :: "('a \<Rightarrow> 'a \<Rightarrow> int) \<Rightarrow> 'a list \<Rightarrow> 'a list \<Rightarrow> 'a list" where
  "merge_l c [] ys = ys"
| "merge_l c xs [] = xs"
| "merge_l c (x # xs) (y # ys) =
     (if c x y \<le> 0 then x # merge_l c xs (y # ys) else y # merge_l c (x # xs) ys)"

function msort_l :: "('a \<Rightarrow> 'a \<Rightarrow> int) \<Rightarrow> 'a list \<Rightarrow> 'a list" where
  "msort_l c xs =
     (if length xs \<le> 1 then xs
      else let h = length xs div 2 in merge_l c (msort_l c (take h xs)) (msort_l c (drop h xs)))"
  by pat_completeness auto
termination
  by (relation "measure (\<lambda>(c, xs). length xs)") (auto simp: min_def)

declare msort_l.simps [simp del]

lemma merge_l_Nil2 [simp]: "merge_l c xs [] = xs"
  by (cases xs) auto

lemma mset_merge_l: "mset (merge_l c xs ys) = mset xs + mset ys"
  by (induction c xs ys rule: merge_l.induct) auto

lemma length_merge_l [simp]: "length (merge_l c xs ys) = length xs + length ys"
  by (induction c xs ys rule: merge_l.induct) auto

lemma set_merge_l: "set (merge_l c xs ys) = set xs \<union> set ys"
  by (induction c xs ys rule: merge_l.induct) auto

lemma sorted_merge_l:
  "comparison c \<Longrightarrow> sorted_by c xs \<Longrightarrow> sorted_by c ys \<Longrightarrow> sorted_by c (merge_l c xs ys)"
proof (induction c xs ys rule: merge_l.induct)
  case (3 c x xs y ys)
  note c = \<open>comparison c\<close>
  show ?case
  proof (cases "c x y \<le> 0")
    case True
    with "3.prems" have "\<forall>z\<in>set ys. c x z \<le> 0" by (auto simp: sorted_by_def intro: comparison_trans [OF c, of x y])
    with True "3.IH"(1) "3.prems" show ?thesis by (auto simp: sorted_by_def set_merge_l)
  next
    case False
    then have "c y x \<le> 0" using comparison_swap [OF c, of x y] by simp
    with "3.prems" have "\<forall>z\<in>set xs. c y z \<le> 0" by (auto simp: sorted_by_def intro: comparison_trans [OF c, of y x])
    with False \<open>c y x \<le> 0\<close> "3.IH"(2) "3.prems" show ?thesis by (auto simp: sorted_by_def set_merge_l)
  qed
qed (simp_all add: sorted_by_def)

lemma filter_merge_l:
  "comparison c \<Longrightarrow> sorted_by c xs \<Longrightarrow>
   filter (\<lambda>y. c z y = 0) (merge_l c xs ys) = filter (\<lambda>y. c z y = 0) xs @ filter (\<lambda>y. c z y = 0) ys"
proof (induction c xs ys rule: merge_l.induct)
  case (3 c x xs y ys)
  note c = \<open>comparison c\<close>
  show ?case
  proof (cases "c x y \<le> 0")
    case True
    with 3 show ?thesis by (simp add: sorted_by_def)
  next
    case False
    have "filter (\<lambda>y. c z y = 0) (x # xs) = []" if "c z y = 0"
    proof -
      have "c z w \<noteq> 0" if w: "w \<in> set (x # xs)" for w
      proof
        assume "c z w = 0"
        with \<open>c z y = 0\<close> c have "c w y = 0" by (auto intro: comparison_equal)
        moreover have "c x w \<le> 0" using w "3.prems"(2) comparison_refl [OF c] by (auto simp: sorted_by_def)
        ultimately have "c x y \<le> 0" using comparison_trans [OF c] by (metis order_refl)
        with False show False by simp
      qed
      then show ?thesis by (simp add: filter_empty_conv del: filter.simps)
    qed
    with False "3.IH"(2) "3.prems" show ?thesis by (cases "c z y = 0") simp_all
  qed
qed simp_all

lemma mset_msort_l: "mset (msort_l c xs) = mset xs"
proof (induction c xs rule: msort_l.induct)
  case (1 c xs)
  show ?case
  proof (cases "length xs \<le> 1")
    case True
    then show ?thesis by (subst msort_l.simps) simp
  next
    case False
    have "mset xs = mset (take (length xs div 2) xs) + mset (drop (length xs div 2) xs)"
      by (simp flip: mset_append)
    with False "1.IH" [OF False refl] show ?thesis by (subst msort_l.simps) (simp add: Let_def mset_merge_l)
  qed
qed

lemma length_msort_l [simp]: "length (msort_l c xs) = length xs"
  by (metis mset_msort_l size_mset)

lemma sorted_msort_l: "comparison c \<Longrightarrow> sorted_by c (msort_l c xs)"
proof (induction c xs rule: msort_l.induct)
  case (1 c xs)
  show ?case
  proof (cases "length xs \<le> 1")
    case True
    then show ?thesis by (subst msort_l.simps) (cases xs, simp_all add: sorted_by_def)
  next
    case False
    with 1 show ?thesis by (subst msort_l.simps) (simp add: Let_def sorted_merge_l)
  qed
qed

lemma stable_msort_l: "comparison c \<Longrightarrow> stable_by c xs (msort_l c xs)"
proof (induction c xs rule: msort_l.induct)
  case (1 c xs)
  show ?case
  proof (cases "length xs \<le> 1")
    case True
    then show ?thesis by (simp add: msort_l.simps [of c xs] stable_by_def)
  next
    case False
    let ?h = "length xs div 2"
    have "filter (\<lambda>y. c z y = 0) (msort_l c xs) = filter (\<lambda>y. c z y = 0) xs" for z
    proof -
      have "filter (\<lambda>y. c z y = 0) (msort_l c xs) =
          filter (\<lambda>y. c z y = 0) (take ?h xs) @ filter (\<lambda>y. c z y = 0) (drop ?h xs)"
        using False 1 by (subst msort_l.simps) (simp add: Let_def filter_merge_l sorted_msort_l stable_by_def)
      also have "\<dots> = filter (\<lambda>y. c z y = 0) (take ?h xs @ drop ?h xs)" by (simp only: filter_append)
      finally show ?thesis by simp
    qed
    then show ?thesis by (simp add: stable_by_def)
  qed
qed

section \<open>Heap sort\<close>

definition swap_l :: "'a list \<Rightarrow> nat \<Rightarrow> nat \<Rightarrow> 'a list" where
  "swap_l xs i j = xs[i := xs ! j, j := xs ! i]"

text \<open>The child of \<open>k\<close> that the heap compares with: the right one if it is greater.\<close>

definition greater_child :: "('a \<Rightarrow> 'a \<Rightarrow> int) \<Rightarrow> 'a list \<Rightarrow> nat \<Rightarrow> nat \<Rightarrow> nat" where
  "greater_child c xs k n =
     (if 2 * k + 1 < n \<and> c (xs ! (2 * k + 1)) (xs ! (2 * k + 2)) < 0 then 2 * k + 2 else 2 * k + 1)"

function siftdown_l :: "('a \<Rightarrow> 'a \<Rightarrow> int) \<Rightarrow> 'a list \<Rightarrow> nat \<Rightarrow> nat \<Rightarrow> 'a list" where
  "siftdown_l c xs k n =
     (if 2 * k + 1 \<le> n then
        let j = greater_child c xs k n in
        if 0 \<le> c (xs ! k) (xs ! j) then xs else siftdown_l c (swap_l xs j k) j n
      else xs)"
  by pat_completeness auto
termination
  by (relation "measure (\<lambda>(c, xs, k, n). n - k)") (auto simp: greater_child_def)

declare siftdown_l.simps [simp del]

fun heapify_l :: "('a \<Rightarrow> 'a \<Rightarrow> int) \<Rightarrow> 'a list \<Rightarrow> nat \<Rightarrow> nat \<Rightarrow> 'a list" where
  "heapify_l c xs k n = (let ys = siftdown_l c xs k n in case k of 0 \<Rightarrow> ys | Suc k' \<Rightarrow> heapify_l c ys k' n)"

declare heapify_l.simps [simp del]

fun extract_l :: "('a \<Rightarrow> 'a \<Rightarrow> int) \<Rightarrow> 'a list \<Rightarrow> nat \<Rightarrow> 'a list" where
  "extract_l c xs 0 = xs"
| "extract_l c xs (Suc n) =
     (let ys = swap_l xs 0 (Suc n) in if n = 0 then ys else extract_l c (siftdown_l c ys 0 n) n)"

definition heapsort_l :: "('a \<Rightarrow> 'a \<Rightarrow> int) \<Rightarrow> 'a list \<Rightarrow> 'a list" where
  "heapsort_l c xs =
     (let n = length xs - 1 in if n = 0 then xs else extract_l c (heapify_l c xs (n div 2) n) n)"

lemma length_swap_l [simp]: "length (swap_l xs i j) = length xs"
  by (simp add: swap_l_def)

lemma mset_swap_l: "i < length xs \<Longrightarrow> j < length xs \<Longrightarrow> mset (swap_l xs i j) = mset xs"
  by (simp add: swap_l_def mset_swap)

lemma nth_swap_l:
  "i < length xs \<Longrightarrow> j < length xs \<Longrightarrow> a < length xs \<Longrightarrow>
   swap_l xs i j ! a = xs ! (if a = i then j else if a = j then i else a)"
  by (auto simp: swap_l_def nth_list_update)

definition child :: "nat \<Rightarrow> nat \<Rightarrow> bool" where
  "child i j \<longleftrightarrow> j = 2 * i + 1 \<or> j = 2 * i + 2"

definition heap_from :: "('a \<Rightarrow> 'a \<Rightarrow> int) \<Rightarrow> 'a list \<Rightarrow> nat \<Rightarrow> nat \<Rightarrow> bool" where
  "heap_from c xs lo n \<longleftrightarrow> (\<forall>i j. lo \<le> i \<longrightarrow> child i j \<longrightarrow> j \<le> n \<longrightarrow> c (xs ! j) (xs ! i) \<le> 0)"

text \<open>A heap but for the element at \<open>k\<close>, whose children are below its parent.\<close>

definition heap_but :: "('a \<Rightarrow> 'a \<Rightarrow> int) \<Rightarrow> 'a list \<Rightarrow> nat \<Rightarrow> nat \<Rightarrow> nat \<Rightarrow> bool" where
  "heap_but c xs lo k n \<longleftrightarrow>
     (\<forall>i j. lo \<le> i \<longrightarrow> child i j \<longrightarrow> j \<le> n \<longrightarrow> i \<noteq> k \<longrightarrow> c (xs ! j) (xs ! i) \<le> 0)
     \<and> (\<forall>p j. lo \<le> p \<longrightarrow> child p k \<longrightarrow> child k j \<longrightarrow> j \<le> n \<longrightarrow> c (xs ! j) (xs ! p) \<le> 0)"

lemma child_unique: "child i j \<Longrightarrow> child i' j \<Longrightarrow> i = i'"
  unfolding child_def by presburger

lemma child_less: "child i j \<Longrightarrow> i < j"
  unfolding child_def by auto

lemma greater_child:
  assumes "comparison c" and "2 * k + 1 \<le> n"
  shows "child k (greater_child c xs k n)" and "greater_child c xs k n \<le> n"
    and "child k j \<Longrightarrow> j \<le> n \<Longrightarrow> c (xs ! j) (xs ! greater_child c xs k n) \<le> 0"
proof -
  show "child k (greater_child c xs k n)" "greater_child c xs k n \<le> n"
    using assms(2) by (auto simp: greater_child_def child_def)
  assume j: "child k j" "j \<le> n"
  show "c (xs ! j) (xs ! greater_child c xs k n) \<le> 0"
  proof (cases "2 * k + 1 < n \<and> c (xs ! (2 * k + 1)) (xs ! (2 * k + 2)) < 0")
    case True
    with j comparison_refl [OF assms(1)] show ?thesis by (auto simp: greater_child_def child_def)
  next
    case False
    then have "j = 2 * k + 2 \<Longrightarrow> c (xs ! j) (xs ! (2 * k + 1)) \<le> 0"
      using j comparison_swap [OF assms(1), of "xs ! (2 * k + 1)" "xs ! j"] by auto
    with False j comparison_refl [OF assms(1)] show ?thesis by (auto simp: greater_child_def child_def)
  qed
qed

lemma length_siftdown_l [simp]: "length (siftdown_l c xs k n) = length xs"
  by (induction c xs k n rule: siftdown_l.induct) (subst siftdown_l.simps, simp add: Let_def)

lemma mset_siftdown_l: "n < length xs \<Longrightarrow> mset (siftdown_l c xs k n) = mset xs"
proof (induction c xs k n rule: siftdown_l.induct)
  case (1 c xs k n)
  let ?j = "greater_child c xs k n"
  have "?j < length xs" "k < length xs" if "2 * k + 1 \<le> n"
    using that "1.prems" by (auto simp: greater_child_def)
  with 1 show ?case by (subst siftdown_l.simps) (simp add: Let_def mset_swap_l)
qed

text \<open>Only the elements of the heap move.\<close>

lemma siftdown_l_above: "n < length xs \<Longrightarrow> n < a \<Longrightarrow> a < length xs \<Longrightarrow> siftdown_l c xs k n ! a = xs ! a"
proof (induction c xs k n rule: siftdown_l.induct)
  case (1 c xs k n)
  let ?j = "greater_child c xs k n"
  have "?j \<le> n" "k < n" if "2 * k + 1 \<le> n" using that by (auto simp: greater_child_def)
  with 1 show ?case by (subst siftdown_l.simps) (auto simp: Let_def nth_swap_l)
qed

lemma heap_but_swap:
  assumes c: "comparison c" and n: "n < length xs" and lo: "lo \<le> k" and k: "2 * k + 1 \<le> n"
    and but: "heap_but c xs lo k n" and j: "j = greater_child c xs k n" and lt: "c (xs ! k) (xs ! j) < 0"
  shows "heap_but c (swap_l xs j k) lo j n"
proof -
  note gc = greater_child [OF c k, where xs = xs, folded j]
  have len: "j < length xs" "k < length xs" using gc(2) k n by auto
  have kj: "k < j" using gc(1) by (rule child_less)
  have nth: "swap_l xs j k ! a = xs ! (if a = j then k else if a = k then j else a)" if "a \<le> n" for a
    using nth_swap_l [OF len] that n by simp
  have *: "c (swap_l xs j k ! b) (swap_l xs j k ! i) \<le> 0" if h: "lo \<le> i" "child i b" "b \<le> n" "i \<noteq> j" for i b
  proof -
    have ib: "i < b" using h(2) by (rule child_less)
    show ?thesis
    proof (cases "i = k")
      case True
      then have "b \<noteq> k" using ib by simp
      with True h nth [of b] nth [of i] kj k gc lt show ?thesis
        by (cases "b = j") auto
    next
      case False
      then have "b \<noteq> j" using child_unique [OF h(2), of k] gc(1) by auto
      show ?thesis
      proof (cases "b = k")
        case True
        with h but gc(1,2) have "c (xs ! j) (xs ! i) \<le> 0" by (auto simp: heap_but_def)
        with True False h nth [of b] nth [of i] ib kj show ?thesis by auto
      next
        case False
        with \<open>b \<noteq> j\<close> \<open>i \<noteq> k\<close> h but nth [of b] nth [of i] ib show ?thesis by (auto simp: heap_but_def)
      qed
    qed
  qed
  have "c (swap_l xs j k ! b) (swap_l xs j k ! p) \<le> 0" if h: "child p j" "child j b" "b \<le> n" for p b
  proof -
    have p: "p = k" using child_unique [OF h(1) gc(1)] .
    have "j < b" using h(2) by (rule child_less)
    with h but lo kj have "c (xs ! b) (xs ! j) \<le> 0" by (auto simp: heap_but_def)
    with p nth [of b] nth [of k] h kj \<open>j < b\<close> k show ?thesis by auto
  qed
  with * show ?thesis by (auto simp: heap_but_def)
qed

lemma heap_siftdown_l:
  "comparison c \<Longrightarrow> n < length xs \<Longrightarrow> lo \<le> k \<Longrightarrow> heap_but c xs lo k n \<Longrightarrow> heap_from c (siftdown_l c xs k n) lo n"
proof (induction c xs k n rule: siftdown_l.induct)
  case (1 c xs k n)
  let ?j = "greater_child c xs k n"
  note c = \<open>comparison c\<close>
  consider "n < 2 * k + 1" | "2 * k + 1 \<le> n" "0 \<le> c (xs ! k) (xs ! ?j)" | "2 * k + 1 \<le> n" "c (xs ! k) (xs ! ?j) < 0"
    by linarith
  then show ?case
  proof cases
    case 1
    with "1.prems"(4) have "heap_from c xs lo n" by (auto simp: heap_from_def heap_but_def child_def)
    with 1 show ?thesis by (subst siftdown_l.simps) simp
  next
    case 2
    have "c (xs ! b) (xs ! k) \<le> 0" if "child k b" "b \<le> n" for b
      using greater_child(3) [OF c 2(1) that] comparison_swap [OF c 2(2)] by (rule comparison_trans [OF c])
    with "1.prems"(4) have "heap_from c xs lo n" by (auto simp: heap_from_def heap_but_def)
    with 2 show ?thesis by (subst siftdown_l.simps) (simp add: Let_def)
  next
    case 3
    have "heap_but c (swap_l xs ?j k) lo ?j n"
      using heap_but_swap [OF c "1.prems"(2,3) 3(1) "1.prems"(4) refl 3(2)] .
    moreover have "lo \<le> ?j" using "1.prems"(3) by (auto simp: greater_child_def)
    ultimately have "heap_from c (siftdown_l c (swap_l xs ?j k) ?j n) lo n"
      using "1.IH" [OF 3(1) refl] 3(2) "1.prems"(2) c by simp
    with 3 show ?thesis by (subst siftdown_l.simps) (simp add: Let_def)
  qed
qed

lemma heap_root:
  assumes "comparison c" and "heap_from c xs 0 n"
  shows "j \<le> n \<Longrightarrow> c (xs ! j) (xs ! 0) \<le> 0"
proof (induction j rule: less_induct)
  case (less j)
  show ?case
  proof (cases "j = 0")
    case True
    with comparison_refl [OF assms(1)] show ?thesis by simp
  next
    case False
    then have ch: "child ((j - 1) div 2) j" by (auto simp: child_def)
    then have "c (xs ! j) (xs ! ((j - 1) div 2)) \<le> 0" using assms(2) less.prems by (auto simp: heap_from_def)
    moreover have "c (xs ! ((j - 1) div 2)) (xs ! 0) \<le> 0"
      using child_less [OF ch] less by simp
    ultimately show ?thesis by (rule comparison_trans [OF assms(1)])
  qed
qed

lemma drop_siftdown_l: "n < length xs \<Longrightarrow> drop (Suc n) (siftdown_l c xs k n) = drop (Suc n) xs"
  by (rule nth_equalityI) (auto simp: siftdown_l_above)

lemma mset_take_siftdown_l:
  assumes "n < length xs"
  shows "mset (take (Suc n) (siftdown_l c xs k n)) = mset (take (Suc n) xs)"
proof -
  have "mset (take (Suc n) (siftdown_l c xs k n)) + mset (drop (Suc n) xs) = mset (take (Suc n) xs) + mset (drop (Suc n) xs)"
    using mset_siftdown_l [OF assms, of c k] drop_siftdown_l [OF assms, of c k]
    by (metis append_take_drop_id mset_append)
  then show ?thesis by simp
qed

lemma heapify_l:
  "comparison c \<Longrightarrow> n < length xs \<Longrightarrow> heap_from c xs (Suc k) n \<Longrightarrow>
   heap_from c (heapify_l c xs k n) 0 n \<and> mset (heapify_l c xs k n) = mset xs"
proof (induction c xs k n rule: heapify_l.induct)
  case (1 c xs k n)
  let ?ys = "siftdown_l c xs k n"
  have "heap_but c xs k k n"
    using "1.prems"(3) by (auto simp: heap_but_def heap_from_def dest: child_less)
  then have h: "heap_from c ?ys k n" using "1.prems" by (auto intro: heap_siftdown_l)
  have m: "mset ?ys = mset xs" using "1.prems"(2) by (rule mset_siftdown_l)
  show ?case
  proof (cases k)
    case 0
    with h m show ?thesis by (simp add: heapify_l.simps [of c xs 0 n] Let_def)
  next
    case (Suc k')
    with "1.IH" [OF refl Suc] h m "1.prems" show ?thesis
      by (simp add: heapify_l.simps [of c xs "Suc k'" n] Let_def)
  qed
qed

text \<open>The elements of the heap are below the rest, which is sorted.\<close>

definition heap_split :: "('a \<Rightarrow> 'a \<Rightarrow> int) \<Rightarrow> 'a list \<Rightarrow> nat \<Rightarrow> bool" where
  "heap_split c xs n \<longleftrightarrow> sorted_by c (drop (Suc n) xs)
     \<and> (\<forall>x\<in>set (take (Suc n) xs). \<forall>y\<in>set (drop (Suc n) xs). c x y \<le> 0)"

lemma heap_split_siftdown_l: "n < length xs \<Longrightarrow> heap_split c (siftdown_l c xs k n) n = heap_split c xs n"
  using arg_cong [OF mset_take_siftdown_l [of n xs c k], of set_mset]
  by (simp add: heap_split_def drop_siftdown_l)

lemma heap_split_swap:
  assumes c: "comparison c" and n: "Suc n < length xs" and h: "heap_from c xs 0 (Suc n)" and s: "heap_split c xs (Suc n)"
  shows "heap_split c (swap_l xs 0 (Suc n)) n"
proof -
  let ?ys = "swap_l xs 0 (Suc n)"
  have ne: "xs \<noteq> []" using n by auto
  have d: "drop (Suc n) ?ys = xs ! 0 # drop (Suc (Suc n)) xs"
    using n by (simp add: swap_l_def Cons_nth_drop_Suc [symmetric] drop_update_cancel)
  have t: "x \<in> set (take (Suc (Suc n)) xs) \<and> c x (xs ! 0) \<le> 0" if x: "x \<in> set (take (Suc n) ?ys)" for x
  proof -
    obtain a where a: "a < Suc n" "x = ?ys ! a" using x n by (auto simp: in_set_conv_nth)
    define b where "b = (if a = 0 then Suc n else a)"
    have b: "b \<le> Suc n" "x = xs ! b" using a n ne by (auto simp: b_def nth_swap_l)
    then have "x = take (Suc (Suc n)) xs ! b" "b < length (take (Suc (Suc n)) xs)" using n by auto
    then have "x \<in> set (take (Suc (Suc n)) xs)" by (metis nth_mem)
    with b heap_root [OF c h, of b] show ?thesis by simp
  qed
  have "xs ! 0 \<in> set (take (Suc (Suc n)) xs)" using n by (cases xs) auto
  with s t show ?thesis unfolding heap_split_def d by (auto simp: sorted_by_def)
qed

lemma extract_l:
  "comparison c \<Longrightarrow> n < length xs \<Longrightarrow> heap_from c xs 0 n \<Longrightarrow> heap_split c xs n \<Longrightarrow>
   sorted_by c (extract_l c xs n) \<and> mset (extract_l c xs n) = mset xs"
proof (induction c xs n rule: extract_l.induct)
  case (1 c xs)
  then obtain x r where "xs = x # r" by (cases xs) auto
  with 1 show ?case by (simp add: heap_split_def sorted_by_def)
next
  case (2 c xs n)
  let ?ys = "swap_l xs 0 (Suc n)"
  have ne: "xs \<noteq> []" using "2.prems"(2) by auto
  have s: "heap_split c ?ys n" using "2.prems" by (auto intro: heap_split_swap)
  have m: "mset ?ys = mset xs" using "2.prems"(2) ne by (simp add: mset_swap_l)
  show ?case
  proof (cases "n = 0")
    case True
    with "2.prems"(2) obtain x r where "?ys = x # r" by (cases ?ys) (auto simp: swap_l_def)
    with s True m show ?thesis by (simp add: heap_split_def sorted_by_def)
  next
    case False
    have "c (?ys ! j) (?ys ! i) \<le> 0" if "child i j" "j \<le> n" "i \<noteq> 0" for i j
      using that child_less [OF that(1)] "2.prems"(2,3) ne by (simp add: nth_swap_l heap_from_def)
    moreover have "\<not> child p 0" for p by (simp add: child_def)
    ultimately have "heap_but c ?ys 0 0 n" by (auto simp: heap_but_def)
    then have "heap_from c (siftdown_l c ?ys 0 n) 0 n" using "2.prems" by (auto intro: heap_siftdown_l)
    moreover have "heap_split c (siftdown_l c ?ys 0 n) n" using s "2.prems"(2) by (simp add: heap_split_siftdown_l)
    ultimately have "sorted_by c (extract_l c (siftdown_l c ?ys 0 n) n)
        \<and> mset (extract_l c (siftdown_l c ?ys 0 n) n) = mset (siftdown_l c ?ys 0 n)"
      using "2.IH" [OF refl False] "2.prems"(1,2) by simp
    moreover have "mset (siftdown_l c ?ys 0 n) = mset ?ys" using "2.prems"(2) by (simp add: mset_siftdown_l)
    ultimately show ?thesis using False m by (simp add: Let_def)
  qed
qed

lemma heapsort_l:
  assumes "comparison c"
  shows "sorted_by c (heapsort_l c xs)" and "mset (heapsort_l c xs) = mset xs"
proof -
  let ?n = "length xs - 1"
  have "sorted_by c (heapsort_l c xs) \<and> mset (heapsort_l c xs) = mset xs"
  proof (cases "?n = 0")
    case True
    then show ?thesis by (cases xs) (auto simp: heapsort_l_def sorted_by_def)
  next
    case False
    have "heap_from c xs (Suc (?n div 2)) ?n" by (auto simp: heap_from_def child_def)
    then have h: "heap_from c (heapify_l c xs (?n div 2) ?n) 0 ?n" "mset (heapify_l c xs (?n div 2) ?n) = mset xs"
      using heapify_l [OF assms, of ?n xs "?n div 2"] False by auto
    then have "length (heapify_l c xs (?n div 2) ?n) = length xs" by (metis size_mset)
    with extract_l [OF assms, of ?n "heapify_l c xs (?n div 2) ?n"] h False show ?thesis
      by (simp add: heapsort_l_def Let_def heap_split_def sorted_by_def)
  qed
  then show "sorted_by c (heapsort_l c xs)" "mset (heapsort_l c xs) = mset xs" by simp_all
qed

section \<open>Cycles of a permutation\<close>

text \<open>\<open>r\<close> is what follows \<open>j\<close> on the way back to \<open>i\<close>.\<close>

fun cycle_path :: "(nat \<Rightarrow> nat) \<Rightarrow> nat \<Rightarrow> nat \<Rightarrow> nat list \<Rightarrow> bool" where
  "cycle_path f i j [] \<longleftrightarrow> f j = i"
| "cycle_path f i j (k # r) \<longleftrightarrow> f j = k \<and> cycle_path f i k r"

lemma cycle_path_cong: "(\<And>k. k \<in> set (j # r) \<Longrightarrow> f k = g k) \<Longrightarrow> cycle_path f i j r = cycle_path g i j r"
  by (induction r arbitrary: j) auto

lemma cycle_path_funpow:
  "(f ^^ (Suc l)) j = i \<Longrightarrow> cycle_path f i j (map (\<lambda>k. (f ^^ k) j) [1..<Suc l])"
proof (induction l arbitrary: j)
  case (Suc l)
  have "map (\<lambda>k. (f ^^ k) j) [1..<Suc (Suc l)] = f j # map (\<lambda>k. (f ^^ k) (f j)) [1..<Suc l]"
    by (simp add: upt_conv_Cons map_Suc_upt [symmetric] funpow_swap1 comp_def del: upt_Suc)
  moreover have "cycle_path f i (f j) (map (\<lambda>k. (f ^^ k) (f j)) [1..<Suc l])"
    using Suc.prems by (intro Suc.IH) (simp add: funpow_swap1)
  ultimately show ?case by simp
qed simp

lemma cycle_exists:
  assumes inj: "inj_on f {..<n}" and into: "\<And>k. k < n \<Longrightarrow> f k < n" and i: "i < n"
  shows "\<exists>r. cycle_path f i i r \<and> distinct (i # r) \<and> set r \<subseteq> {..<n}"
proof -
  define g where "g k = (if k < n then f k else k)" for k
  have g: "inj g" using inj into by (auto simp: inj_on_def g_def)
  have below: "(g ^^ k) i < n" for k by (induction k) (auto simp: i g_def into)
  have "{y. \<exists>k. y = (g ^^ k) i} \<subseteq> {..<n}" using below by auto
  then obtain l0 where l0: "0 < l0" "(g ^^ l0) i = i"
    using funpow_inj_finite [OF g, of i] by (metis (no_types, lifting) finite_lessThan finite_subset)
  define l where "l = (LEAST l. 0 < l \<and> (g ^^ l) i = i)"
  have l: "0 < l" "(g ^^ l) i = i" and least: "\<And>k. 0 < k \<Longrightarrow> k < l \<Longrightarrow> (g ^^ k) i \<noteq> i"
    using LeastI [of "\<lambda>l. 0 < l \<and> (g ^^ l) i = i" l0] l0 not_less_Least [of _ "\<lambda>l. 0 < l \<and> (g ^^ l) i = i"]
    unfolding l_def by auto
  have differ: "(g ^^ a) i \<noteq> (g ^^ b) i" if "a < b" "b < l" for a b
  proof
    assume "(g ^^ a) i = (g ^^ b) i"
    also have "(g ^^ b) i = (g ^^ a) ((g ^^ (b - a)) i)"
      using that by (simp flip: funpow_add comp_apply [of "g ^^ a" "g ^^ (b - a)"])
    finally have "i = (g ^^ (b - a)) i" using inj_fn [OF g, of a] by (simp add: inj_def)
    moreover have "0 < b - a" "b - a < l" using that by simp_all
    ultimately show False using least [of "b - a"] by simp
  qed
  define r where "r = map (\<lambda>k. (g ^^ k) i) [1..<l]"
  have "cycle_path g i i r" using cycle_path_funpow [of "l - 1" g i i] l unfolding r_def by simp
  then have "cycle_path f i i r"
    using below i by (subst cycle_path_cong [of i r f g]) (auto simp: r_def g_def)
  moreover have "inj_on (\<lambda>k. (g ^^ k) i) {0..<l}"
    by (rule linorder_inj_onI') (use differ in auto)
  then have "distinct (map (\<lambda>k. (g ^^ k) i) [0..<l])" by (simp add: distinct_map)
  then have "distinct (i # r)" using l(1) by (simp add: r_def upt_conv_Cons)
  moreover have "set r \<subseteq> {..<n}" using below by (auto simp: r_def)
  ultimately show ?thesis by blast
qed

end
