(* ===== verification/Qsort.thy ===== *)
theory Qsort
  imports Byte_Memory Sort_Spec
begin

text \<open>
  The sorting routines of \<^verbatim>\<open>stdlib/qsort.c\<close> and \<^verbatim>\<open>__memswap\<close> on linear memory: a merge sort with a
  buffer, indirect for large elements, and an in-place heap sort when no buffer can be had. The
  file holds every routine twice, for a comparison with and without an extra argument, because
  WebAssembly does not let one call stand for the other; both copies are modelled.

  A comparison reads the memory at two addresses and has no effect. Addresses are natural numbers:
  the arrays lie inside the 32-bit address space, and the sizes computed from the caller's numbers
  wrap as \<^verbatim>\<open>size_t\<close> does. Loops that the C code does not bound are partial functions, with \<open>None\<close>
  for a loop that does not end. The address of the buffer on the stack and the answers of
  \<^verbatim>\<open>malloc\<close> (zero for a failure) are arguments.
\<close>

type_synonym compar_fn = "mem \<Rightarrow> nat \<Rightarrow> nat \<Rightarrow> int"
type_synonym compar_d_fn = "mem \<Rightarrow> nat \<Rightarrow> nat \<Rightarrow> nat \<Rightarrow> int"

datatype swap_type_t = SWAP_WORDS_64 | SWAP_WORDS_32 | SWAP_VOID_ARG | SWAP_BYTES

section \<open>Swaps\<close>

text \<open>Exchange of two ranges of \<open>w\<close> bytes through a temporary.\<close>

definition exchange :: "nat \<Rightarrow> nat \<Rightarrow> nat \<Rightarrow> mem \<Rightarrow> mem" where
  "exchange w a b m = blit m a w (blit m b w m a) b"

partial_function (option) swap_words_64 :: "nat \<Rightarrow> nat \<Rightarrow> nat \<Rightarrow> mem \<Rightarrow> mem option" where
  "swap_words_64 a b n m =
     (let n' = size_sub n 8; m' = exchange 8 (a + n') (b + n') m in
      if n' = 0 then Some m' else swap_words_64 a b n' m')"

partial_function (option) swap_words_32 :: "nat \<Rightarrow> nat \<Rightarrow> nat \<Rightarrow> mem \<Rightarrow> mem option" where
  "swap_words_32 a b n m =
     (let n' = size_sub n 4; m' = exchange 4 (a + n') (b + n') m in
      if n' = 0 then Some m' else swap_words_32 a b n' m')"

declare swap_words_64.simps [code] swap_words_32.simps [code]

definition SWAP_GENERIC_SIZE :: nat where "SWAP_GENERIC_SIZE = 32"

text \<open>The two loops of \<^verbatim>\<open>__memswap\<close>.\<close>

function memswap_blocks :: "nat \<Rightarrow> nat \<Rightarrow> nat \<Rightarrow> mem \<Rightarrow> nat \<times> nat \<times> nat \<times> mem" where
  "memswap_blocks p1 p2 n m =
     (if SWAP_GENERIC_SIZE < n
      then memswap_blocks (p1 + SWAP_GENERIC_SIZE) (p2 + SWAP_GENERIC_SIZE) (n - SWAP_GENERIC_SIZE)
             (exchange SWAP_GENERIC_SIZE p1 p2 m)
      else (p1, p2, n, m))"
  by pat_completeness auto
termination
  by (relation "measure (\<lambda>(p1, p2, n, m). n)") (auto simp: SWAP_GENERIC_SIZE_def)

declare memswap_blocks.simps [simp del]

fun memswap_bytes :: "nat \<Rightarrow> nat \<Rightarrow> nat \<Rightarrow> mem \<Rightarrow> mem" where
  "memswap_bytes p1 p2 0 m = m"
| "memswap_bytes p1 p2 (Suc n) m = memswap_bytes p1 p2 n (exchange 1 (p1 + n) (p2 + n) m)"

definition memswap :: "nat \<Rightarrow> nat \<Rightarrow> nat \<Rightarrow> mem \<Rightarrow> mem" where
  "memswap p1 p2 n m =
     (case memswap_blocks p1 p2 n m of (q1, q2, n', m') \<Rightarrow> memswap_bytes q1 q2 n' m')"

definition do_swap :: "nat \<Rightarrow> nat \<Rightarrow> nat \<Rightarrow> swap_type_t \<Rightarrow> mem \<Rightarrow> mem option" where
  "do_swap a b len swap_type m =
     (if swap_type = SWAP_WORDS_64 then swap_words_64 a b len m
      else if swap_type = SWAP_WORDS_32 then swap_words_32 a b len m
      else Some (memswap a b len m))"

section \<open>Heap sort\<close>

function siftdown :: "nat \<Rightarrow> nat \<Rightarrow> nat \<Rightarrow> nat \<Rightarrow> swap_type_t \<Rightarrow> compar_d_fn \<Rightarrow> nat \<Rightarrow> mem \<Rightarrow> mem option" where
  "siftdown base len k n swap_type cmp arg m =
     (if 2 * k + 1 \<le> n then
        let j0 = 2 * k + 1;
            j = (if j0 < n \<and> cmp m (base + j0 * len) (base + (j0 + 1) * len) arg < 0 then j0 + 1 else j0) in
        if j = k \<or> 0 \<le> cmp m (base + k * len) (base + j * len) arg then Some m
        else (case do_swap (base + len * j) (base + k * len) len swap_type m of
                None \<Rightarrow> None
              | Some m' \<Rightarrow> siftdown base len j n swap_type cmp arg m')
      else Some m)"
  by pat_completeness auto
termination
  by (relation "measure (\<lambda>(base, len, k, n, swap_type, cmp, arg, m). n - k)") (auto split: if_splits)

declare siftdown.simps [simp del]

function siftdown_2 :: "nat \<Rightarrow> nat \<Rightarrow> nat \<Rightarrow> nat \<Rightarrow> swap_type_t \<Rightarrow> compar_fn \<Rightarrow> mem \<Rightarrow> mem option" where
  "siftdown_2 base len k n swap_type cmp m =
     (if 2 * k + 1 \<le> n then
        let j0 = 2 * k + 1;
            j = (if j0 < n \<and> cmp m (base + j0 * len) (base + (j0 + 1) * len) < 0 then j0 + 1 else j0) in
        if j = k \<or> 0 \<le> cmp m (base + k * len) (base + j * len) then Some m
        else (case do_swap (base + len * j) (base + k * len) len swap_type m of
                None \<Rightarrow> None
              | Some m' \<Rightarrow> siftdown_2 base len j n swap_type cmp m')
      else Some m)"
  by pat_completeness auto
termination
  by (relation "measure (\<lambda>(base, len, k, n, swap_type, cmp, m). n - k)") (auto split: if_splits)

declare siftdown_2.simps [simp del]

text \<open>The loop of \<^verbatim>\<open>heapify\<close>, from \<open>k\<close> down to 0.\<close>

fun heapify_from :: "nat \<Rightarrow> nat \<Rightarrow> nat \<Rightarrow> nat \<Rightarrow> swap_type_t \<Rightarrow> compar_d_fn \<Rightarrow> nat \<Rightarrow> mem \<Rightarrow> mem option" where
  "heapify_from base len k n swap_type cmp arg m =
     (case siftdown base len k n swap_type cmp arg m of
        None \<Rightarrow> None
      | Some m' \<Rightarrow>
          (case k of 0 \<Rightarrow> Some m' | Suc k' \<Rightarrow> heapify_from base len k' n swap_type cmp arg m'))"

declare heapify_from.simps [simp del]

definition heapify :: "nat \<Rightarrow> nat \<Rightarrow> nat \<Rightarrow> swap_type_t \<Rightarrow> compar_d_fn \<Rightarrow> nat \<Rightarrow> mem \<Rightarrow> mem option" where
  "heapify base len n swap_type cmp arg m = heapify_from base len (n div 2) n swap_type cmp arg m"

fun heapify_from_2 :: "nat \<Rightarrow> nat \<Rightarrow> nat \<Rightarrow> nat \<Rightarrow> swap_type_t \<Rightarrow> compar_fn \<Rightarrow> mem \<Rightarrow> mem option" where
  "heapify_from_2 base len k n swap_type cmp m =
     (case siftdown_2 base len k n swap_type cmp m of
        None \<Rightarrow> None
      | Some m' \<Rightarrow>
          (case k of 0 \<Rightarrow> Some m' | Suc k' \<Rightarrow> heapify_from_2 base len k' n swap_type cmp m'))"

declare heapify_from_2.simps [simp del]

definition heapify_2 :: "nat \<Rightarrow> nat \<Rightarrow> nat \<Rightarrow> swap_type_t \<Rightarrow> compar_fn \<Rightarrow> mem \<Rightarrow> mem option" where
  "heapify_2 base len n swap_type cmp m = heapify_from_2 base len (n div 2) n swap_type cmp m"

definition get_swap_type :: "nat \<Rightarrow> nat \<Rightarrow> swap_type_t" where
  "get_swap_type pbase len =
     (if len mod 4 = 0 \<and> pbase mod 4 = 0 then
        if len = 4 then SWAP_WORDS_32
        else if len = 8 \<and> pbase mod 8 = 0 then SWAP_WORDS_64
        else SWAP_BYTES
      else SWAP_BYTES)"

text \<open>The loop that extracts the maximum; it is entered with \<open>n > 0\<close>.\<close>

fun heapsort_loop :: "nat \<Rightarrow> nat \<Rightarrow> nat \<Rightarrow> swap_type_t \<Rightarrow> compar_d_fn \<Rightarrow> nat \<Rightarrow> mem \<Rightarrow> mem option" where
  "heapsort_loop base 0 len swap_type cmp arg m = Some m"
| "heapsort_loop base (Suc n) len swap_type cmp arg m =
     (case do_swap base (base + Suc n * len) len swap_type m of
        None \<Rightarrow> None
      | Some m' \<Rightarrow>
          if n = 0 then Some m'
          else (case siftdown base len 0 n swap_type cmp arg m' of
                  None \<Rightarrow> None
                | Some m'' \<Rightarrow> heapsort_loop base n len swap_type cmp arg m''))"

definition heapsort_r :: "nat \<Rightarrow> nat \<Rightarrow> nat \<Rightarrow> compar_d_fn \<Rightarrow> nat \<Rightarrow> mem \<Rightarrow> mem option" where
  "heapsort_r base n len cmp arg m =
     (if n = 0 then Some m
      else let swap_type = get_swap_type base len in
        case heapify base len n swap_type cmp arg m of
          None \<Rightarrow> None
        | Some m' \<Rightarrow> heapsort_loop base n len swap_type cmp arg m')"

fun heapsort_loop_2 :: "nat \<Rightarrow> nat \<Rightarrow> nat \<Rightarrow> swap_type_t \<Rightarrow> compar_fn \<Rightarrow> mem \<Rightarrow> mem option" where
  "heapsort_loop_2 base 0 len swap_type cmp m = Some m"
| "heapsort_loop_2 base (Suc n) len swap_type cmp m =
     (case do_swap base (base + Suc n * len) len swap_type m of
        None \<Rightarrow> None
      | Some m' \<Rightarrow>
          if n = 0 then Some m'
          else (case siftdown_2 base len 0 n swap_type cmp m' of
                  None \<Rightarrow> None
                | Some m'' \<Rightarrow> heapsort_loop_2 base n len swap_type cmp m''))"

definition heapsort_r_2 :: "nat \<Rightarrow> nat \<Rightarrow> nat \<Rightarrow> compar_fn \<Rightarrow> mem \<Rightarrow> mem option" where
  "heapsort_r_2 base n len cmp m =
     (if n = 0 then Some m
      else let swap_type = get_swap_type base len in
        case heapify_2 base len n swap_type cmp m of
          None \<Rightarrow> None
        | Some m' \<Rightarrow> heapsort_loop_2 base n len swap_type cmp m')"

section \<open>Merge sort\<close>

definition QSORT_STACK_SIZE :: nat where "QSORT_STACK_SIZE = 1024"
definition INDIRECT_SORT_SIZE_THRES :: nat where "INDIRECT_SORT_SIZE_THRES = 32"
definition PTR_SIZE :: nat where "PTR_SIZE = 4"

record msort_param =
  p_s :: nat
  p_var :: swap_type_t
  p_cmp :: compar_d_fn
  p_arg :: nat
  p_t :: nat

record msort_param_2 =
  p2_s :: nat
  p2_var :: swap_type_t
  p2_cmp :: compar_fn
  p2_arg :: nat
  p2_t :: nat

text \<open>One of the merging loops: \<open>w\<close> is the number of bytes it copies and steps by. The result is
  the memory and the final values of \<^verbatim>\<open>b1\<close>, \<^verbatim>\<open>n1\<close>, \<^verbatim>\<open>b2\<close>, \<^verbatim>\<open>n2\<close> and \<^verbatim>\<open>tmp\<close>.\<close>

function merge_loop ::
  "compar_fn \<Rightarrow> nat \<Rightarrow> nat \<Rightarrow> nat \<Rightarrow> nat \<Rightarrow> nat \<Rightarrow> nat \<Rightarrow> mem \<Rightarrow> mem \<times> nat \<times> nat \<times> nat \<times> nat \<times> nat" where
  "merge_loop cmp w b1 n1 b2 n2 tmp m =
     (if 0 < n1 \<and> 0 < n2 then
        if cmp m b1 b2 \<le> 0
        then merge_loop cmp w (b1 + w) (n1 - 1) b2 n2 (tmp + w) (blit m b1 w m tmp)
        else merge_loop cmp w b1 n1 (b2 + w) (n2 - 1) (tmp + w) (blit m b2 w m tmp)
      else (m, b1, n1, b2, n2, tmp))"
  by pat_completeness auto
termination
  by (relation "measure (\<lambda>(cmp, w, b1, n1, b2, n2, tmp, m). n1 + n2)") auto

declare merge_loop.simps [simp del]

text \<open>The comparison and the step of the loop that the \<^verbatim>\<open>switch\<close> selects.\<close>

definition loop_cmp :: "swap_type_t \<Rightarrow> compar_d_fn \<Rightarrow> nat \<Rightarrow> compar_fn" where
  "loop_cmp var cmp arg m a b =
     (case var of
        SWAP_VOID_ARG \<Rightarrow> cmp m (u32_at m a) (u32_at m b) arg
      | _ \<Rightarrow> cmp m a b arg)"

definition loop_cmp_2 :: "swap_type_t \<Rightarrow> compar_fn \<Rightarrow> compar_fn" where
  "loop_cmp_2 var cmp m a b =
     (case var of
        SWAP_VOID_ARG \<Rightarrow> cmp m (u32_at m a) (u32_at m b)
      | _ \<Rightarrow> cmp m a b)"

definition loop_step :: "swap_type_t \<Rightarrow> nat \<Rightarrow> nat" where
  "loop_step var len =
     (case var of SWAP_WORDS_32 \<Rightarrow> 4 | SWAP_WORDS_64 \<Rightarrow> 8 | SWAP_VOID_ARG \<Rightarrow> PTR_SIZE | SWAP_BYTES \<Rightarrow> len)"

function msort_with_tmp :: "msort_param \<Rightarrow> nat \<Rightarrow> nat \<Rightarrow> mem \<Rightarrow> mem" where
  "msort_with_tmp p b n m =
     (if n \<le> 1 then m
      else
        let n1 = n div 2; n2 = n - n1; b1 = b; b2 = b + n1 * p_s p;
            m1 = msort_with_tmp p b1 n1 m;
            m2 = msort_with_tmp p b2 n2 m1 in
        case merge_loop (loop_cmp (p_var p) (p_cmp p) (p_arg p)) (loop_step (p_var p) (p_s p))
               b1 n1 b2 n2 (p_t p) m2 of
          (m3, b1', n1', b2', n2', tmp) \<Rightarrow>
            let m4 = (if 0 < n1' then blit m3 b1' (n1' * p_s p) m3 tmp else m3) in
            blit m4 (p_t p) ((n - n2') * p_s p) m4 b)"
  by pat_completeness auto
termination
  by (relation "measure (\<lambda>(p, b, n, m). n)") auto

declare msort_with_tmp.simps [simp del]

function msort_with_tmp_2 :: "msort_param_2 \<Rightarrow> nat \<Rightarrow> nat \<Rightarrow> mem \<Rightarrow> mem" where
  "msort_with_tmp_2 p b n m =
     (if n \<le> 1 then m
      else
        let n1 = n div 2; n2 = n - n1; b1 = b; b2 = b + n1 * p2_s p;
            m1 = msort_with_tmp_2 p b1 n1 m;
            m2 = msort_with_tmp_2 p b2 n2 m1 in
        case merge_loop (loop_cmp_2 (p2_var p) (p2_cmp p)) (loop_step (p2_var p) (p2_s p))
               b1 n1 b2 n2 (p2_t p) m2 of
          (m3, b1', n1', b2', n2', tmp) \<Rightarrow>
            let m4 = (if 0 < n1' then blit m3 b1' (n1' * p2_s p) m3 tmp else m3) in
            blit m4 (p2_t p) ((n - n2') * p2_s p) m4 b)"
  by pat_completeness auto
termination
  by (relation "measure (\<lambda>(p, b, n, m). n)") auto

declare msort_with_tmp_2.simps [simp del]

section \<open>Indirect merge sort\<close>

text \<open>The loop that fills the table of pointers.\<close>

function fill_ptrs :: "nat \<Rightarrow> nat \<Rightarrow> nat \<Rightarrow> nat \<Rightarrow> mem \<Rightarrow> mem" where
  "fill_ptrs t tmp_storage ip len m =
     (if t < tmp_storage then fill_ptrs (t + PTR_SIZE) tmp_storage (ip + len) len (put_u32 m t ip) else m)"
  by pat_completeness auto
termination
  by (relation "measure (\<lambda>(t, tmp_storage, ip, len, m). tmp_storage - t)") (auto simp: PTR_SIZE_def)

declare fill_ptrs.simps [simp del]

text \<open>The \<^verbatim>\<open>do\<close> loop along one cycle, and the loop over the array.\<close>

partial_function (option) cycle_move ::
  "nat \<Rightarrow> nat \<Rightarrow> nat \<Rightarrow> nat \<Rightarrow> nat \<Rightarrow> nat \<Rightarrow> nat \<Rightarrow> mem \<Rightarrow> (nat \<times> nat \<times> mem) option" where
  "cycle_move b len tp ip j jp kp m =
     (let k = (kp - b) div len;
          m1 = put_u32 m (tp + j * PTR_SIZE) jp;
          m2 = blit m1 kp len m1 jp;
          kp' = u32_at m2 (tp + k * PTR_SIZE) in
      if kp' \<noteq> ip then cycle_move b len tp ip k kp kp' m2 else Some (k, kp, m2))"

declare cycle_move.simps [code]

definition permute_at :: "nat \<Rightarrow> nat \<Rightarrow> nat \<Rightarrow> nat \<Rightarrow> nat \<Rightarrow> nat \<Rightarrow> mem \<Rightarrow> mem option" where
  "permute_at b len tp tmp_storage i ip m =
     (let kp = u32_at m (tp + i * PTR_SIZE) in
      if kp \<noteq> ip then
        (case cycle_move b len tp ip i ip kp (blit m ip len m tmp_storage) of
           None \<Rightarrow> None
         | Some (j, jp, m') \<Rightarrow>
             let m'' = put_u32 m' (tp + j * PTR_SIZE) jp in Some (blit m'' tmp_storage len m'' jp))
      else Some m)"

function permute_from :: "nat \<Rightarrow> nat \<Rightarrow> nat \<Rightarrow> nat \<Rightarrow> nat \<Rightarrow> nat \<Rightarrow> nat \<Rightarrow> mem \<Rightarrow> mem option" where
  "permute_from b n len tp tmp_storage i ip m =
     (if i < n then
        (case permute_at b len tp tmp_storage i ip m of
           None \<Rightarrow> None
         | Some m' \<Rightarrow> permute_from b n len tp tmp_storage (i + 1) (ip + len) m')
      else Some m)"
  by pat_completeness auto
termination
  by (relation "measure (\<lambda>(b, n, len, tp, tmp_storage, i, ip, m). n - i)") auto

declare permute_from.simps [simp del]

definition indirect_msort_with_tmp :: "msort_param \<Rightarrow> nat \<Rightarrow> nat \<Rightarrow> nat \<Rightarrow> mem \<Rightarrow> mem option" where
  "indirect_msort_with_tmp p b n len m =
     (let tp = p_t p + n * PTR_SIZE; tmp_storage = tp + n * PTR_SIZE;
          m1 = fill_ptrs tp tmp_storage b len m;
          m2 = msort_with_tmp p (p_t p + n * PTR_SIZE) n m1 in
      permute_from b n len tp tmp_storage 0 b m2)"

definition indirect_msort_with_tmp_2 :: "msort_param_2 \<Rightarrow> nat \<Rightarrow> nat \<Rightarrow> nat \<Rightarrow> mem \<Rightarrow> mem option" where
  "indirect_msort_with_tmp_2 p b n len m =
     (let tp = p2_t p + n * PTR_SIZE; tmp_storage = tp + n * PTR_SIZE;
          m1 = fill_ptrs tp tmp_storage b len m;
          m2 = msort_with_tmp_2 p (p2_t p + n * PTR_SIZE) n m1 in
      permute_from b n len tp tmp_storage 0 b m2)"

section \<open>The entry points\<close>

definition buffer_size :: "nat \<Rightarrow> nat \<Rightarrow> nat" where
  "buffer_size total_elems len =
     (if INDIRECT_SORT_SIZE_THRES < len then size_cast (2 * total_elems * PTR_SIZE + len)
      else size_cast (total_elems * len))"

definition qsort_r ::
  "nat \<Rightarrow> (nat \<Rightarrow> nat) \<Rightarrow> nat \<Rightarrow> nat \<Rightarrow> nat \<Rightarrow> compar_d_fn \<Rightarrow> nat \<Rightarrow> mem \<Rightarrow> mem option" where
  "qsort_r tmp malloc pbase total_elems len cmp arg m =
     (if total_elems \<le> 1 then Some m
      else
        let total_size = buffer_size total_elems len;
            buf = (if total_size \<le> QSORT_STACK_SIZE then tmp else malloc total_size) in
        if QSORT_STACK_SIZE < total_size \<and> buf = 0 then heapsort_r pbase (total_elems - 1) len cmp arg m
        else if INDIRECT_SORT_SIZE_THRES < len then
          indirect_msort_with_tmp
            \<lparr> p_s = PTR_SIZE, p_var = SWAP_VOID_ARG, p_cmp = cmp, p_arg = arg, p_t = buf \<rparr> pbase total_elems len m
        else
          Some (msort_with_tmp
            \<lparr> p_s = len, p_var = get_swap_type pbase len, p_cmp = cmp, p_arg = arg, p_t = buf \<rparr> pbase total_elems m))"

definition qsort_internal ::
  "nat \<Rightarrow> (nat \<Rightarrow> nat) \<Rightarrow> nat \<Rightarrow> nat \<Rightarrow> nat \<Rightarrow> compar_fn \<Rightarrow> mem \<Rightarrow> mem option" where
  "qsort_internal tmp malloc pbase total_elems len cmp m =
     (if total_elems \<le> 1 then Some m
      else
        let total_size = buffer_size total_elems len;
            buf = (if total_size \<le> QSORT_STACK_SIZE then tmp else malloc total_size) in
        if QSORT_STACK_SIZE < total_size \<and> buf = 0 then heapsort_r_2 pbase (total_elems - 1) len cmp m
        else if INDIRECT_SORT_SIZE_THRES < len then
          indirect_msort_with_tmp_2
            \<lparr> p2_s = PTR_SIZE, p2_var = SWAP_VOID_ARG, p2_cmp = cmp, p2_arg = 0, p2_t = buf \<rparr> pbase total_elems len m
        else
          Some (msort_with_tmp_2
            \<lparr> p2_s = len, p2_var = get_swap_type pbase len, p2_cmp = cmp, p2_arg = 0, p2_t = buf \<rparr> pbase total_elems m))"

definition qsort :: "nat \<Rightarrow> (nat \<Rightarrow> nat) \<Rightarrow> nat \<Rightarrow> nat \<Rightarrow> nat \<Rightarrow> compar_fn \<Rightarrow> mem \<Rightarrow> mem option" where
  "qsort tmp malloc b n len cmp m = qsort_internal tmp malloc b n len cmp m"

section \<open>The two copies agree\<close>

text \<open>A comparison of two arguments as one that is called with a third.\<close>

definition with_arg :: "compar_fn \<Rightarrow> compar_d_fn" where
  "with_arg cmp m a b arg = cmp m a b"

lemma with_arg: "with_arg cmp m a b arg = cmp m a b"
  by (simp add: with_arg_def)

lemma siftdown_2_eq:
  "siftdown_2 base len k n st cmp m = siftdown base len k n st (with_arg cmp) arg m"
proof (induction base len k n st cmp m rule: siftdown_2.induct)
  case (1 base len k n st cmp m)
  define j where "j = (if 2 * k + 1 < n \<and> cmp m (base + (2 * k + 1) * len) (base + (2 * k + 1 + 1) * len) < 0
    then 2 * k + 1 + 1 else 2 * k + 1)"
  note IH = "1.IH" [OF _ refl j_def]
  show ?case
  proof (cases "2 * k + 1 \<le> n \<and> \<not> (j = k \<or> 0 \<le> cmp m (base + k * len) (base + j * len))")
    case True
    then have "siftdown_2 base len j n st cmp m' = siftdown base len j n st (with_arg cmp) arg m'"
      if "do_swap (base + len * j) (base + k * len) len st m = Some m'" for m'
      using IH [OF _ _ that] by blast
    with True show ?thesis
      unfolding siftdown_2.simps [of _ _ k] siftdown.simps [of _ _ k] with_arg Let_def j_def [symmetric]
      by (simp split: option.split)
  next
    case False
    then show ?thesis
      unfolding siftdown_2.simps [of _ _ k] siftdown.simps [of _ _ k] with_arg Let_def j_def [symmetric] by auto
  qed
qed

lemma heapify_from_2_eq:
  "heapify_from_2 base len k n st cmp m = heapify_from base len k n st (with_arg cmp) arg m"
proof (induction base len k n st cmp m rule: heapify_from_2.induct)
  case (1 base len k n st cmp m)
  show ?case
    by (subst heapify_from_2.simps, subst heapify_from.simps)
      (simp add: 1 siftdown_2_eq [of _ _ _ _ _ _ _ arg] split: option.split nat.split)
qed

lemma heapsort_loop_2_eq:
  "heapsort_loop_2 base n len st cmp m = heapsort_loop base n len st (with_arg cmp) arg m"
  by (induction base n len st cmp m rule: heapsort_loop_2.induct)
    (auto simp: siftdown_2_eq [of _ _ _ _ _ _ _ arg] split: option.split)

lemma heapsort_r_2_eq: "heapsort_r_2 base n len cmp m = heapsort_r base n len (with_arg cmp) arg m"
  by (simp add: heapsort_r_2_def heapsort_r_def heapify_def heapify_2_def Let_def
    heapify_from_2_eq [of _ _ _ _ _ _ _ arg] heapsort_loop_2_eq [of _ _ _ _ _ _ arg] split: option.split)

lemma loop_cmp_2_eq: "loop_cmp_2 var cmp = loop_cmp var (with_arg cmp) arg"
  by (intro ext) (simp add: loop_cmp_2_def loop_cmp_def with_arg_def split: swap_type_t.split)

lemma msort_with_tmp_2_eq:
  "msort_with_tmp_2 p b n m =
   msort_with_tmp \<lparr> p_s = p2_s p, p_var = p2_var p, p_cmp = with_arg (p2_cmp p), p_arg = arg, p_t = p2_t p \<rparr> b n m"
proof (induction p b n m rule: msort_with_tmp_2.induct)
  case (1 p b n m)
  let ?q = "\<lparr> p_s = p2_s p, p_var = p2_var p, p_cmp = with_arg (p2_cmp p), p_arg = arg, p_t = p2_t p \<rparr>"
  show ?case
  proof (cases "n \<le> 1")
    case True
    then show ?thesis by (simp add: msort_with_tmp_2.simps [of p b n] msort_with_tmp.simps [of ?q b n])
  next
    case False
    note IH1 = "1.IH"(1) [OF False refl refl refl refl]
    note IH2 = "1.IH"(2) [OF False refl refl refl refl refl, unfolded IH1]
    show ?thesis using False
      by (simp add: msort_with_tmp_2.simps [of p b n] msort_with_tmp.simps [of ?q b n] Let_def IH1 IH2
        loop_cmp_2_eq [of _ _ arg] split: prod.split)
  qed
qed

lemma qsort_internal_eq: "qsort_internal tmp malloc b n len cmp m = qsort_r tmp malloc b n len (with_arg cmp) arg m"
  by (simp add: qsort_internal_def qsort_r_def indirect_msort_with_tmp_2_def indirect_msort_with_tmp_def
    heapsort_r_2_eq [of _ _ _ _ _ arg] msort_with_tmp_2_eq [of _ _ _ _ arg] Let_def cong: if_cong)

end
