(* ===== verification/Qsort_Correct.thy ===== *)
theory Qsort_Correct
  imports Qsort
begin

text \<open>
  The sorting routines do what a caller of \<^verbatim>\<open>qsort\<close> relies on. The merge sort in memory refines the
  merge sort on lists, the indirect one by sorting a table of pointers and then moving the elements
  along the cycles of the permutation it holds, and the heap sort refines the one on lists.
\<close>

section \<open>Arrays in memory\<close>

fun elems :: "mem \<Rightarrow> nat \<Rightarrow> nat \<Rightarrow> nat \<Rightarrow> 8 word list list" where
  "elems m b len 0 = []"
| "elems m b len (Suc n) = bytes_at m b len # elems m (b + len) len n"

lemma length_elems [simp]: "length (elems m b len n) = n"
  by (induction n arbitrary: b) auto

lemma nth_elems: "i < n \<Longrightarrow> elems m b len n ! i = bytes_at m (b + i * len) len"
  by (induction n arbitrary: b i) (auto simp: nth_Cons add.assoc split: nat.split)

lemma elems_agree:
  assumes "agree W m m'" and "span b (n * len) \<inter> W = {}"
  shows "elems m' b len n = elems m b len n"
proof (rule nth_equalityI)
  fix i assume i: "i < length (elems m' b len n)"
  then have "i * len + len \<le> n * len" by (metis Suc_leI add.commute length_elems mult_Suc mult_le_mono1)
  then have "span (b + i * len) len \<subseteq> span b (n * len)" by (intro span_mono) auto
  with assms i show "elems m' b len n ! i = elems m b len n ! i"
    by (simp add: nth_elems) (blast intro: bytes_at_agree)
qed simp

lemma take_elems: "k \<le> n \<Longrightarrow> take k (elems m b len n) = elems m b len k"
  by (rule nth_equalityI) (simp_all add: nth_elems)

lemma drop_elems: "k \<le> n \<Longrightarrow> drop k (elems m b len n) = elems m (b + k * len) len (n - k)"
  by (rule nth_equalityI) (simp_all add: nth_elems algebra_simps)

lemma elems_append: "elems m b len (k + n) = elems m b len k @ elems m (b + k * len) len n"
  using append_take_drop_id [of k "elems m b len (k + n)"] by (simp add: take_elems drop_elems)

lemma elems_blit: "elems (blit f a (n * len) m d) d len n = elems f a len n"
proof (rule nth_equalityI)
  fix i assume i: "i < length (elems (blit f a (n * len) m d) d len n)"
  then have "i * len + len \<le> n * len" by (metis Suc_leI add.commute length_elems mult_Suc mult_le_mono1)
  with i show "elems (blit f a (n * len) m d) d len n ! i = elems f a len n ! i"
    by (simp add: nth_elems bytes_at_blit_in)
qed simp

section \<open>Merging\<close>

text \<open>On the memories that agree with \<open>m0\<close> off \<open>W\<close>, the comparison of two addresses is the comparison
  \<open>d\<close> of the \<open>len\<close> bytes found there, for bytes in \<open>E\<close>.\<close>

definition compares ::
  "mem \<Rightarrow> nat set \<Rightarrow> nat \<Rightarrow> 8 word list set \<Rightarrow> compar_fn \<Rightarrow> (8 word list \<Rightarrow> 8 word list \<Rightarrow> int) \<Rightarrow> bool" where
  "compares m0 W len E cmp d \<longleftrightarrow>
     (\<forall>m x y. agree W m0 m \<longrightarrow> bytes_at m x len \<in> E \<longrightarrow> bytes_at m y len \<in> E \<longrightarrow>
        cmp m x y = d (bytes_at m x len) (bytes_at m y len))"

lemma elems_blit_off:
  assumes "span x (n * len) \<subseteq> A" and "A \<inter> span tmp (len + r) = {}"
  shows "elems (blit m a len m tmp) x len n = elems m x len n"
proof (rule elems_agree [OF agree_blit])
  have "span tmp len \<subseteq> span tmp (len + r)" by (rule span_mono) simp_all
  with assms show "span x (n * len) \<inter> span tmp len = {}" by blast
qed

lemma blit_front:
  assumes "agree (span (tmp + len) r) (blit m a len m tmp) m'"
  shows "agree (span tmp (len + r)) m m'" and "bytes_at m' tmp len = bytes_at m a len"
proof -
  have "span tmp len \<subseteq> span tmp (len + r)" "span (tmp + len) r \<subseteq> span tmp (len + r)" by (rule span_mono; simp)+
  then show "agree (span tmp (len + r)) m m'" by (meson agree_blit agree_mono agree_trans assms)
  have "bytes_at m' tmp len = bytes_at (blit m a len m tmp) tmp len"
    using assms by (rule bytes_at_agree) (auto simp: span_def)
  then show "bytes_at m' tmp len = bytes_at m a len" by (simp add: bytes_at_blit_in)
qed

lemma span_part: "i + k \<le> n \<Longrightarrow> span (b + i * len) (k * len) \<subseteq> span b (n * len)"
proof (rule span_mono)
  assume "i + k \<le> n"
  then have "(i + k) * len \<le> n * len" by (rule mult_le_mono1)
  then show "b + i * len + k * len \<le> b + n * len" by (simp add: algebra_simps)
qed simp

text \<open>What the loop has done when it stops: it took \<open>k1\<close> and \<open>k2\<close> elements of the two runs.\<close>

definition merged ::
  "(8 word list \<Rightarrow> 8 word list \<Rightarrow> int) \<Rightarrow> nat \<Rightarrow> nat \<Rightarrow> nat \<Rightarrow> nat \<Rightarrow> nat \<Rightarrow> nat \<Rightarrow> mem \<Rightarrow> mem \<times> nat \<times> nat \<times> nat \<times> nat \<times> nat \<Rightarrow> nat \<Rightarrow> nat \<Rightarrow> bool" where
  "merged d len b1 n1 b2 n2 tmp m r k1 k2 \<longleftrightarrow> (case r of (m', b1', n1', b2', n2', tmp') \<Rightarrow>
     n1 = k1 + n1' \<and> n2 = k2 + n2' \<and> b1' = b1 + k1 * len \<and> b2' = b2 + k2 * len \<and> tmp' = tmp + (k1 + k2) * len
     \<and> (n1' = 0 \<or> n2' = 0) \<and> agree (span tmp ((k1 + k2) * len)) m m'
     \<and> merge_l d (elems m b1 len n1) (elems m b2 len n2) =
         elems m' tmp len (k1 + k2) @ elems m b1' len n1' @ elems m b2' len n2')"

lemma merged_left:
  assumes r: "merged d len (b1 + len) a b2 n2 (tmp + len) (blit m b1 len m tmp) r k1 k2"
    and off: "span b1 (Suc a * len) \<inter> span tmp (len + (a + n2) * len) = {}" "span b2 (n2 * len) \<inter> span tmp (len + (a + n2) * len) = {}"
    and le: "0 < n2" "d (bytes_at m b1 len) (bytes_at m b2 len) \<le> 0"
  shows "merged d len b1 (Suc a) b2 n2 tmp m r (Suc k1) k2"
proof -
  obtain m' b1' n1' b2' n2' tmp' where rr: "r = (m', b1', n1', b2', n2', tmp')" by (metis surj_pair)
  note k = r [unfolded merged_def rr prod.case]
  have parts: "span (b1 + len) (a * len) \<subseteq> span b1 (Suc a * len)" "span b1' (n1' * len) \<subseteq> span b1 (Suc a * len)"
    "span b2' (n2' * len) \<subseteq> span b2 (n2 * len)"
    using span_part [of 1 a "Suc a" b1 len] span_part [of "Suc k1" n1' "Suc a" b1 len] span_part [of k2 n2' n2 b2 len] k
    by (simp_all add: add.assoc)
  note keep = elems_blit_off [OF parts(1) off(1)] elems_blit_off [OF parts(2) off(1)]
    elems_blit_off [OF subset_refl off(2)] elems_blit_off [OF parts(3) off(2)]
  have "merge_l d (elems m b1 len (Suc a)) (elems m b2 len n2) =
      bytes_at m b1 len # merge_l d (elems m (b1 + len) len a) (elems m b2 len n2)"
    using le by (cases n2) simp_all
  with k [unfolded keep] blit_front [of tmp len "(k1 + k2) * len" m b1 m'] show ?thesis
    unfolding merged_def rr prod.case by (clarsimp simp: add.assoc)
qed

lemma merged_right:
  assumes r: "merged d len b1 n1 (b2 + len) c (tmp + len) (blit m b2 len m tmp) r k1 k2"
    and off: "span b1 (n1 * len) \<inter> span tmp (len + (n1 + c) * len) = {}" "span b2 (Suc c * len) \<inter> span tmp (len + (n1 + c) * len) = {}"
    and gt: "0 < n1" "\<not> d (bytes_at m b1 len) (bytes_at m b2 len) \<le> 0"
  shows "merged d len b1 n1 b2 (Suc c) tmp m r k1 (Suc k2)"
proof -
  obtain m' b1' n1' b2' n2' tmp' where rr: "r = (m', b1', n1', b2', n2', tmp')" by (metis surj_pair)
  note k = r [unfolded merged_def rr prod.case]
  have parts: "span (b2 + len) (c * len) \<subseteq> span b2 (Suc c * len)" "span b2' (n2' * len) \<subseteq> span b2 (Suc c * len)"
    "span b1' (n1' * len) \<subseteq> span b1 (n1 * len)"
    using span_part [of 1 c "Suc c" b2 len] span_part [of "Suc k2" n2' "Suc c" b2 len] span_part [of k1 n1' n1 b1 len] k
    by (simp_all add: add.assoc)
  note keep = elems_blit_off [OF parts(1) off(2)] elems_blit_off [OF parts(2) off(2)]
    elems_blit_off [OF subset_refl off(1)] elems_blit_off [OF parts(3) off(1)]
  have "merge_l d (elems m b1 len n1) (elems m b2 len (Suc c)) =
      bytes_at m b2 len # merge_l d (elems m b1 len n1) (elems m (b2 + len) len c)"
    using gt by (cases n1) simp_all
  with k [unfolded keep] blit_front [of tmp len "(k1 + k2) * len" m b2 m'] show ?thesis
    unfolding merged_def rr prod.case by (clarsimp simp: add.assoc)
qed

lemma merge_loop:
  "\<lbrakk>compares m0 W len E cmp d; agree W m0 m; span tmp ((n1 + n2) * len) \<subseteq> W;
    span b1 (n1 * len) \<inter> span tmp ((n1 + n2) * len) = {}; span b2 (n2 * len) \<inter> span tmp ((n1 + n2) * len) = {};
    set (elems m b1 len n1) \<subseteq> E; set (elems m b2 len n2) \<subseteq> E\<rbrakk> \<Longrightarrow>
    \<exists>k1 k2. merged d len b1 n1 b2 n2 tmp m (merge_loop cmp len b1 n1 b2 n2 tmp m) k1 k2"
proof (induction cmp len b1 n1 b2 n2 tmp m rule: merge_loop.induct)
  case (1 cmp len b1 n1 b2 n2 tmp m)
  note pre = "1.prems"
  show ?case
  proof (cases "0 < n1 \<and> 0 < n2")
    case False
    then have "merged d len b1 n1 b2 n2 tmp m (m, b1, n1, b2, n2, tmp) 0 0" by (auto simp: merged_def agree_refl)
    then show ?thesis unfolding merge_loop.simps [of cmp len b1 n1 b2 n2 tmp m] if_not_P [OF False] by blast
  next
    case pos: True
    then obtain a c where n: "n1 = Suc a" "n2 = Suc c" by (metis gr0_implies_Suc)
    have cmp: "cmp m b1 b2 = d (bytes_at m b1 len) (bytes_at m b2 len)"
      using pre(1,2,6,7) unfolding n compares_def by simp
    have rest: "span (tmp + len) ((a + n2) * len) \<subseteq> span tmp ((n1 + n2) * len)"
      "span tmp len \<subseteq> span tmp ((n1 + n2) * len)" by (rule span_mono; simp add: n)+
    have ag: "agree W m0 (blit m x len m tmp)" for x
      by (rule agree_trans [OF pre(2)], rule agree_mono [OF agree_blit], rule order_trans [OF rest(2) pre(3)])
    have part1: "span (b1 + len) (a * len) \<subseteq> span b1 (n1 * len)" and part2: "span (b2 + len) (c * len) \<subseteq> span b2 (n2 * len)"
      by (rule span_mono; simp add: n)+
    have w: "(n1 + n2) * len = len + (a + n2) * len" "(n1 + n2) * len = len + (n1 + c) * len" using n by simp_all
    note keep = elems_blit_off [OF _ pre(4) [unfolded w(1)]] elems_blit_off [OF _ pre(5) [unfolded w(1)]]
    show ?thesis
    proof (cases "cmp m b1 b2 \<le> 0")
      case le: True
      note eq = merge_loop.simps [of cmp len b1 n1 b2 n2 tmp m, unfolded if_P [OF pos] if_P [OF le]]
      have "\<exists>k1 k2. merged d len (b1 + len) (n1 - 1) b2 n2 (tmp + len) (blit m b1 len m tmp)
          (merge_loop cmp len (b1 + len) (n1 - 1) b2 n2 (tmp + len) (blit m b1 len m tmp)) k1 k2"
      proof (rule "1.IH"(1) [OF pos le pre(1) ag])
        show "span (tmp + len) ((n1 - 1 + n2) * len) \<subseteq> W"
          "span (b1 + len) ((n1 - 1) * len) \<inter> span (tmp + len) ((n1 - 1 + n2) * len) = {}"
          "span b2 (n2 * len) \<inter> span (tmp + len) ((n1 - 1 + n2) * len) = {}"
          using pre(3,4,5) rest(1) part1 n by auto
        show "set (elems (blit m b1 len m tmp) (b1 + len) len (n1 - 1)) \<subseteq> E" "set (elems (blit m b1 len m tmp) b2 len n2) \<subseteq> E"
          using pre(6,7) n(1) keep(1) [OF part1] keep(2) [OF subset_refl] by simp_all
      qed
      then obtain k1 k2 where "merged d len (b1 + len) a b2 n2 (tmp + len) (blit m b1 len m tmp)
          (merge_loop cmp len b1 n1 b2 n2 tmp m) k1 k2"
        using n(1) unfolding eq by auto
      then have "merged d len b1 (Suc a) b2 n2 tmp m (merge_loop cmp len b1 n1 b2 n2 tmp m) (Suc k1) k2"
        by (rule merged_left) (use pre(4,5) w(1) n(1) pos le cmp in simp_all)
      then show ?thesis unfolding n(1) by blast
    next
      case gt: False
      note eq = merge_loop.simps [of cmp len b1 n1 b2 n2 tmp m, unfolded if_P [OF pos] if_not_P [OF gt]]
      have "\<exists>k1 k2. merged d len b1 n1 (b2 + len) (n2 - 1) (tmp + len) (blit m b2 len m tmp)
          (merge_loop cmp len b1 n1 (b2 + len) (n2 - 1) (tmp + len) (blit m b2 len m tmp)) k1 k2"
      proof (rule "1.IH"(2) [OF pos gt pre(1) ag])
        show "span (tmp + len) ((n1 + (n2 - 1)) * len) \<subseteq> W"
          "span b1 (n1 * len) \<inter> span (tmp + len) ((n1 + (n2 - 1)) * len) = {}"
          "span (b2 + len) ((n2 - 1) * len) \<inter> span (tmp + len) ((n1 + (n2 - 1)) * len) = {}"
          using pre(3,4,5) rest(1) part2 n by auto
        show "set (elems (blit m b2 len m tmp) b1 len n1) \<subseteq> E" "set (elems (blit m b2 len m tmp) (b2 + len) len (n2 - 1)) \<subseteq> E"
          using pre(6,7) n(2) keep(1) [OF subset_refl] keep(2) [OF part2] by simp_all
      qed
      then obtain k1 k2 where "merged d len b1 n1 (b2 + len) c (tmp + len) (blit m b2 len m tmp)
          (merge_loop cmp len b1 n1 b2 n2 tmp m) k1 k2"
        using n(2) unfolding eq by auto
      then have "merged d len b1 n1 b2 (Suc c) tmp m (merge_loop cmp len b1 n1 b2 n2 tmp m) k1 (Suc k2)"
        by (rule merged_right) (use pre(4,5) w(2) n(2) pos gt cmp in simp_all)
      then show ?thesis unfolding n(2) by blast
    qed
  qed
qed

text \<open>The two copies after the loop: what is left of the first run goes to the buffer, and the buffer
  back over the array, whose end is already in place.\<close>

lemma merge_back:
  assumes mg: "merged d len b n1 (b + n1 * len) n2 t m (m', b1', n1', b2', n2', tmp) k1 k2"
    and off: "span b ((n1 + n2) * len) \<inter> span t ((n1 + n2) * len) = {}"
    and m4: "m4 = (if 0 < n1' then blit m' b1' (n1' * len) m' tmp else m')"
    and m5: "m5 = blit m4 t ((n1 + n2 - n2') * len) m4 b"
  shows "elems m5 b len (n1 + n2) = merge_l d (elems m b len n1) (elems m (b + n1 * len) len n2)"
    and "agree (span b ((n1 + n2) * len) \<union> span t ((n1 + n2) * len)) m m5"
proof -
  note k = mg [unfolded merged_def prod.case]
  have m4': "m4 = blit m' b1' (n1' * len) m' tmp" by (cases n1') (simp_all add: m4)
  define K where "K = k1 + k2 + n1'"
  have K: "n1 + n2 - n2' = K" "n1 + n2 = K + n2'" "b2' = b + K * len" using k by (auto simp: K_def algebra_simps)
  have tmp: "tmp = t + (k1 + k2) * len" "b1' = b + k1 * len" and ag3: "agree (span t ((k1 + k2) * len)) m m'" using k by auto
  have in_t: "span t ((k1 + k2) * len) \<subseteq> span t ((n1 + n2) * len)" "span tmp (n1' * len) \<subseteq> span t ((n1 + n2) * len)"
    "span t (K * len) \<subseteq> span t ((n1 + n2) * len)"
    using span_part [of 0 "k1 + k2" "n1 + n2" t len] span_part [of "k1 + k2" n1' "n1 + n2" t len] span_part [of 0 K "n1 + n2" t len] K
    by (auto simp: tmp K_def)
  have in_b: "span b1' (n1' * len) \<subseteq> span b ((n1 + n2) * len)" "span b2' (n2' * len) \<subseteq> span b ((n1 + n2) * len)"
    "span b (K * len) \<subseteq> span b ((n1 + n2) * len)"
    unfolding tmp(2) K(3)
    using span_part [of k1 n1' "n1 + n2" b len] span_part [of K n2' "n1 + n2" b len] span_part [of 0 K "n1 + n2" b len] K(2)
    by (simp_all add: K_def)
  have ag4: "agree (span tmp (n1' * len)) m' m4" unfolding m4' by (rule agree_blit)
  have ag34: "agree (span t ((n1 + n2) * len)) m m4"
    using agree_mono [OF ag3 in_t(1)] agree_mono [OF ag4 in_t(2)] by (rule agree_trans)
  have ag5: "agree (span b (K * len)) m4 m5" unfolding m5 K(1) by (rule agree_blit)
  show "agree (span b ((n1 + n2) * len) \<union> span t ((n1 + n2) * len)) m m5"
    using agree_trans [OF agree_mono [OF ag34 Un_upper2] agree_mono [OF ag5 order_trans [OF in_b(3) Un_upper1]]] .
  have front: "elems m5 b len K = elems m4 t len K" unfolding m5 K(1) by (rule elems_blit)
  have tail: "elems m5 b2' len n2' = elems m b2' len n2'"
  proof -
    have "span b2' (n2' * len) \<inter> span b (K * len) = {}" unfolding K(3) by (rule span_apart) simp
    then have "elems m5 b2' len n2' = elems m4 b2' len n2'" by (rule elems_agree [OF ag5])
    also have "\<dots> = elems m b2' len n2'" using off in_b(2) by (intro elems_agree [OF ag34]) blast
    finally show ?thesis .
  qed
  have "elems m4 t len (k1 + k2) = elems m' t len (k1 + k2)"
    by (rule elems_agree [OF ag4]) (unfold tmp, rule span_apart, simp)
  moreover have "elems m4 tmp len n1' = elems m' b1' len n1'" unfolding m4' by (rule elems_blit)
  moreover have "elems m' b1' len n1' = elems m b1' len n1'"
    using off in_b(1) in_t(1) by (intro elems_agree [OF ag3]) blast
  ultimately have mid: "elems m4 t len K = elems m' t len (k1 + k2) @ elems m b1' len n1'"
    unfolding K_def elems_append [of _ _ _ "k1 + k2"] tmp(1) by simp
  show "elems m5 b len (n1 + n2) = merge_l d (elems m b len n1) (elems m (b + n1 * len) len n2)"
  proof -
    have "elems m5 b len (n1 + n2) = elems m5 b len K @ elems m5 b2' len n2'" unfolding K(2,3) by (rule elems_append)
    also have "\<dots> = elems m' t len (k1 + k2) @ elems m b1' len n1' @ elems m b2' len n2'"
      by (simp only: front tail mid append_assoc)
    also have "\<dots> = merge_l d (elems m b len n1) (elems m (b + n1 * len) len n2)" using k by argo
    finally show ?thesis .
  qed
qed

lemma set_msort_l: "set (msort_l c xs) = set xs"
  by (metis mset_msort_l set_mset_mset)

lemma msort_with_tmp:
  "\<lbrakk>loop_step (p_var p) (p_s p) = p_s p; compares m0 W (p_s p) E (loop_cmp (p_var p) (p_cmp p) (p_arg p)) d;
    agree W m0 m; span b (n * p_s p) \<union> span (p_t p) (n * p_s p) \<subseteq> W;
    span b (n * p_s p) \<inter> span (p_t p) (n * p_s p) = {}; set (elems m b (p_s p) n) \<subseteq> E\<rbrakk> \<Longrightarrow>
   elems (msort_with_tmp p b n m) b (p_s p) n = msort_l d (elems m b (p_s p) n)
   \<and> agree (span b (n * p_s p) \<union> span (p_t p) (n * p_s p)) m (msort_with_tmp p b n m)"
proof (induction p b n m rule: msort_with_tmp.induct)
  case (1 p b n m)
  note pre = "1.prems"
  show ?case
  proof (cases "n \<le> 1")
    case True
    then show ?thesis by (simp add: msort_with_tmp.simps [of p b n m] msort_l.simps [of d] agree_refl)
  next
    case False
    define len where "len = p_s p"
    define n1 where "n1 = n div 2"
    define n2 where "n2 = n - n1"
    define b2 where "b2 = b + n1 * len"
    define m1 where "m1 = msort_with_tmp p b n1 m"
    define m2 where "m2 = msort_with_tmp p b2 n2 m1"
    let ?t = "p_t p"
    note IH1 = "1.IH"(1) [OF False n1_def n2_def refl b2_def [unfolded len_def]]
    note IH2 = "1.IH"(2) [OF False n1_def n2_def refl b2_def [unfolded len_def] m1_def]
    have n: "n = n1 + n2" "n1 \<le> n" "n2 \<le> n" unfolding n1_def n2_def by simp_all
    have sub: "span b (n1 * len) \<subseteq> span b (n * len)" "span b2 (n2 * len) \<subseteq> span b (n * len)"
      "span ?t (n1 * len) \<subseteq> span ?t (n * len)" "span ?t (n2 * len) \<subseteq> span ?t (n * len)"
      using span_part [of 0 n1 n b len] span_part [of n1 n2 n b len] span_part [of 0 n1 n ?t len] span_part [of 0 n2 n ?t len] n
      by (simp_all add: b2_def)
    have apart: "span b (n1 * len) \<inter> span b2 (n2 * len) = {}" unfolding b2_def by (rule span_apart) simp
    have split: "elems m b len n = elems m b len n1 @ elems m b2 len n2" unfolding n(1) b2_def by (rule elems_append)
    note pre' = pre [folded len_def]
    have w: "span b (n1 * len) \<union> span ?t (n1 * len) \<subseteq> W" "span b2 (n2 * len) \<union> span ?t (n2 * len) \<subseteq> W"
      using pre'(4) sub by blast+
    have off: "span b (n1 * len) \<inter> span ?t (n1 * len) = {}" "span b2 (n2 * len) \<inter> span ?t (n2 * len) = {}"
      using pre'(5) sub by blast+
    have e: "set (elems m b len n1) \<subseteq> E" "set (elems m b2 len n2) \<subseteq> E" using pre'(6) by (simp_all add: split)
    have r1: "elems m1 b len n1 = msort_l d (elems m b len n1)" and a1: "agree (span b (n1 * len) \<union> span ?t (n1 * len)) m m1"
      using IH1 [folded len_def m1_def, OF pre'(1-3)] w(1) off(1) e(1) by blast+
    have ag1: "agree W m0 m1" using agree_trans [OF pre'(3) agree_mono [OF a1]] pre'(4) sub by blast
    have k1: "elems m1 b2 len n2 = elems m b2 len n2"
      using pre'(5) sub apart by (intro elems_agree [OF a1]) blast
    have r2: "elems m2 b2 len n2 = msort_l d (elems m b2 len n2)" and a2: "agree (span b2 (n2 * len) \<union> span ?t (n2 * len)) m1 m2"
      using IH2 [folded len_def m2_def, OF pre'(1,2) ag1] w(2) off(2) e(2) unfolding k1 by blast+
    have ag2: "agree W m0 m2" using agree_trans [OF ag1 agree_mono [OF a2]] pre'(4) sub by blast
    have k2: "elems m2 b len n1 = msort_l d (elems m b len n1)"
      unfolding r1 [symmetric] using pre'(5) sub apart by (intro elems_agree [OF a2]) blast
    let ?r = "merge_loop (loop_cmp (p_var p) (p_cmp p) (p_arg p)) len b n1 b2 n2 ?t m2"
    obtain k l where mg: "merged d len b n1 b2 n2 ?t m2 ?r k l"
    proof -
      have "span ?t ((n1 + n2) * len) \<subseteq> W" "span b (n1 * len) \<inter> span ?t ((n1 + n2) * len) = {}"
        "span b2 (n2 * len) \<inter> span ?t ((n1 + n2) * len) = {}"
        using pre'(4,5) sub unfolding n(1) [symmetric] by blast+
      moreover have "set (elems m2 b len n1) \<subseteq> E" "set (elems m2 b2 len n2) \<subseteq> E"
        using e unfolding k2 r2 set_msort_l .
      ultimately show ?thesis using merge_loop [OF pre'(2) ag2] that by blast
    qed
    obtain m3 b1' n1' b2' n2' tmp where r: "?r = (m3, b1', n1', b2', n2', tmp)" by (metis surj_pair)
    define m4 where "m4 = (if 0 < n1' then blit m3 b1' (n1' * len) m3 tmp else m3)"
    define m5 where "m5 = blit m4 ?t ((n1 + n2 - n2') * len) m4 b"
    have res: "msort_with_tmp p b n m = m5"
      unfolding msort_with_tmp.simps [of p b n m] if_not_P [OF False] Let_def n1_def [symmetric] n2_def [symmetric]
        len_def [symmetric] b2_def [symmetric] m1_def [symmetric] m2_def [symmetric] pre'(1) r prod.case m4_def [symmetric]
      unfolding m5_def n(1) [symmetric] by simp
    note bk = merge_back [OF mg [unfolded r, unfolded b2_def] _ m4_def m5_def, folded n(1) b2_def, OF pre'(5)]
    have "elems m5 b len n = msort_l d (elems m b len n)"
    proof -
      have "take (length (elems m b len n) div 2) (elems m b len n) = elems m b len n1"
        "drop (length (elems m b len n) div 2) (elems m b len n) = elems m b2 len n2"
        using n(2) by (simp_all add: take_elems drop_elems flip: n1_def n2_def b2_def)
      with bk(1) False k2 r2 show ?thesis by (subst msort_l.simps) (simp add: Let_def)
    qed
    moreover have "agree (span b (n * len) \<union> span ?t (n * len)) m m5"
      using agree_trans [OF agree_mono [OF a1] agree_trans [OF agree_mono [OF a2] bk(2)]] sub by blast
    ultimately show ?thesis unfolding res len_def by blast
  qed
qed

section \<open>Swapping\<close>

lemma exchange_apply:
  "span a w \<inter> span b w = {} \<Longrightarrow>
   exchange w a b m x =
     (if x \<in> span a w then m (b + (x - a)) else if x \<in> span b w then m (a + (x - b)) else m x)"
  by (auto simp: exchange_def blit_def span_def)

lemma span_disjoint: "span a n \<inter> span b n = {} \<Longrightarrow> a + n \<le> b \<or> b + n \<le> a"
proof (rule ccontr)
  assume d: "span a n \<inter> span b n = {}" and "\<not> (a + n \<le> b \<or> b + n \<le> a)"
  then have "max a b \<in> span a n \<inter> span b n" by (auto simp: span_def)
  with d show False by simp
qed

lemma exchange_at:
  assumes "a + w \<le> b \<or> b + w \<le> a"
  shows "i < w \<Longrightarrow> exchange w a b m (a + i) = m (b + i)" and "i < w \<Longrightarrow> exchange w a b m (b + i) = m (a + i)"
    and "x < a \<or> a + w \<le> x \<Longrightarrow> x < b \<or> b + w \<le> x \<Longrightarrow> exchange w a b m x = m x"
  using assms by (auto simp: exchange_def blit_def)

lemma exchange_join:
  assumes "span a (v + w) \<inter> span b (v + w) = {}"
  shows "exchange w (a + v) (b + v) (exchange v a b m) = exchange (v + w) a b m" (is "?f = ?h")
    and "exchange v a b (exchange w (a + v) (b + v) m) = exchange (v + w) a b m" (is "?g = ?h")
proof -
  have ap: "a + (v + w) \<le> b \<or> b + (v + w) \<le> a" using assms by (rule span_disjoint)
  then have ap1: "a + v \<le> b \<or> b + v \<le> a" and ap2: "a + v + w \<le> b + v \<or> b + v + w \<le> a + v" by auto
  have lo: "?f x = ?h x \<and> ?g x = ?h x"
    if "x = a + i \<and> y = b + i \<or> x = b + i \<and> y = a + i" and i: "i < v" for x y i
  proof -
    have h: "?h x = m y" using that exchange_at(1,2) [OF ap, of i m] by auto
    have off: "x < a + v \<or> a + v + w \<le> x" "x < b + v \<or> b + v + w \<le> x" "y < a + v \<or> a + v + w \<le> y" "y < b + v \<or> b + v + w \<le> y"
      using that ap by auto
    have "exchange v a b m x = m y" "?g x = exchange w (a + v) (b + v) m y"
      using that exchange_at(1,2) [OF ap1 i] by auto
    with h exchange_at(3) [OF ap2 off(1,2)] exchange_at(3) [OF ap2 off(3,4)] show ?thesis by simp
  qed
  have hi: "?f x = ?h x \<and> ?g x = ?h x"
    if "x = a + v + i \<and> y = b + v + i \<or> x = b + v + i \<and> y = a + v + i" and i: "i < w" for x y i
  proof -
    have h: "?h x = m y" using that exchange_at(1,2) [OF ap, of "v + i" m] by (auto simp: add.assoc)
    have off: "x < a \<or> a + v \<le> x" "x < b \<or> b + v \<le> x" "y < a \<or> a + v \<le> y" "y < b \<or> b + v \<le> y"
      using that ap by auto
    have "exchange w (a + v) (b + v) m x = m y" "?f x = exchange v a b m y"
      using that exchange_at(1,2) [OF ap2 i] by auto
    with h exchange_at(3) [OF ap1 off(1,2)] exchange_at(3) [OF ap1 off(3,4)] show ?thesis by simp
  qed
  have "?f x = ?h x \<and> ?g x = ?h x" for x
  proof -
    consider "a \<le> x" "x < a + v" | "b \<le> x" "x < b + v" | "a + v \<le> x" "x < a + v + w" | "b + v \<le> x" "x < b + v + w"
      | "x < a \<or> a + (v + w) \<le> x" "x < b \<or> b + (v + w) \<le> x"
      by linarith
    then show ?thesis
    proof cases
      case 1
      then show ?thesis using lo [where x = x and i = "x - a" and y = "b + (x - a)"] by simp
    next
      case 2
      then show ?thesis using lo [where x = x and i = "x - b" and y = "a + (x - b)"] by simp
    next
      case 3
      then show ?thesis using hi [where x = x and i = "x - (a + v)" and y = "b + v + (x - (a + v))"] by simp
    next
      case 4
      then show ?thesis using hi [where x = x and i = "x - (b + v)" and y = "a + v + (x - (b + v))"] by simp
    next
      case 5
      then have "x < a \<or> a + v \<le> x" "x < b \<or> b + v \<le> x" "x < a + v \<or> a + v + w \<le> x" "x < b + v \<or> b + v + w \<le> x" by auto
      then show ?thesis by (simp only: exchange_at(3) [OF ap 5] exchange_at(3) [OF ap1] exchange_at(3) [OF ap2])
    qed
  qed
  then show "?f = ?h" "?g = ?h" by (auto simp: fun_eq_iff)
qed

lemma memswap_bytes: "span p1 n \<inter> span p2 n = {} \<Longrightarrow> memswap_bytes p1 p2 n m = exchange n p1 p2 m"
proof (induction n arbitrary: m)
  case 0
  then show ?case by (simp add: exchange_def)
next
  case (Suc n)
  have "span p1 n \<subseteq> span p1 (Suc n)" "span p2 n \<subseteq> span p2 (Suc n)" by (rule span_mono; simp)+
  with Suc.prems have "span p1 n \<inter> span p2 n = {}" by blast
  then show ?case using exchange_join(2) [of p1 n 1 p2 m] Suc by simp
qed

lemma memswap_blocks:
  "\<lbrakk>span p1 n \<inter> span p2 n = {}; memswap_blocks p1 p2 n m = (q1, q2, n', m')\<rbrakk> \<Longrightarrow>
   memswap_bytes q1 q2 n' m' = exchange n p1 p2 m"
proof (induction p1 p2 n m rule: memswap_blocks.induct)
  case (1 p1 p2 n m)
  let ?g = SWAP_GENERIC_SIZE
  show ?case
  proof (cases "?g < n")
    case False
    with "1.prems" show ?thesis by (auto simp: memswap_blocks.simps [of p1 p2 n m] memswap_bytes)
  next
    case True
    have "span (p1 + ?g) (n - ?g) \<subseteq> span p1 n" "span (p2 + ?g) (n - ?g) \<subseteq> span p2 n"
      using True by (intro span_mono; simp)+
    then have "span (p1 + ?g) (n - ?g) \<inter> span (p2 + ?g) (n - ?g) = {}" using "1.prems"(1) by blast
    then have "memswap_bytes q1 q2 n' m' = exchange (n - ?g) (p1 + ?g) (p2 + ?g) (exchange ?g p1 p2 m)"
      using "1.IH" [OF True] "1.prems"(2) True by (simp add: memswap_blocks.simps [of p1 p2 n m])
    also have "\<dots> = exchange n p1 p2 m"
      using exchange_join(1) [of p1 ?g "n - ?g" p2 m] "1.prems"(1) True by simp
    finally show ?thesis .
  qed
qed

lemma memswap: "span p1 n \<inter> span p2 n = {} \<Longrightarrow> memswap p1 p2 n m = exchange n p1 p2 m"
  by (auto simp: memswap_def memswap_blocks split: prod.split)

lemma do_swap:
  assumes "span a len \<inter> span b len = {}"
  shows "do_swap a b len (get_swap_type base len) m = Some (exchange len a b m)"
proof -
  have "size_sub 8 8 = 0" "size_sub 4 4 = 0" by (simp_all add: size_sub_def)
  then have "swap_words_64 a b 8 m = Some (exchange 8 a b m)" "swap_words_32 a b 4 m = Some (exchange 4 a b m)"
    by (simp_all add: swap_words_64.simps [of a b 8] swap_words_32.simps [of a b 4])
  then show ?thesis using assms by (auto simp: do_swap_def get_swap_type_def memswap)
qed

lemma span_elem: "i < n \<Longrightarrow> span (b + i * len) len \<subseteq> span b (n * len)"
  using span_part [of i 1 n b len] by simp

lemma span_elems_apart: "i \<noteq> j \<Longrightarrow> span (b + i * len) len \<inter> span (b + j * len) len = {}"
proof -
  have *: "i * len + len \<le> j * len" if "i < j" for i j :: nat
    using mult_le_mono1 [of "Suc i" j len] that by simp
  assume "i \<noteq> j"
  then consider "i < j" | "j < i" by linarith
  then show ?thesis
  proof cases
    case 1
    with * [OF 1] show ?thesis by (intro span_apart) simp
  next
    case 2
    with * [OF 2] show ?thesis by (intro span_apart) simp
  qed
qed

lemma elems_exchange:
  assumes "i < n" and "j < n" and "i \<noteq> j"
  shows "elems (exchange len (b + i * len) (b + j * len) m) b len n = swap_l (elems m b len n) i j"
    and "agree (span b (n * len)) m (exchange len (b + i * len) (b + j * len) m)"
proof -
  note ap = span_elems_apart [OF assms(3), of b len]
  note ex = exchange_at [OF span_disjoint [OF ap], of _ m]
  have "bytes_at (exchange len (b + i * len) (b + j * len) m) (b + a * len) len =
      bytes_at m (b + (if a = i then j else if a = j then i else a) * len) len" for a
  proof -
    have "exchange len (b + i * len) (b + j * len) m (b + a * len + k) = m (b + a * len + k)" if "a \<noteq> i" "a \<noteq> j" "k < len" for k
      using span_disjoint [OF span_elems_apart [OF that(1), of b len]] span_disjoint [OF span_elems_apart [OF that(2), of b len]] that(3)
      by (intro exchange_at(3) [OF span_disjoint [OF ap]]) auto
    then show ?thesis using ex(1,2) by (auto simp: bytes_at_def)
  qed
  with assms show "elems (exchange len (b + i * len) (b + j * len) m) b len n = swap_l (elems m b len n) i j"
    by (intro nth_equalityI) (auto simp: nth_elems nth_swap_l)
  show "agree (span b (n * len)) m (exchange len (b + i * len) (b + j * len) m)"
    unfolding agree_def exchange_apply [OF ap]
    using span_elem [OF assms(1), of b len] span_elem [OF assms(2), of b len] by auto
qed

section \<open>Heap sort in memory\<close>

text \<open>The comparison function of the caller looks at the \<open>len\<close> bytes of the two elements.\<close>

definition compares_all :: "nat \<Rightarrow> compar_d_fn \<Rightarrow> nat \<Rightarrow> (8 word list \<Rightarrow> 8 word list \<Rightarrow> int) \<Rightarrow> bool" where
  "compares_all len cmp arg d \<longleftrightarrow> (\<forall>m x y. cmp m x y arg = d (bytes_at m x len) (bytes_at m y len))"

text \<open>\<open>m'\<close> holds the array \<open>f\<close> makes of the array of \<open>m\<close>, and is otherwise \<open>m\<close>.\<close>

definition arranged :: "nat \<Rightarrow> nat \<Rightarrow> nat \<Rightarrow> mem \<Rightarrow> 8 word list list \<Rightarrow> mem \<Rightarrow> bool" where
  "arranged base len N m ys m' \<longleftrightarrow> elems m' base len N = ys \<and> agree (span base (N * len)) m m'"

lemma arranged_trans: "arranged base len N m ys m' \<Longrightarrow> arranged base len N m' zs m'' \<Longrightarrow> arranged base len N m zs m''"
  by (auto simp: arranged_def intro: agree_trans)

lemma do_swap_elems:
  assumes "i < N" and "j < N" and "i \<noteq> j"
  shows "\<exists>m'. do_swap (base + i * len) (base + j * len) len (get_swap_type base len) m = Some m'
    \<and> arranged base len N m (swap_l (elems m base len N) i j) m'"
  using do_swap [OF span_elems_apart [OF assms(3)]] elems_exchange [OF assms] by (simp add: arranged_def)

lemma siftdown:
  "compares_all len cmp arg d \<Longrightarrow> n < N \<Longrightarrow>
   \<exists>m'. siftdown base len k n (get_swap_type base len) cmp arg m = Some m'
     \<and> arranged base len N m (siftdown_l d (elems m base len N) k n) m'"
proof (induction "n - k" arbitrary: k m rule: less_induct)
  case (less k m)
  let ?st = "get_swap_type base len" and ?xs = "elems m base len N"
  have cmp: "cmp m (base + i * len) (base + j * len) arg = d (?xs ! i) (?xs ! j)" if "i < N" "j < N" for i j
    using less.prems(1) that by (simp add: compares_all_def nth_elems)
  show ?case
  proof (cases "2 * k + 1 \<le> n")
    case False
    then show ?thesis by (simp add: siftdown.simps [of base len k n] siftdown_l.simps [of d ?xs k n] arranged_def agree_refl)
  next
    case True
    define j where "j = greater_child d ?xs k n"
    have j: "k < j" "j < N" "j \<le> n" "k < N" using True less.prems(2) by (auto simp: j_def greater_child_def)
    have jc: "(if 2 * k + 1 < n \<and> cmp m (base + (2 * k + 1) * len) (base + (2 * k + 1 + 1) * len) arg < 0
        then 2 * k + 1 + 1 else 2 * k + 1) = j"
      using cmp [of "2 * k + 1" "2 * k + 2"] less.prems(2) by (auto simp: j_def greater_child_def)
    note unf = siftdown.simps [of base len k n ?st cmp arg m] siftdown_l.simps [of d ?xs k n]
    show ?thesis
    proof (cases "0 \<le> d (?xs ! k) (?xs ! j)")
      case stop: True
      then show ?thesis using True j cmp [of k j]
        unfolding unf Let_def jc j_def [symmetric] by (simp add: arranged_def agree_refl)
    next
      case False
      obtain m' where m': "do_swap (base + j * len) (base + k * len) len ?st m = Some m'"
          "arranged base len N m (swap_l ?xs j k) m'"
        using do_swap_elems [of j N k base len m] j by auto
      have "n - j < n - k" using j by simp
      then obtain m'' where m'': "siftdown base len j n ?st cmp arg m' = Some m''"
          "arranged base len N m' (siftdown_l d (elems m' base len N) j n) m''"
        using less.hyps [of j m'] less.prems by blast
      have "siftdown base len k n ?st cmp arg m = Some m''"
        using True False j cmp [of k j] m'(1) m''(1) unfolding unf Let_def jc by (simp add: mult.commute)
      moreover have "siftdown_l d ?xs k n = siftdown_l d (elems m' base len N) j n"
        using True False m'(2) unfolding unf Let_def j_def [symmetric] by (simp add: arranged_def)
      ultimately show ?thesis using arranged_trans [OF m'(2) m''(2)] by simp
    qed
  qed
qed

lemma heapify_from:
  "compares_all len cmp arg d \<Longrightarrow> n < N \<Longrightarrow>
   \<exists>m'. heapify_from base len k n (get_swap_type base len) cmp arg m = Some m'
     \<and> arranged base len N m (heapify_l d (elems m base len N) k n) m'"
proof (induction k arbitrary: m)
  case 0
  from siftdown [OF this, of base 0 m] show ?case
    by (auto simp: heapify_from.simps [of _ _ 0] heapify_l.simps [of _ _ 0])
next
  case (Suc k)
  obtain m' where m': "siftdown base len (Suc k) n (get_swap_type base len) cmp arg m = Some m'"
      "arranged base len N m (siftdown_l d (elems m base len N) (Suc k) n) m'"
    using siftdown [OF Suc.prems] by blast
  obtain m'' where "heapify_from base len k n (get_swap_type base len) cmp arg m' = Some m''"
      "arranged base len N m' (heapify_l d (elems m' base len N) k n) m''"
    using Suc by blast
  with m' arranged_trans [OF m'(2)] show ?case
    by (simp add: heapify_from.simps [of _ _ "Suc k"] heapify_l.simps [of _ _ "Suc k"] arranged_def)
qed

lemma heapsort_loop:
  "compares_all len cmp arg d \<Longrightarrow> n < N \<Longrightarrow>
   \<exists>m'. heapsort_loop base n len (get_swap_type base len) cmp arg m = Some m'
     \<and> arranged base len N m (extract_l d (elems m base len N) n) m'"
proof (induction n arbitrary: m)
  case 0
  then show ?case by (simp add: arranged_def agree_refl)
next
  case (Suc n)
  obtain m' where m': "do_swap base (base + Suc n * len) len (get_swap_type base len) m = Some m'"
      "arranged base len N m (swap_l (elems m base len N) 0 (Suc n)) m'"
    using do_swap_elems [of 0 N "Suc n" base len m] Suc.prems by auto
  show ?case
  proof (cases "n = 0")
    case True
    with m' show ?thesis by simp
  next
    case False
    obtain m'' where m'': "siftdown base len 0 n (get_swap_type base len) cmp arg m' = Some m''"
        "arranged base len N m' (siftdown_l d (elems m' base len N) 0 n) m''"
      using siftdown [OF Suc.prems(1), of n N base 0 m'] Suc.prems(2) by auto
    obtain m3 where m3: "heapsort_loop base n len (get_swap_type base len) cmp arg m'' = Some m3"
        "arranged base len N m'' (extract_l d (elems m'' base len N) n) m3"
      using Suc.IH [of m''] Suc.prems by auto
    have "extract_l d (elems m base len N) (Suc n) = extract_l d (elems m'' base len N) n"
      using m'(2) m''(2) False by (simp add: arranged_def Let_def)
    with False m'(1) m''(1) m3(1) arranged_trans [OF m'(2) arranged_trans [OF m''(2) m3(2)]] show ?thesis by simp
  qed
qed

lemma heapsort_r:
  assumes "compares_all len cmp arg d" and "0 < N"
  shows "\<exists>m'. heapsort_r base (N - 1) len cmp arg m = Some m'
    \<and> arranged base len N m (heapsort_l d (elems m base len N)) m'"
proof (cases "N - 1 = 0")
  case True
  then show ?thesis by (simp add: heapsort_r_def heapsort_l_def arranged_def agree_refl)
next
  case False
  obtain m' where m': "heapify base len (N - 1) (get_swap_type base len) cmp arg m = Some m'"
      "arranged base len N m (heapify_l d (elems m base len N) ((N - 1) div 2) (N - 1)) m'"
    using heapify_from [OF assms(1), of "N - 1" N base "(N - 1) div 2" m] assms(2) by (auto simp: heapify_def)
  obtain m'' where m'': "heapsort_loop base (N - 1) len (get_swap_type base len) cmp arg m' = Some m''"
      "arranged base len N m' (extract_l d (elems m' base len N) (N - 1)) m''"
    using heapsort_loop [OF assms(1), of "N - 1" N base m'] assms(2) by auto
  have "heapsort_l d (elems m base len N) = extract_l d (elems m' base len N) (N - 1)"
    using m'(2) False by (simp add: heapsort_l_def arranged_def Let_def)
  with False m'(1) m''(1) arranged_trans [OF m'(2) m''(2)] show ?thesis by (simp add: heapsort_r_def Let_def)
qed

section \<open>The table of pointers\<close>

text \<open>Entry \<open>a\<close> of the table at \<open>tp\<close> points to element \<open>f a\<close> of the array at \<open>b\<close>.\<close>

definition ptr_table :: "nat \<Rightarrow> nat \<Rightarrow> nat \<Rightarrow> nat \<Rightarrow> (nat \<Rightarrow> nat) \<Rightarrow> mem \<Rightarrow> bool" where
  "ptr_table b n len tp f m \<longleftrightarrow> (\<forall>a<n. u32_at m (tp + a * PTR_SIZE) = b + f a * len)"

definition elem :: "nat \<Rightarrow> nat \<Rightarrow> mem \<Rightarrow> nat \<Rightarrow> 8 word list" where
  "elem b len m a = bytes_at m (b + a * len) len"

lemma elems_elem: "elems m b len n = map (elem b len m) [0..<n]"
  by (rule nth_equalityI) (simp_all add: nth_elems elem_def)

text \<open>The table, the array and the spare element lie apart, and the array below the end of memory.\<close>

definition layout :: "nat \<Rightarrow> nat \<Rightarrow> nat \<Rightarrow> nat \<Rightarrow> bool" where
  "layout b n len tp \<longleftrightarrow> 0 < len \<and> b + n * len \<le> 2 ^ 32 \<and> span b (n * len) \<inter> span tp (n * PTR_SIZE) = {}"

lemma layout_addr: "layout b n len tp \<Longrightarrow> a < n \<Longrightarrow> b + a * len < 2 ^ 32"
proof -
  assume l: "layout b n len tp" "a < n"
  then have "Suc a * len \<le> n * len" by (intro mult_le_mono1) simp
  with l show ?thesis by (auto simp: layout_def)
qed

lemma layout_apart:
  assumes "layout b n len tp" and "a < n" and "c < n"
  shows "span (b + a * len) len \<inter> span (tp + c * PTR_SIZE) PTR_SIZE = {}"
  using assms span_elem [OF assms(2), of b len] span_elem [OF assms(3), of tp PTR_SIZE] unfolding layout_def by blast

text \<open>Writing one entry, and copying one element.\<close>

lemma put_entry:
  assumes l: "layout b n len tp" and j: "j < n" and v: "v < n"
    and t: "ptr_table b n len tp f m"
  defines "m' \<equiv> put_u32 m (tp + j * PTR_SIZE) (b + v * len)"
  shows "ptr_table b n len tp (f(j := v)) m'" and "a < n \<Longrightarrow> elem b len m' a = elem b len m a"
    and "agree (span tp (n * PTR_SIZE)) m m'"
proof -
  have ag: "agree (span (tp + j * PTR_SIZE) PTR_SIZE) m m'" unfolding m'_def PTR_SIZE_def by (rule agree_put)
  have "u32_at m' (tp + a * PTR_SIZE) = b + (f(j := v)) a * len" if "a < n" for a
  proof (cases "a = j")
    case True
    then show ?thesis using layout_addr [OF l v] by (simp add: m'_def u32_at_put)
  next
    case False
    then have "u32_at m' (tp + a * PTR_SIZE) = u32_at m (tp + a * PTR_SIZE)"
      using span_elems_apart [OF False, of tp PTR_SIZE] by (intro u32_at_agree [OF ag]) (simp add: PTR_SIZE_def)
    with t that False show ?thesis by (simp add: ptr_table_def)
  qed
  then show "ptr_table b n len tp (f(j := v)) m'" by (simp add: ptr_table_def)
  show "elem b len m' a = elem b len m a" if "a < n"
    unfolding elem_def by (rule bytes_at_agree [OF ag layout_apart [OF l that j]])
  show "agree (span tp (n * PTR_SIZE)) m m'" using ag span_elem [OF j, of tp PTR_SIZE] by (rule agree_mono)
qed

lemma copy_elem:
  fixes src :: nat
  assumes l: "layout b n len tp" and j: "j < n" and t: "ptr_table b n len tp f m"
  defines "m' \<equiv> blit m src len m (b + j * len)"
  shows "ptr_table b n len tp f m'" and "a < n \<Longrightarrow> elem b len m' a = (if a = j then bytes_at m src len else elem b len m a)"
    and "agree (span b (n * len)) m m'"
proof -
  have ag: "agree (span (b + j * len) len) m m'" unfolding m'_def by (rule agree_blit)
  have "u32_at m' (tp + a * PTR_SIZE) = u32_at m (tp + a * PTR_SIZE)" if "a < n" for a
    using layout_apart [OF l j that] by (intro u32_at_agree [OF ag]) (auto simp: PTR_SIZE_def)
  with t show "ptr_table b n len tp f m'" by (simp add: ptr_table_def)
  show "elem b len m' a = (if a = j then bytes_at m src len else elem b len m a)" if "a < n"
  proof (cases "a = j")
    case True
    then show ?thesis by (simp add: m'_def elem_def bytes_at_blit_in)
  next
    case False
    then show ?thesis using span_elems_apart [OF False, of b len] by (simp add: elem_def bytes_at_agree [OF ag])
  qed
  show "agree (span b (n * len)) m m'" using ag span_elem [OF j, of b len] by (rule agree_mono)
qed

section \<open>Following a cycle\<close>

lemma cycle_path_step: "cycle_path f i j r \<Longrightarrow> a \<in> set (butlast (j # r)) \<Longrightarrow> f a \<in> set r"
  by (induction r arbitrary: j) (auto split: if_splits)

lemma cycle_path_last: "cycle_path f i j r \<Longrightarrow> f (last (j # r)) = i"
  by (induction r arbitrary: j) auto

lemma cycle_path_closed: "cycle_path f i j r \<Longrightarrow> a \<in> set (j # r) \<Longrightarrow> f a \<in> insert i (set r)"
  by (induction r arbitrary: j) auto

lemma cycle_path_onto: "cycle_path f i j r \<Longrightarrow> a \<in> insert i (set r) \<Longrightarrow> \<exists>c\<in>set (j # r). f c = a"
  by (induction r arbitrary: j) auto

lemma cycle_step:
  assumes l: "layout b n len tp" and j: "j < n" "k < n" and t: "ptr_table b n len tp f m"
  defines "m1 \<equiv> put_u32 m (tp + j * PTR_SIZE) (b + j * len)"
  defines "m2 \<equiv> blit m1 (b + k * len) len m1 (b + j * len)"
  shows "ptr_table b n len tp (f(j := j)) m2" and "a < n \<Longrightarrow> elem b len m2 a = elem b len m (if a = j then k else a)"
    and "agree (span b (n * len) \<union> span tp (n * PTR_SIZE)) m m2"
proof -
  note p = put_entry [OF l j(1) j(1) t, folded m1_def]
  note c = copy_elem [OF l j(1) p(1), where src = "b + k * len", folded m2_def]
  show "ptr_table b n len tp (f(j := j)) m2" by (rule c(1))
  show "elem b len m2 a = elem b len m (if a = j then k else a)" if "a < n"
    using c(2) [OF that] p(2) [OF that] p(2) [OF j(2)] by (simp add: elem_def)
  show "agree (span b (n * len) \<union> span tp (n * PTR_SIZE)) m m2"
    using agree_mono [OF p(3) Un_upper2] agree_mono [OF c(3) Un_upper1] by (rule agree_trans)
qed

lemma cycle_move:
  assumes l: "layout b n len tp"
  shows "\<lbrakk>ptr_table b n len tp f m; cycle_path f i j (k # r); distinct (j # k # r); i \<notin> set (k # r);
      set (j # k # r) \<subseteq> {..<n}; i < n\<rbrakk> \<Longrightarrow>
    \<exists>m'. cycle_move b len tp (b + i * len) j (b + j * len) (b + k * len) m =
          Some (last (k # r), b + last (k # r) * len, m')
      \<and> ptr_table b n len tp (\<lambda>a. if a \<in> set (butlast (j # k # r)) then a else f a) m'
      \<and> (\<forall>a<n. elem b len m' a = elem b len m (if a \<in> set (butlast (j # k # r)) then f a else a))
      \<and> agree (span b (n * len) \<union> span tp (n * PTR_SIZE)) m m'"
proof (induction r arbitrary: f m j k)
  case (Nil f m j k)
  let ?m2 = "blit (put_u32 m (tp + j * PTR_SIZE) (b + j * len)) (b + k * len) len (put_u32 m (tp + j * PTR_SIZE) (b + j * len)) (b + j * len)"
  have f: "f j = k" "f k = i" "j \<noteq> k" "j < n" "k < n" using Nil.prems by auto
  note st = cycle_step [OF l f(4,5) Nil.prems(1)]
  have "u32_at ?m2 (tp + k * PTR_SIZE) = b + i * len" using st(1) f by (simp add: ptr_table_def)
  then have "cycle_move b len tp (b + i * len) j (b + j * len) (b + k * len) m = Some (k, b + k * len, ?m2)"
    using l by (subst cycle_move.simps) (simp add: Let_def layout_def)
  moreover have "ptr_table b n len tp (\<lambda>a. if a = j then a else f a) ?m2"
    using st(1) by (simp add: ptr_table_def)
  moreover have "\<forall>a<n. elem b len ?m2 a = elem b len m (if a = j then f a else a)" using st(2) f(1) by simp
  ultimately show ?case using st(3) by auto
next
  case (Cons k' r f m j k)
  let ?m2 = "blit (put_u32 m (tp + j * PTR_SIZE) (b + j * len)) (b + k * len) len (put_u32 m (tp + j * PTR_SIZE) (b + j * len)) (b + j * len)"
  have f: "f j = k" "f k = k'" "j \<noteq> k" "j < n" "k < n" "k' \<noteq> i" using Cons.prems by auto
  note st = cycle_step [OF l f(4,5) Cons.prems(1)]
  have kp: "u32_at ?m2 (tp + k * PTR_SIZE) = b + k' * len" using st(1) f by (simp add: ptr_table_def)
  have "b + k' * len \<noteq> b + i * len" using f(6) l by (simp add: layout_def)
  with kp have unf: "cycle_move b len tp (b + i * len) j (b + j * len) (b + k * len) m =
      cycle_move b len tp (b + i * len) k (b + k * len) (b + k' * len) ?m2"
    using l by (subst cycle_move.simps) (simp add: Let_def layout_def)
  have path: "cycle_path (f(j := j)) i k (k' # r)"
  proof -
    have "cycle_path (f(j := j)) i k' r = cycle_path f i k' r" using Cons.prems(3) by (intro cycle_path_cong) auto
    with Cons.prems(2,3) show ?thesis by auto
  qed
  obtain m' where m': "cycle_move b len tp (b + i * len) k (b + k * len) (b + k' * len) ?m2 =
        Some (last (k' # r), b + last (k' # r) * len, m')"
      "ptr_table b n len tp (\<lambda>a. if a \<in> set (butlast (k # k' # r)) then a else (f(j := j)) a) m'"
      "\<forall>a<n. elem b len m' a = elem b len ?m2 (if a \<in> set (butlast (k # k' # r)) then (f(j := j)) a else a)"
      "agree (span b (n * len) \<union> span tp (n * PTR_SIZE)) ?m2 m'"
    using Cons.IH [OF st(1) path] Cons.prems by auto
  have set: "set (butlast (j # k # k' # r)) = insert j (set (butlast (k # k' # r)))" by simp
  have jn: "j \<notin> set (butlast (k # k' # r))" using Cons.prems(3) by (auto dest: in_set_butlastD)
  have "ptr_table b n len tp (\<lambda>a. if a \<in> set (butlast (j # k # k' # r)) then a else f a) m'"
    using m'(2) unfolding ptr_table_def set by auto
  moreover have "elem b len m' a = elem b len m (if a \<in> set (butlast (j # k # k' # r)) then f a else a)" if a: "a < n" for a
  proof (cases "a \<in> set (butlast (k # k' # r))")
    case True
    then have "a \<noteq> j" using jn by auto
    then have "f a \<in> set (k' # r)" using cycle_path_step [OF path True] by simp
    then have "f a < n" "f a \<noteq> j" using Cons.prems(3,5) by auto
    with True \<open>a \<noteq> j\<close> m'(3) a st(2) show ?thesis unfolding set by auto
  next
    case False
    with m'(3) a st(2) f(1) show ?thesis unfolding set by auto
  qed
  moreover have "agree (span b (n * len) \<union> span tp (n * PTR_SIZE)) m m'" using st(3) m'(4) by (rule agree_trans)
  ultimately show ?case using unf m'(1) by auto
qed

definition spare :: "nat \<Rightarrow> nat \<Rightarrow> nat \<Rightarrow> nat \<Rightarrow> nat \<Rightarrow> bool" where
  "spare b n len tp ts \<longleftrightarrow> span ts len \<inter> span b (n * len) = {} \<and> span ts len \<inter> span tp (n * PTR_SIZE) = {}"

lemma set_butlast_last: "xs \<noteq> [] \<Longrightarrow> set xs = insert (last xs) (set (butlast xs))"
  by (induction xs) auto

lemma permute_at:
  assumes l: "layout b n len tp" and sp: "spare b n len tp ts" and t: "ptr_table b n len tp f m"
    and c: "cycle_path f i i r" "distinct (i # r)" "set r \<subseteq> {..<n}" and i: "i < n"
  shows "\<exists>m'. permute_at b len tp ts i (b + i * len) m = Some m'
    \<and> ptr_table b n len tp (\<lambda>a. if a \<in> set (i # r) then a else f a) m'
    \<and> (\<forall>a<n. elem b len m' a = elem b len m (if a \<in> set (i # r) then f a else a))
    \<and> agree (span b (n * len) \<union> span tp (n * PTR_SIZE) \<union> span ts len) m m'"
proof (cases r)
  case Nil
  then have "f i = i" using c(1) by simp
  then have "permute_at b len tp ts i (b + i * len) m = Some m" using t i by (simp add: permute_at_def ptr_table_def)
  moreover have "ptr_table b n len tp (\<lambda>a. if a \<in> set (i # r) then a else f a) m"
    using t \<open>f i = i\<close> by (auto simp: ptr_table_def Nil)
  ultimately show ?thesis using \<open>f i = i\<close> by (auto simp: Nil agree_refl)
next
  case (Cons k r')
  let ?W = "span b (n * len) \<union> span tp (n * PTR_SIZE)"
  define m0 where "m0 = blit m (b + i * len) len m ts"
  have ag0: "agree (span ts len) m m0" unfolding m0_def by (rule agree_blit)
  have e0: "elem b len m0 a = elem b len m a" if "a < n" for a
    unfolding elem_def using sp span_elem [OF that, of b len] by (intro bytes_at_agree [OF ag0]) (auto simp: spare_def)
  have t0: "ptr_table b n len tp f m0"
  proof -
    have "u32_at m0 (tp + a * PTR_SIZE) = u32_at m (tp + a * PTR_SIZE)" if "a < n" for a
      using sp span_elem [OF that, of tp PTR_SIZE] by (intro u32_at_agree [OF ag0]) (auto simp: spare_def PTR_SIZE_def)
    with t show ?thesis by (simp add: ptr_table_def)
  qed
  have f: "f i = k" "k \<noteq> i" using c(1,2) Cons by auto
  define v where "v = last (k # r')"
  obtain m1 where m1: "cycle_move b len tp (b + i * len) i (b + i * len) (b + k * len) m0 = Some (v, b + v * len, m1)"
      "ptr_table b n len tp (\<lambda>a. if a \<in> set (butlast (i # r)) then a else f a) m1"
      "\<forall>a<n. elem b len m1 a = elem b len m0 (if a \<in> set (butlast (i # r)) then f a else a)" "agree ?W m0 m1"
    using cycle_move [OF l t0, of i i k r'] c i unfolding v_def Cons by auto
  have "v \<in> set r" unfolding v_def Cons by (rule last_in_set) simp
  then have v: "v < n" "f v = i" using c(3) cycle_path_last [OF c(1)] by (auto simp: v_def Cons)
  define m2 where "m2 = put_u32 m1 (tp + v * PTR_SIZE) (b + v * len)"
  define m3 where "m3 = blit m2 ts len m2 (b + v * len)"
  note p = put_entry [OF l v(1) v(1) m1(2), folded m2_def]
  note cp = copy_elem [OF l v(1) p(1), where src = ts, folded m3_def]
  have "bytes_at m2 ts len = bytes_at m0 ts len"
    using agree_trans [OF m1(4) agree_mono [OF p(3) Un_upper2]] sp by (intro bytes_at_agree) (auto simp: spare_def)
  then have saved: "bytes_at m2 ts len = elem b len m i" by (simp add: m0_def elem_def bytes_at_blit_in)
  have set: "set (i # r) = insert v (set (butlast (i # r)))"
    using set_butlast_last [of "i # r"] by (simp add: Cons v_def)
  have "b + k * len \<noteq> b + i * len" using f l by (simp add: layout_def)
  then have "permute_at b len tp ts i (b + i * len) m = Some m3"
    using t i f m1(1) by (simp add: permute_at_def ptr_table_def m0_def [symmetric] m2_def [symmetric] m3_def [symmetric] Let_def)
  moreover have "ptr_table b n len tp (\<lambda>a. if a \<in> set (i # r) then a else f a) m3"
    using cp(1) unfolding ptr_table_def set by auto
  moreover have "elem b len m3 a = elem b len m (if a \<in> set (i # r) then f a else a)" if a: "a < n" for a
  proof (cases "a = v")
    case True
    then show ?thesis using cp(2) [OF a] saved v unfolding set by simp
  next
    case False
    have fa: "f a < n" if "a \<in> set (i # r)" using cycle_path_closed [OF c(1) that] c(3) i by auto
    show ?thesis using False cp(2) [OF a] p(2) [OF a] m1(3) a e0 fa unfolding set by auto
  qed
  moreover have "agree (?W \<union> span ts len) m m3"
    using agree_trans [OF agree_mono [OF ag0 Un_upper2]
        agree_mono [OF agree_trans [OF agree_trans [OF m1(4) agree_mono [OF p(3) Un_upper2]] agree_mono [OF cp(3) Un_upper1]] Un_upper1]] .
  ultimately show ?thesis by blast
qed

lemma permute_from:
  assumes l: "layout b n len tp" and sp: "spare b n len tp ts"
  shows "\<lbrakk>ptr_table b n len tp f m; inj_on f {..<n}; \<forall>a<n. f a < n; \<forall>a<i. f a = a\<rbrakk> \<Longrightarrow>
    \<exists>m'. permute_from b n len tp ts i (b + i * len) m = Some m'
      \<and> (\<forall>a<n. elem b len m' a = elem b len m (f a))
      \<and> agree (span b (n * len) \<union> span tp (n * PTR_SIZE) \<union> span ts len) m m'"
proof (induction "n - i" arbitrary: i f m)
  case 0
  then have "n \<le> i" by simp
  then have "permute_from b n len tp ts i (b + i * len) m = Some m" by (subst permute_from.simps) simp
  moreover have "\<forall>a<n. f a = a" using 0 \<open>n \<le> i\<close> by auto
  ultimately show ?case by (simp add: agree_refl)
next
  case (Suc d)
  then have i: "i < n" by simp
  obtain r where r: "cycle_path f i i r" "distinct (i # r)" "set r \<subseteq> {..<n}"
    using cycle_exists [OF Suc.prems(2) _ i] Suc.prems(3) by auto
  define C where "C = set (i # r)"
  define g where "g = (\<lambda>a. if a \<in> C then a else f a)"
  obtain m1 where m1: "permute_at b len tp ts i (b + i * len) m = Some m1" "ptr_table b n len tp g m1"
      "\<forall>a<n. elem b len m1 a = elem b len m (if a \<in> C then f a else a)"
      "agree (span b (n * len) \<union> span tp (n * PTR_SIZE) \<union> span ts len) m m1"
    using permute_at [OF l sp Suc.prems(1) r i] unfolding C_def [symmetric] g_def [symmetric] by blast
  have Cn: "C \<subseteq> {..<n}" using r(3) i by (auto simp: C_def)
  have off: "f a \<notin> C" if "a < n" "a \<notin> C" for a
  proof
    assume "f a \<in> C"
    then obtain c where "c \<in> C" "f c = f a" using cycle_path_onto [OF r(1), of "f a"] by (auto simp: C_def)
    with Suc.prems(2) that Cn have "a = c" by (auto simp: inj_on_def)
    with that \<open>c \<in> C\<close> show False by simp
  qed
  have g: "inj_on g {..<n}" "\<forall>a<n. g a < n" "\<forall>a<Suc i. g a = a"
  proof -
    show "inj_on g {..<n}"
    proof (rule inj_onI)
      fix x y assume h: "x \<in> {..<n}" "y \<in> {..<n}" "g x = g y"
      have gC: "g z \<in> C \<longleftrightarrow> z \<in> C" if "z < n" for z using off [OF that] unfolding g_def by (cases "z \<in> C") simp_all
      have xy: "x \<in> C \<longleftrightarrow> y \<in> C" using gC [of x] gC [of y] h by simp
      show "x = y"
      proof (cases "x \<in> C")
        case True
        have "g x = x" "g y = y" using True xy unfolding g_def by simp_all
        with h(3) show ?thesis by simp
      next
        case False
        have "g x = f x" "g y = f y" using False xy unfolding g_def by simp_all
        with h show ?thesis using inj_onD [OF Suc.prems(2), of x y] by simp
      qed
    qed
    show "\<forall>a<n. g a < n" using Suc.prems(3) by (simp add: g_def)
    show "\<forall>a<Suc i. g a = a" using Suc.prems(4) by (simp add: g_def C_def less_Suc_eq)
  qed
  have "\<exists>m'. permute_from b n len tp ts (Suc i) (b + Suc i * len) m1 = Some m'
      \<and> (\<forall>a<n. elem b len m' a = elem b len m1 (g a))
      \<and> agree (span b (n * len) \<union> span tp (n * PTR_SIZE) \<union> span ts len) m1 m'"
    using Suc.hyps(2) by (intro Suc.hyps(1) [OF _ m1(2) g]) simp
  then obtain m' where m': "permute_from b n len tp ts (Suc i) (b + Suc i * len) m1 = Some m'"
      "\<forall>a<n. elem b len m' a = elem b len m1 (g a)"
      "agree (span b (n * len) \<union> span tp (n * PTR_SIZE) \<union> span ts len) m1 m'" by blast
  have "permute_from b n len tp ts i (b + i * len) m = Some m'"
  proof -
    have "b + i * len + len = b + Suc i * len" by simp
    with i m1(1) m'(1) show ?thesis by (subst permute_from.simps) (simp only: if_True option.case Suc_eq_plus1)
  qed
  moreover have "elem b len m' a = elem b len m (f a)" if "a < n" for a
  proof (cases "a \<in> C")
    case True
    with m'(2) m1(3) that show ?thesis by (simp add: g_def)
  next
    case False
    with m'(2) m1(3) that off [OF that False] Suc.prems(3) show ?thesis by (simp add: g_def)
  qed
  ultimately show ?case using agree_trans [OF m1(4) m'(3)] by blast
qed

section \<open>Sorting the pointers\<close>

lemma fill_ptrs:
  "\<forall>a<n. ip + a * len < 2 ^ 32 \<Longrightarrow>
   (\<forall>a<n. u32_at (fill_ptrs t (t + n * PTR_SIZE) ip len m) (t + a * PTR_SIZE) = ip + a * len)
   \<and> agree (span t (n * PTR_SIZE)) m (fill_ptrs t (t + n * PTR_SIZE) ip len m)"
proof (induction n arbitrary: t ip m)
  case 0
  then show ?case by (subst fill_ptrs.simps) (simp add: agree_refl fill_ptrs.simps)
next
  case (Suc n)
  define m1 where "m1 = put_u32 m t ip"
  define m' where "m' = fill_ptrs (t + PTR_SIZE) (t + PTR_SIZE + n * PTR_SIZE) (ip + len) len m1"
  have eq: "fill_ptrs t (t + Suc n * PTR_SIZE) ip len m = m'"
    unfolding m'_def m1_def by (subst fill_ptrs.simps) (simp add: PTR_SIZE_def add.assoc)
  have "\<forall>a<n. ip + len + a * len < 2 ^ 32" using Suc.prems by (auto dest: spec [where x = "Suc _"])
  from Suc.IH [OF this, of "t + PTR_SIZE" m1, folded m'_def]
  have IH: "\<forall>a<n. u32_at m' (t + PTR_SIZE + a * PTR_SIZE) = ip + len + a * len" "agree (span (t + PTR_SIZE) (n * PTR_SIZE)) m1 m'"
    by auto
  have "u32_at m' t = u32_at m1 t" by (rule u32_at_agree [OF IH(2)]) (rule span_apart, simp add: PTR_SIZE_def)
  then have "u32_at m' t = ip" using Suc.prems by (auto simp: m1_def u32_at_put)
  then have "u32_at m' (t + a * PTR_SIZE) = ip + a * len" if "a < Suc n" for a
    using that IH(1) by (cases a) (auto simp: add.assoc)
  moreover have "agree (span t (Suc n * PTR_SIZE)) m m'"
  proof (rule agree_trans)
    show "agree (span t (Suc n * PTR_SIZE)) m m1"
      unfolding m1_def by (rule agree_mono [OF agree_put]) (rule span_mono, simp_all add: PTR_SIZE_def)
    show "agree (span t (Suc n * PTR_SIZE)) m1 m'" by (rule agree_mono [OF IH(2)]) (rule span_mono, simp_all)
  qed
  ultimately show ?case unfolding eq by blast
qed

lemma merge_l_map: "map f (merge_l (\<lambda>x y. c (f x) (f y)) xs ys) = merge_l c (map f xs) (map f ys)"
  by (induction "\<lambda>x y. c (f x) (f y)" xs ys rule: merge_l.induct) auto

lemma msort_l_map: "map f (msort_l (\<lambda>x y. c (f x) (f y)) xs) = msort_l c (map f xs)"
proof (induction "length xs" arbitrary: xs rule: less_induct)
  case less
  let ?d = "\<lambda>x y. c (f x) (f y)"
  show ?case
  proof (cases "length xs \<le> 1")
    case True
    then show ?thesis by (simp add: msort_l.simps [of _ xs] msort_l.simps [of _ "map f xs"])
  next
    case False
    let ?h = "length xs div 2"
    have "map f (msort_l ?d (take ?h xs)) = msort_l c (take ?h (map f xs))"
      "map f (msort_l ?d (drop ?h xs)) = msort_l c (drop ?h (map f xs))"
      using less [of "take ?h xs"] less [of "drop ?h xs"] False by (simp_all add: take_map drop_map)
    with False show ?thesis
      by (simp add: msort_l.simps [of _ xs] msort_l.simps [of _ "map f xs"] Let_def merge_l_map)
  qed
qed

text \<open>The buffer of an indirect sort: a run buffer, the table and the spare element.\<close>

lemma indirect_layout:
  assumes "0 < len" and "b + n * len \<le> 2 ^ 32" and "span b (n * len) \<inter> span buf (2 * n * PTR_SIZE + len) = {}"
  shows "layout b n len (buf + n * PTR_SIZE)" and "spare b n len (buf + n * PTR_SIZE) (buf + n * PTR_SIZE + n * PTR_SIZE)"
    and "span (buf + n * PTR_SIZE) (n * PTR_SIZE) \<subseteq> span buf (2 * n * PTR_SIZE + len)"
    and "span buf (n * PTR_SIZE) \<subseteq> span buf (2 * n * PTR_SIZE + len)"
    and "span (buf + n * PTR_SIZE + n * PTR_SIZE) len \<subseteq> span buf (2 * n * PTR_SIZE + len)"
proof -
  show sub: "span (buf + n * PTR_SIZE) (n * PTR_SIZE) \<subseteq> span buf (2 * n * PTR_SIZE + len)"
    "span buf (n * PTR_SIZE) \<subseteq> span buf (2 * n * PTR_SIZE + len)"
    "span (buf + n * PTR_SIZE + n * PTR_SIZE) len \<subseteq> span buf (2 * n * PTR_SIZE + len)"
    by (rule span_mono; simp)+
  show "layout b n len (buf + n * PTR_SIZE)" using assms sub(1) by (auto simp: layout_def)
  have "span (buf + n * PTR_SIZE + n * PTR_SIZE) len \<inter> span (buf + n * PTR_SIZE) (n * PTR_SIZE) = {}"
    by (rule span_apart) simp
  then show "spare b n len (buf + n * PTR_SIZE) (buf + n * PTR_SIZE + n * PTR_SIZE)"
    using assms(3) sub(3) by (auto simp: spare_def)
qed

text \<open>The table that sorting the pointers leaves: entry \<open>a\<close> points to the element that comes \<open>a\<close>-th.\<close>

lemma sorted_table:
  fixes m :: mem
  assumes l: "layout b n len tp" and off: "span b (n * len) \<inter> span t (n * PTR_SIZE) = {}" "span tp (n * PTR_SIZE) \<inter> span t (n * PTR_SIZE) = {}"
    and c: "compares_all len cmp arg c"
  defines "p \<equiv> \<lparr> p_s = PTR_SIZE, p_var = SWAP_VOID_ARG, p_cmp = cmp, p_arg = arg, p_t = t \<rparr>"
  defines "m2 \<equiv> msort_with_tmp p tp n (fill_ptrs tp (tp + n * PTR_SIZE) b len m)"
  obtains f where "ptr_table b n len tp f m2" and "inj_on f {..<n}" and "\<forall>a<n. f a < n"
    and "map (elem b len m2) (map f [0..<n]) = msort_l c (elems m b len n)"
    and "agree (span tp (n * PTR_SIZE) \<union> span t (n * PTR_SIZE)) m m2"
proof -
  define m1 where "m1 = fill_ptrs tp (tp + n * PTR_SIZE) b len m"
  let ?W = "span tp (n * PTR_SIZE) \<union> span t (n * PTR_SIZE)"
  have "\<forall>a<n. b + a * len < 2 ^ 32" using layout_addr [OF l] by blast
  from fill_ptrs [OF this, of tp m, folded m1_def]
  have ptr1: "\<And>a. a < n \<Longrightarrow> u32_at m1 (tp + a * PTR_SIZE) = b + a * len" and ag1: "agree ?W m m1"
    by (auto intro: agree_mono)
  define F where "F q = bytes_at m (le_value q) len" for q
  define E where "E = {q. \<exists>a<n. le_value q = b + a * len}"
  have array: "bytes_at m' (b + a * len) len = bytes_at m (b + a * len) len" if "agree ?W m m'" "a < n" for m' a
    using l off(1) span_elem [OF that(2), of b len] by (intro bytes_at_agree [OF that(1)]) (auto simp: layout_def)
  have els: "elems m' tp PTR_SIZE n = map (\<lambda>a. bytes_at m' (tp + a * PTR_SIZE) 4) [0..<n]" for m'
    by (rule nth_equalityI) (simp_all add: nth_elems PTR_SIZE_def)
  have "compares m1 ?W PTR_SIZE E (loop_cmp SWAP_VOID_ARG cmp arg) (\<lambda>x y. c (F x) (F y))"
    unfolding compares_def
  proof (intro allI impI)
    fix m' x y assume h: "agree ?W m1 m'" "bytes_at m' x PTR_SIZE \<in> E" "bytes_at m' y PTR_SIZE \<in> E"
    have "agree ?W m m'" using ag1 h(1) by (rule agree_trans)
    then have "bytes_at m' (u32_at m' z) len = F (bytes_at m' z PTR_SIZE)" if "bytes_at m' z PTR_SIZE \<in> E" for z
      using that array unfolding E_def F_def u32_at_def PTR_SIZE_def by auto
    with h(2,3) c show "loop_cmp SWAP_VOID_ARG cmp arg m' x y = c (F (bytes_at m' x PTR_SIZE)) (F (bytes_at m' y PTR_SIZE))"
      by (simp add: loop_cmp_def compares_all_def)
  qed
  moreover have E1: "set (elems m1 tp PTR_SIZE n) \<subseteq> E"
    using ptr1 by (auto simp: els E_def u32_at_def)
  ultimately have srt: "elems m2 tp PTR_SIZE n = msort_l (\<lambda>x y. c (F x) (F y)) (elems m1 tp PTR_SIZE n)" and ag2: "agree ?W m1 m2"
    using msort_with_tmp [of p m1 ?W E "\<lambda>x y. c (F x) (F y)" m1 tp n] off(2)
    by (simp_all add: p_def m2_def m1_def [symmetric] loop_step_def agree_refl)
  have ag: "agree ?W m m2" using ag1 ag2 by (rule agree_trans)
  have E2: "set (elems m2 tp PTR_SIZE n) \<subseteq> E" using E1 by (simp add: srt set_msort_l)
  define f where "f a = (u32_at m2 (tp + a * PTR_SIZE) - b) div len" for a
  have len: "0 < len" using l by (simp add: layout_def)
  have f: "u32_at m2 (tp + a * PTR_SIZE) = b + f a * len \<and> f a < n" if "a < n" for a
  proof -
    have "elems m2 tp PTR_SIZE n ! a \<in> E" using E2 that by (metis length_elems nth_mem subsetD)
    then show ?thesis using that len by (auto simp: nth_elems E_def f_def u32_at_def PTR_SIZE_def)
  qed
  have le: "map le_value (elems m' tp PTR_SIZE n) = map (\<lambda>a. u32_at m' (tp + a * PTR_SIZE)) [0..<n]" for m'
    by (simp add: els u32_at_def)
  have mm: "mset (map le_value (elems m2 tp PTR_SIZE n)) = mset (map le_value (elems m1 tp PTR_SIZE n))"
    by (simp add: srt mset_msort_l)
  have "mset (map (\<lambda>a. b + f a * len) [0..<n]) = mset (map (\<lambda>a. b + a * len) [0..<n])"
  proof -
    have "map (\<lambda>a. u32_at m2 (tp + a * PTR_SIZE)) [0..<n] = map (\<lambda>a. b + f a * len) [0..<n]"
      "map (\<lambda>a. u32_at m1 (tp + a * PTR_SIZE)) [0..<n] = map (\<lambda>a. b + a * len) [0..<n]"
      using f ptr1 by simp_all
    then show ?thesis using mm unfolding le by (simp only:)
  qed
  moreover have "distinct (map (\<lambda>a. b + a * len) [0..<n])" using len by (simp add: distinct_map inj_on_def)
  ultimately have "distinct (map (\<lambda>a. b + f a * len) [0..<n])" using mset_eq_imp_distinct_iff by blast
  then have inj: "inj_on (\<lambda>a. b + f a * len) {0..<n}" by (simp add: distinct_map)
  have "inj_on f {..<n}"
  proof (rule inj_onI)
    fix x y assume "x \<in> {..<n}" "y \<in> {..<n}" "f x = f y"
    then show "x = y" using inj_onD [OF inj, of x y] by simp
  qed
  moreover have "ptr_table b n len tp f m2" using f by (simp add: ptr_table_def)
  moreover have "map (elem b len m2) (map f [0..<n]) = msort_l c (elems m b len n)"
  proof -
    have "map (elem b len m2) (map f [0..<n]) = map F (elems m2 tp PTR_SIZE n)"
      using f array [OF ag] by (simp add: els F_def elem_def u32_at_def)
    also have "\<dots> = msort_l c (map F (elems m1 tp PTR_SIZE n))" unfolding srt by (rule msort_l_map)
    also have "map F (elems m1 tp PTR_SIZE n) = elems m b len n"
      using ptr1 by (simp add: els F_def elems_elem [of m b] elem_def u32_at_def)
    finally show ?thesis .
  qed
  ultimately show thesis using f by (intro that [OF _ _ _ _ ag]) auto
qed

lemma indirect_msort_with_tmp:
  fixes m :: mem
  assumes h: "0 < len" "b + n * len \<le> 2 ^ 32" "span b (n * len) \<inter> span buf (2 * n * PTR_SIZE + len) = {}"
    and c: "compares_all len cmp arg c"
  defines "p \<equiv> \<lparr> p_s = PTR_SIZE, p_var = SWAP_VOID_ARG, p_cmp = cmp, p_arg = arg, p_t = buf \<rparr>"
  shows "\<exists>m'. indirect_msort_with_tmp p b n len m = Some m' \<and> elems m' b len n = msort_l c (elems m b len n)
    \<and> agree (span b (n * len) \<union> span buf (2 * n * PTR_SIZE + len)) m m'"
proof -
  let ?tp = "buf + n * PTR_SIZE" and ?ts = "buf + n * PTR_SIZE + n * PTR_SIZE"
  note l = indirect_layout [OF h]
  define m2 where "m2 = msort_with_tmp p ?tp n (fill_ptrs ?tp ?ts b len m)"
  have o1: "span b (n * len) \<inter> span buf (n * PTR_SIZE) = {}" using h(3) l(4) by blast
  have o2: "span ?tp (n * PTR_SIZE) \<inter> span buf (n * PTR_SIZE) = {}" by (rule span_apart) simp
  obtain f where f: "ptr_table b n len ?tp f m2" "inj_on f {..<n}" "\<forall>a<n. f a < n"
      "map (elem b len m2) (map f [0..<n]) = msort_l c (elems m b len n)"
      "agree (span ?tp (n * PTR_SIZE) \<union> span buf (n * PTR_SIZE)) m m2"
    by (rule sorted_table [OF l(1) o1 o2 c, where m = m, folded p_def, folded m2_def])
  obtain m' where m': "permute_from b n len ?tp ?ts 0 (b + 0 * len) m2 = Some m'"
      "\<forall>a<n. elem b len m' a = elem b len m2 (f a)"
      "agree (span b (n * len) \<union> span ?tp (n * PTR_SIZE) \<union> span ?ts len) m2 m'"
    using permute_from [OF l(1,2) f(1-3), of 0] by blast
  have "indirect_msort_with_tmp p b n len m = Some m'"
    using m'(1) by (simp add: indirect_msort_with_tmp_def Let_def m2_def p_def)
  moreover have "elems m' b len n = msort_l c (elems m b len n)"
    unfolding elems_elem [of m'] f(4) [symmetric] using m'(2) by simp
  moreover have "agree (span b (n * len) \<union> span buf (2 * n * PTR_SIZE + len)) m m'"
    by (rule agree_trans [OF agree_mono [OF f(5)] agree_mono [OF m'(3)]]; use l(3-5) in blast)
  ultimately show ?thesis by (intro exI [of _ m'] conjI)
qed

section \<open>What the entry points do\<close>

text \<open>Whether a buffer is at hand, and where it is.\<close>

definition has_buffer :: "(nat \<Rightarrow> nat) \<Rightarrow> nat \<Rightarrow> nat \<Rightarrow> bool" where
  "has_buffer malloc n len \<longleftrightarrow> buffer_size n len \<le> QSORT_STACK_SIZE \<or> malloc (buffer_size n len) \<noteq> 0"

definition buffer :: "nat \<Rightarrow> (nat \<Rightarrow> nat) \<Rightarrow> nat \<Rightarrow> nat \<Rightarrow> nat" where
  "buffer tmp malloc n len = (if buffer_size n len \<le> QSORT_STACK_SIZE then tmp else malloc (buffer_size n len))"

text \<open>The array lies in the address space, away from the stack buffer and from what the allocator
  hands out.\<close>

definition sort_room :: "nat \<Rightarrow> (nat \<Rightarrow> nat) \<Rightarrow> nat \<Rightarrow> nat \<Rightarrow> nat \<Rightarrow> bool" where
  "sort_room tmp malloc b n len \<longleftrightarrow>
     b + n * len \<le> 2 ^ 32 \<and> n * len < 2 ^ 32 \<and> span b (n * len) \<inter> span tmp QSORT_STACK_SIZE = {}
     \<and> (\<forall>k. malloc k \<noteq> 0 \<longrightarrow> span b (n * len) \<inter> span (malloc k) k = {})"

lemma buffer_size_exact:
  assumes "1 < n" and "n * len < 2 ^ 32"
  shows "buffer_size n len = (if INDIRECT_SORT_SIZE_THRES < len then 2 * n * PTR_SIZE + len else n * len)"
proof -
  have "2 * n * PTR_SIZE + len < 2 ^ 32" if "32 < len"
  proof -
    have "n * 32 \<le> n * len" "2 * len \<le> n * len" using that assms(1) by (auto intro: mult_le_mono)
    then have "8 * n + len < 2 ^ 32" using assms(2) by linarith
    then show ?thesis by (simp add: PTR_SIZE_def)
  qed
  with assms(2) show ?thesis by (simp add: buffer_size_def size_cast_def INDIRECT_SORT_SIZE_THRES_def)
qed

lemma buffer_apart:
  assumes "sort_room tmp malloc b n len" and "has_buffer malloc n len"
  shows "span b (n * len) \<inter> span (buffer tmp malloc n len) (buffer_size n len) = {}"
proof (cases "buffer_size n len \<le> QSORT_STACK_SIZE")
  case True
  then have "span tmp (buffer_size n len) \<subseteq> span tmp QSORT_STACK_SIZE" by (intro span_mono) simp_all
  with assms(1) True show ?thesis by (auto simp: sort_room_def buffer_def)
next
  case False
  with assms show ?thesis by (simp add: sort_room_def buffer_def has_buffer_def)
qed

lemma qsort_r_buffered:
  assumes n: "1 < n" and room: "sort_room tmp malloc b n len" and buf: "has_buffer malloc n len"
    and c: "compares_all len cmp arg c"
  shows "\<exists>m'. qsort_r tmp malloc b n len cmp arg m = Some m' \<and> elems m' b len n = msort_l c (elems m b len n)
    \<and> agree (span b (n * len) \<union> span (buffer tmp malloc n len) (buffer_size n len)) m m'"
proof -
  let ?buf = "buffer tmp malloc n len"
  note apart = buffer_apart [OF room buf]
  have fits: "b + n * len \<le> 2 ^ 32" "n * len < 2 ^ 32" using room by (simp_all add: sort_room_def)
  note sz = buffer_size_exact [OF n fits(2)]
  have nb: "\<not> (QSORT_STACK_SIZE < buffer_size n len \<and> ?buf = 0)" using buf by (auto simp: has_buffer_def buffer_def)
  have unf: "qsort_r tmp malloc b n len cmp arg m =
     (if INDIRECT_SORT_SIZE_THRES < len then
        indirect_msort_with_tmp \<lparr> p_s = PTR_SIZE, p_var = SWAP_VOID_ARG, p_cmp = cmp, p_arg = arg, p_t = ?buf \<rparr> b n len m
      else Some (msort_with_tmp \<lparr> p_s = len, p_var = get_swap_type b len, p_cmp = cmp, p_arg = arg, p_t = ?buf \<rparr> b n m))"
    using n unfolding qsort_r_def Let_def buffer_def [symmetric] if_not_P [OF nb] by simp
  show ?thesis
  proof (cases "INDIRECT_SORT_SIZE_THRES < len")
    case True
    then have "0 < len" by simp
    from indirect_msort_with_tmp [OF this fits(1) _ c, of ?buf m] apart sz True unf show ?thesis by simp
  next
    case False
    let ?p = "\<lparr> p_s = len, p_var = get_swap_type b len, p_cmp = cmp, p_arg = arg, p_t = ?buf \<rparr>"
    have "loop_step (get_swap_type b len) len = len" by (simp add: loop_step_def get_swap_type_def)
    moreover have "compares m (span b (n * len) \<union> span ?buf (n * len)) len UNIV (loop_cmp (get_swap_type b len) cmp arg) c"
      using c by (simp add: compares_def loop_cmp_def compares_all_def get_swap_type_def)
    ultimately show ?thesis
      using msort_with_tmp [of ?p m "span b (n * len) \<union> span ?buf (n * len)" UNIV c m b n] apart sz False unf
      by (simp add: agree_refl)
  qed
qed

text \<open>What the caller of a sort may rely on.\<close>

definition sorts ::
  "nat \<Rightarrow> (nat \<Rightarrow> nat) \<Rightarrow> nat \<Rightarrow> nat \<Rightarrow> nat \<Rightarrow> (8 word list \<Rightarrow> 8 word list \<Rightarrow> int) \<Rightarrow> mem \<Rightarrow> mem \<Rightarrow> bool" where
  "sorts tmp malloc b n len c m m' \<longleftrightarrow>
     sorted_by c (elems m' b len n) \<and> mset (elems m' b len n) = mset (elems m b len n)
     \<and> (has_buffer malloc n len \<longrightarrow> stable_by c (elems m b len n) (elems m' b len n))
     \<and> agree (span b (n * len) \<union> (if has_buffer malloc n len then span (buffer tmp malloc n len) (buffer_size n len) else {})) m m'"

lemma qsort_r_sorts:
  assumes c: "comparison c" "compares_all len cmp arg c" and room: "sort_room tmp malloc b n len"
  shows "\<exists>m'. qsort_r tmp malloc b n len cmp arg m = Some m' \<and> sorts tmp malloc b n len c m m'"
proof (cases "n \<le> 1")
  case True
  then have "length (elems m b len n) \<le> 1" by simp
  then have "sorted_by c (elems m b len n)" by (cases "elems m b len n") (auto simp: sorted_by_def)
  with True show ?thesis by (simp add: qsort_r_def sorts_def stable_by_def agree_refl)
next
  case False
  show ?thesis
  proof (cases "has_buffer malloc n len")
    case True
    with False qsort_r_buffered [OF _ room True c(2), of m] show ?thesis
      by (auto simp: sorts_def mset_msort_l sorted_msort_l [OF c(1)] stable_msort_l [OF c(1)])
  next
    case nb: False
    obtain m' where m': "heapsort_r b (n - 1) len cmp arg m = Some m'" "arranged b len n m (heapsort_l c (elems m b len n)) m'"
      using heapsort_r [OF c(2), of n b m] False by auto
    have "qsort_r tmp malloc b n len cmp arg m = Some m'"
      using False nb m'(1) by (simp add: qsort_r_def has_buffer_def)
    with m'(2) nb show ?thesis by (simp add: sorts_def arranged_def heapsort_l [OF c(1)])
  qed
qed

text \<open>C18: \<^verbatim>\<open>qsort\<close> returns for every array in the address space, every element size and every answer of the
  allocator. The array it leaves is sorted by the caller's comparison and a permutation of the
  array it was given; elements that compare equal keep their order whenever a buffer was had (the
  heap sort of the other case does not promise it); and nothing but the array and the buffer has
  changed.\<close>

theorem qsort_sorts:
  assumes "comparison c" and "\<And>m x y. cmp m x y = c (bytes_at m x len) (bytes_at m y len)"
    and "sort_room tmp malloc b n len"
  shows "\<exists>m'. qsort tmp malloc b n len cmp m = Some m'
    \<and> sorted_by c (elems m' b len n)
    \<and> mset (elems m' b len n) = mset (elems m b len n)
    \<and> (has_buffer malloc n len \<longrightarrow> stable_by c (elems m b len n) (elems m' b len n))
    \<and> agree (span b (n * len) \<union> (if has_buffer malloc n len then span (buffer tmp malloc n len) (buffer_size n len) else {})) m m'"
proof -
  have "compares_all len (with_arg cmp) 0 c" using assms(2) by (simp add: compares_all_def with_arg)
  from qsort_r_sorts [OF assms(1) this assms(3), of m] show ?thesis
    unfolding sorts_def qsort_def qsort_internal_eq [of _ _ _ _ _ _ _ 0] .
qed

text \<open>The copy of the sort that was made for comparisons without the extra argument does what the
  original does with a comparison that ignores it.\<close>

theorem qsort_like_qsort_r:
  "qsort tmp malloc b n len cmp m = qsort_r tmp malloc b n len (\<lambda>m x y arg. cmp m x y) arg m"
proof -
  have "with_arg cmp = (\<lambda>m x y arg. cmp m x y)" by (intro ext) (rule with_arg)
  then show ?thesis unfolding qsort_def qsort_internal_eq [of _ _ _ _ _ _ _ arg] by simp
qed

section \<open>An instance\<close>

text \<open>Three bytes compared as unsigned numbers.\<close>

definition byte_order :: "8 word list \<Rightarrow> 8 word list \<Rightarrow> int" where
  "byte_order xs ys = int (unat (hd xs)) - int (unat (hd ys))"

definition byte_cmp :: compar_fn where
  "byte_cmp m x y = int (unat (m x)) - int (unat (m y))"

definition three_bytes :: mem where
  "three_bytes = (\<lambda>_. 0)(4096 := 3, 4097 := 1, 4098 := 2)"

lemma byte_order: "comparison byte_order" "byte_cmp m x y = byte_order (bytes_at m x 1) (bytes_at m y 1)"
  by (auto simp: comparison_def byte_order_def byte_cmp_def bytes_at_def)

theorem qsort_sorts_witness:
  "sort_room 8192 (\<lambda>_. 0) 4096 3 1 \<and> has_buffer (\<lambda>_. 0) 3 1
   \<and> (\<exists>m'. qsort 8192 (\<lambda>_. 0) 4096 3 1 byte_cmp three_bytes = Some m'
        \<and> m' 4096 = 1 \<and> m' 4097 = 2 \<and> m' 4098 = 3 \<and> m' 0 = three_bytes 0)"
proof -
  have room: "sort_room 8192 (\<lambda>_. 0) 4096 3 1"
    by (auto simp: sort_room_def QSORT_STACK_SIZE_def span_def)
  have buf: "has_buffer (\<lambda>_. 0) 3 1" "buffer 8192 (\<lambda>_. 0) 3 1 = 8192" "buffer_size 3 1 = 3"
    by (simp_all add: has_buffer_def buffer_def buffer_size_def size_cast_def QSORT_STACK_SIZE_def INDIRECT_SORT_SIZE_THRES_def)
  obtain m' where m': "qsort 8192 (\<lambda>_. 0) 4096 3 1 byte_cmp three_bytes = Some m'"
      "sorted_by byte_order (elems m' 4096 1 3)" "mset (elems m' 4096 1 3) = mset (elems three_bytes 4096 1 3)"
      "agree (span 4096 3 \<union> span 8192 3) three_bytes m'"
    using qsort_sorts [OF byte_order room, of three_bytes] buf by auto
  have els: "elems m 4096 1 3 = [[m 4096], [m 4097], [m 4098]]" for m
    by (simp add: numeral_3_eq_3 bytes_at_def)
  have "mset (elems three_bytes 4096 1 3) = {#[3], [1], [2]#}" unfolding els three_bytes_def by simp
  then have "mset (elems m' 4096 1 3) = {#[3], [1], [2]#}" by (simp only: m'(3))
  then have "{#m' 4096, m' 4097, m' 4098#} = {#3, 1, 2#}"
    unfolding els by (metis (no_types, lifting) image_mset_add_mset image_mset_empty list.sel(1) mset.simps)
  moreover have "uint (m' 4096) \<le> uint (m' 4097)" "uint (m' 4097) \<le> uint (m' 4098)"
    using m'(2) unfolding els by (simp_all add: sorted_by_def byte_order_def)
  ultimately have "m' 4096 = 1 \<and> m' 4097 = 2 \<and> m' 4098 = 3"
    by (auto simp: add_eq_conv_ex add_mset_eq_single)
  moreover have "m' 0 = three_bytes 0" using m'(4) by (auto simp: agree_def span_def)
  ultimately show ?thesis using room buf(1) m'(1) by blast
qed

end
