(* ===== verification/Lind_Syscall.thy ===== *)
theory Lind_Syscall
  imports Byte_Memory
begin

text \<open>
  The system-call layer of the C library in a cage: translation of guest addresses, the call into
  the runtime with its error protocol (\<^verbatim>\<open>lind_syscall.c\<close>, \<^verbatim>\<open>addr_translation.h\<close>, \<^verbatim>\<open>syscall-template.h\<close>),
  and the interface grates use to register handlers and to copy between cages. What the runtime
  does with a call is a parameter, a function from the call and the linear memory of the cage to the
  32-bit result and the memory it leaves. C integers are words of their width; a pointer of the
  guest is a 32-bit word.
\<close>

unbundle bit_operations_syntax

section \<open>State\<close>

text \<open>The static variables of the library and the linear memory of the cage.\<close>

record lind =
  lind_base :: u64
  lind_cageid :: u64
  lind_errno :: u32
  curbrk :: u32
  lmem :: mem

text \<open>The call name is a string literal of the wrapper, or a number where it is not used.\<close>

datatype call_name = Literal string | Number u64

record threei_call =
  callnumber :: u32
  callname :: call_name
  self_cage :: u64
  target_cage :: u64
  call_args :: "(u64 \<times> u64) list"

type_synonym host = "threei_call \<Rightarrow> mem \<Rightarrow> u32 \<times> mem"

definition NOTUSED :: u64 where "NOTUSED = 0xdeadbeefdeadbeef"
definition MAX_ERRNO :: int where "MAX_ERRNO = 256"
definition TRANSLATE_ERRNO_ON :: u32 where "TRANSLATE_ERRNO_ON = 1"
definition TRANSLATE_ERRNO_OFF :: u32 where "TRANSLATE_ERRNO_OFF = 0"

section \<open>Address translation\<close>

definition LIND_ARG_TRANSLATE_FLAG :: u64 where "LIND_ARG_TRANSLATE_FLAG = push_bit 63 1"
definition LIND_ARG_CAGEID_MASK :: u64 where "LIND_ARG_CAGEID_MASK = NOT LIND_ARG_TRANSLATE_FLAG"

text \<open>The host answers with the base address and the number of the cage.\<close>

definition lind_init_addr_translation :: "u64 \<Rightarrow> u64 \<Rightarrow> lind \<Rightarrow> lind" where
  "lind_init_addr_translation memory_base cage_id s =
     (if lind_base s \<noteq> 0 \<and> lind_cageid s \<noteq> 0 then s
      else s\<lparr> lind_base := memory_base, lind_cageid := cage_id \<rparr>)"

definition translate_ptr_to_host :: "lind \<Rightarrow> u32 \<Rightarrow> u64" where
  "translate_ptr_to_host s p = (if p = 0 then 0 else lind_base s + ucast p)"

definition translate_uaddr_to_host :: "lind \<Rightarrow> u64 \<Rightarrow> u64 \<Rightarrow> u64" where
  "translate_uaddr_to_host s uaddr cageid =
     (if cageid AND LIND_ARG_CAGEID_MASK = lind_cageid s \<and> cageid AND LIND_ARG_TRANSLATE_FLAG \<noteq> 0
      then lind_base s + uaddr else uaddr)"

definition translate_uaddr_arg :: "lind \<Rightarrow> u64 \<Rightarrow> u64 \<Rightarrow> u64 \<times> u64" where
  "translate_uaddr_arg s uaddr cageid =
     (translate_uaddr_to_host s uaddr (cageid OR LIND_ARG_TRANSLATE_FLAG), cageid)"

definition translate_arg_to_host :: "lind \<Rightarrow> u64 \<times> u64 \<Rightarrow> u64 \<times> u64" where
  "translate_arg_to_host s a =
     (case a of (uaddr, cageid) \<Rightarrow> (translate_uaddr_to_host s uaddr cageid, cageid AND LIND_ARG_CAGEID_MASK))"

section \<open>The call\<close>

definition make_threei_call ::
  "host \<Rightarrow> u32 \<Rightarrow> call_name \<Rightarrow> u64 \<Rightarrow> u64 \<Rightarrow> (u64 \<times> u64) list \<Rightarrow> u32 \<Rightarrow> lind \<Rightarrow> u32 \<times> lind" where
  "make_threei_call host num name self target args translate_errno s =
     (case host \<lparr> callnumber = num, callname = name, self_cage = self, target_cage = target,
                  call_args = map (translate_arg_to_host s) args \<rparr> (lmem s) of
        (ret, m) \<Rightarrow>
          let s' = s\<lparr> lmem := m \<rparr> in
          if translate_errno = TRANSLATE_ERRNO_OFF then (ret, s')
          else if sint ret < 0 \<and> - MAX_ERRNO < sint ret then (-1, s'\<lparr> lind_errno := - ret \<rparr>)
          else (ret, s'))"

definition MAKE_LEGACY_SYSCALL :: "host \<Rightarrow> u32 \<Rightarrow> string \<Rightarrow> u64 list \<Rightarrow> u32 \<Rightarrow> lind \<Rightarrow> u32 \<times> lind" where
  "MAKE_LEGACY_SYSCALL host num name args translate_errno s =
     make_threei_call host num (Literal name) (lind_cageid s) (lind_cageid s)
       (map (\<lambda>a. (a, lind_cageid s)) args) translate_errno s"

section \<open>The interface for grates\<close>

definition REGISTER_HANDLER_SYSCALL :: u32 where "REGISTER_HANDLER_SYSCALL = 1001"
definition COPY_DATA_BETWEEN_CAGES_SYSCALL :: u32 where "COPY_DATA_BETWEEN_CAGES_SYSCALL = 1002"
definition COPY_HANDLER_TABLE_TO_CAGE_SYSCALL :: u32 where "COPY_HANDLER_TABLE_TO_CAGE_SYSCALL = 1003"
definition REGISTER_LIB_HANDLER_SYSCALL :: u32 where "REGISTER_LIB_HANDLER_SYSCALL = 1004"

definition register_handler :: "host \<Rightarrow> u64 \<Rightarrow> u64 \<Rightarrow> u64 \<Rightarrow> u64 \<Rightarrow> lind \<Rightarrow> u32 \<times> lind" where
  "register_handler host targetcage targetcallnum this_grate_id in_grate_fn_ptr =
     make_threei_call host REGISTER_HANDLER_SYSCALL (Number NOTUSED) this_grate_id this_grate_id
       [(targetcage, targetcallnum), (NOTUSED, this_grate_id), (in_grate_fn_ptr, NOTUSED),
        (NOTUSED, NOTUSED), (NOTUSED, NOTUSED), (NOTUSED, NOTUSED)]
       TRANSLATE_ERRNO_OFF"

text \<open>\<^verbatim>\<open>getpid\<close> is the number the host calls the cage by.\<close>

definition register_lib_handler :: "host \<Rightarrow> u64 \<Rightarrow> u64 \<Rightarrow> u32 \<Rightarrow> u32 \<Rightarrow> u64 \<Rightarrow> u64 \<Rightarrow> lind \<Rightarrow> u32 \<times> lind" where
  "register_lib_handler host pid target_cage_id lib_name symbol_name handler_cage handler_fn s =
     make_threei_call host REGISTER_LIB_HANDLER_SYSCALL (Number NOTUSED) pid pid
       [(target_cage_id, NOTUSED), (translate_ptr_to_host s lib_name, NOTUSED),
        (translate_ptr_to_host s symbol_name, NOTUSED), (handler_cage, NOTUSED), (handler_fn, NOTUSED),
        (NOTUSED, NOTUSED)]
       TRANSLATE_ERRNO_OFF s"

definition copy_data_between_cages ::
  "host \<Rightarrow> u64 \<Rightarrow> u64 \<Rightarrow> u64 \<Rightarrow> u64 \<Rightarrow> u64 \<Rightarrow> u64 \<Rightarrow> u64 \<Rightarrow> u64 \<Rightarrow> lind \<Rightarrow> u32 \<times> lind" where
  "copy_data_between_cages host thiscage targetcage srcaddr srccage destaddr destcage len copytype s =
     make_threei_call host COPY_DATA_BETWEEN_CAGES_SYSCALL (Number NOTUSED) thiscage thiscage
       [translate_uaddr_arg s srcaddr srccage, translate_uaddr_arg s destaddr destcage,
        (len, NOTUSED), (copytype, NOTUSED), (NOTUSED, NOTUSED), (NOTUSED, NOTUSED)]
       TRANSLATE_ERRNO_OFF s"

definition copy_handler_table_to_cage :: "host \<Rightarrow> u64 \<Rightarrow> u64 \<Rightarrow> lind \<Rightarrow> u32 \<times> lind" where
  "copy_handler_table_to_cage host thiscage targetcage =
     make_threei_call host COPY_HANDLER_TABLE_TO_CAGE_SYSCALL (Number NOTUSED) thiscage thiscage
       [(thiscage, targetcage), (NOTUSED, NOTUSED), (NOTUSED, NOTUSED), (NOTUSED, NOTUSED),
        (NOTUSED, NOTUSED), (NOTUSED, NOTUSED)]
       TRANSLATE_ERRNO_OFF"

section \<open>Cage numbers and the flag\<close>

lemma flag_bits: "bit LIND_ARG_TRANSLATE_FLAG n \<longleftrightarrow> n = 63"
  unfolding LIND_ARG_TRANSLATE_FLAG_def bit_push_bit_iff by (auto simp: bit_1_iff)

lemma mask_bits: "bit LIND_ARG_CAGEID_MASK n \<longleftrightarrow> n < 64 \<and> n \<noteq> 63"
  by (auto simp: LIND_ARG_CAGEID_MASK_def bit_not_iff flag_bits)

definition plain :: "u64 \<Rightarrow> bool" where
  "plain cageid \<longleftrightarrow> cageid AND LIND_ARG_TRANSLATE_FLAG = 0"

lemma plain_bit: "plain c \<longleftrightarrow> \<not> bit c 63"
proof -
  have "bit (c AND LIND_ARG_TRANSLATE_FLAG) n \<longleftrightarrow> n = 63 \<and> bit c 63" for n
    by (auto simp: bit_and_iff flag_bits)
  then show ?thesis unfolding plain_def by (metis bit_0_eq bot_apply bot_bool_def bit_eq_iff)
qed

lemma plain_mask: "plain c \<Longrightarrow> c AND LIND_ARG_CAGEID_MASK = c"
  by (rule bit_word_eqI) (auto simp: bit_and_iff mask_bits plain_bit)

lemma flagged_mask: "plain c \<Longrightarrow> (c OR LIND_ARG_TRANSLATE_FLAG) AND LIND_ARG_CAGEID_MASK = c"
  by (rule bit_word_eqI) (auto simp: bit_and_iff bit_or_iff mask_bits flag_bits plain_bit)

lemma flagged: "\<not> plain (c OR LIND_ARG_TRANSLATE_FLAG)"
  by (simp add: plain_bit bit_or_iff flag_bits)

lemma translate_plain: "plain c \<Longrightarrow> translate_uaddr_to_host s a c = a"
  by (simp add: translate_uaddr_to_host_def plain_def)

lemma translate_flagged:
  "plain c \<Longrightarrow> translate_uaddr_to_host s a (c OR LIND_ARG_TRANSLATE_FLAG) =
     (if c = lind_cageid s then lind_base s + a else a)"
  using flagged [of c] by (simp add: translate_uaddr_to_host_def flagged_mask plain_def)

lemma translate_arg_plain: "plain c \<Longrightarrow> translate_arg_to_host s (a, c) = (a, c)"
  by (simp add: translate_arg_to_host_def translate_plain plain_mask)

lemma translate_arg_flagged:
  "plain c \<Longrightarrow> translate_arg_to_host s (a, c OR LIND_ARG_TRANSLATE_FLAG) =
     (if c = lind_cageid s then lind_base s + a else a, c)"
  by (simp add: translate_arg_to_host_def translate_flagged flagged_mask)

text \<open>The number that stands for an unused argument has the flag's bit set. In a cage slot it therefore
  arrives with the bit cleared.\<close>

lemma NOTUSED_slot:
  "LIND_ARG_CAGEID_MASK = 0x7fffffffffffffff" "NOTUSED AND LIND_ARG_CAGEID_MASK = 0x5eadbeefdeadbeef"
  by (simp_all add: LIND_ARG_CAGEID_MASK_def LIND_ARG_TRANSLATE_FLAG_def NOTUSED_def)

lemma translate_arg_unused:
  "lind_cageid s \<noteq> 0x5eadbeefdeadbeef \<Longrightarrow> translate_arg_to_host s (a, NOTUSED) = (a, 0x5eadbeefdeadbeef)"
  by (simp only: translate_arg_to_host_def translate_uaddr_to_host_def NOTUSED_slot(2) prod.case not_sym simp_thms if_False)

lemma MAKE_LEGACY_SYSCALL_call:
  "plain (lind_cageid s) \<Longrightarrow>
   MAKE_LEGACY_SYSCALL host num name args te s =
     (case host \<lparr> callnumber = num, callname = Literal name, self_cage = lind_cageid s, target_cage = lind_cageid s,
                  call_args = map (\<lambda>a. (a, lind_cageid s)) args \<rparr> (lmem s) of
        (ret, m) \<Rightarrow>
          if te = TRANSLATE_ERRNO_OFF then (ret, s\<lparr> lmem := m \<rparr>)
          else if sint ret < 0 \<and> - MAX_ERRNO < sint ret then (-1, s\<lparr> lmem := m, lind_errno := - ret \<rparr>)
          else (ret, s\<lparr> lmem := m \<rparr>))"
  by (simp add: MAKE_LEGACY_SYSCALL_def make_threei_call_def translate_arg_plain comp_def Let_def split: prod.split)

text \<open>A raw result that stands for an error.\<close>

definition refused :: "u32 \<Rightarrow> bool" where
  "refused ret \<longleftrightarrow> -255 \<le> sint ret \<and> sint ret \<le> -1"

lemma legacy_on:
  "plain (lind_cageid s) \<Longrightarrow>
   MAKE_LEGACY_SYSCALL host num name args TRANSLATE_ERRNO_ON s =
     (case host \<lparr> callnumber = num, callname = Literal name, self_cage = lind_cageid s, target_cage = lind_cageid s,
                  call_args = map (\<lambda>a. (a, lind_cageid s)) args \<rparr> (lmem s) of
        (ret, m) \<Rightarrow> if refused ret then (-1, s\<lparr> lmem := m, lind_errno := - ret \<rparr>) else (ret, s\<lparr> lmem := m \<rparr>))"
  unfolding MAKE_LEGACY_SYSCALL_call
  by (auto simp: TRANSLATE_ERRNO_ON_def TRANSLATE_ERRNO_OFF_def refused_def MAX_ERRNO_def split: prod.split)

section \<open>What a caller sees\<close>

text \<open>C22: With errno translation, a raw result from -255 to -1 is reported as -1 with its negation in
  errno, and every other result is handed on with errno untouched; the memory is the one the
  runtime left, and the other variables of the library keep their values.\<close>

theorem make_threei_call_errno:
  assumes "host \<lparr> callnumber = num, callname = name, self_cage = self, target_cage = target,
      call_args = map (translate_arg_to_host s) args \<rparr> (lmem s) = (ret, m)"
    and "make_threei_call host num name self target args TRANSLATE_ERRNO_ON s = (r, s')"
  shows "(if -255 \<le> sint ret \<and> sint ret \<le> -1 then r = -1 \<and> sint (lind_errno s') = - sint ret
      else r = ret \<and> lind_errno s' = lind_errno s)
    \<and> lmem s' = m \<and> lind_base s' = lind_base s \<and> lind_cageid s' = lind_cageid s \<and> curbrk s' = curbrk s"
proof (cases "-255 \<le> sint ret \<and> sint ret \<le> -1")
  case True
  then have "sint (- ret) = - sint ret"
    by (simp add: sint_word_minus signed_take_bit_int_eq_self)
  with True assms show ?thesis
    by (auto simp: make_threei_call_def TRANSLATE_ERRNO_ON_def TRANSLATE_ERRNO_OFF_def MAX_ERRNO_def Let_def)
next
  case False
  with assms show ?thesis
    by (auto simp: make_threei_call_def TRANSLATE_ERRNO_ON_def TRANSLATE_ERRNO_OFF_def MAX_ERRNO_def Let_def)
qed

text \<open>Where an address of a cage lies for the host.\<close>

definition located :: "lind \<Rightarrow> u64 \<Rightarrow> u64 \<Rightarrow> u64" where
  "located s addr cageid = (if cageid = lind_cageid s then lind_base s + addr else addr)"

lemma translate_uaddr_once:
  "plain c \<Longrightarrow> translate_arg_to_host s (translate_uaddr_arg s a c) = (located s a c, c)"
  by (simp add: translate_uaddr_arg_def translate_flagged translate_arg_plain located_def)

text \<open>A copy between cages translates each of its two addresses exactly once, and only if it lies in
  the calling cage, although it passes through two translating macros; an address of another cage
  reaches the host as it is.\<close>

theorem copy_data_between_cages_once:
  assumes "plain srccage" and "plain destcage" and "lind_cageid s \<noteq> 0x5eadbeefdeadbeef"
  shows "copy_data_between_cages host thiscage targetcage srcaddr srccage destaddr destcage len copytype s =
    (case host \<lparr> callnumber = COPY_DATA_BETWEEN_CAGES_SYSCALL, callname = Number NOTUSED,
        self_cage = thiscage, target_cage = thiscage,
        call_args = [(located s srcaddr srccage, srccage), (located s destaddr destcage, destcage),
          (len, 0x5eadbeefdeadbeef), (copytype, 0x5eadbeefdeadbeef),
          (NOTUSED, 0x5eadbeefdeadbeef), (NOTUSED, 0x5eadbeefdeadbeef)] \<rparr> (lmem s) of
       (ret, m) \<Rightarrow> (ret, s\<lparr> lmem := m \<rparr>))"
  unfolding copy_data_between_cages_def make_threei_call_def
  by (simp add: translate_uaddr_once assms translate_arg_unused TRANSLATE_ERRNO_OFF_def Let_def split: prod.split)

text \<open>A cage number that already carries the flag is translated twice.\<close>

lemma copy_data_between_cages_twice:
  assumes "plain c" and "c = lind_cageid s"
  shows "translate_arg_to_host s (translate_uaddr_arg s a (c OR LIND_ARG_TRANSLATE_FLAG)) =
    (lind_base s + (lind_base s + a), c)"
proof -
  have "c OR LIND_ARG_TRANSLATE_FLAG OR LIND_ARG_TRANSLATE_FLAG = c OR LIND_ARG_TRANSLATE_FLAG"
    by (simp add: or.assoc)
  with assms show ?thesis by (simp add: translate_uaddr_arg_def translate_flagged translate_arg_flagged)
qed

section \<open>An instance\<close>

definition cage_one :: lind where
  "cage_one = \<lparr> lind_base = 0x10000000000, lind_cageid = 1, lind_errno = 0, curbrk = 0, lmem = (\<lambda>_. 0) \<rparr>"

text \<open>A runtime that refuses every call with \<^verbatim>\<open>ENOMEM\<close>.\<close>

definition refusing :: host where
  "refusing c m = (- 12, m)"

lemma plain_one: "plain 1"
  by (simp add: plain_def LIND_ARG_TRANSLATE_FLAG_def)

theorem make_threei_call_errno_witness:
  "fst (make_threei_call refusing 12 (Literal ''brk'') 1 1 [(0, 1)] TRANSLATE_ERRNO_ON cage_one) = -1
   \<and> sint (lind_errno (snd (make_threei_call refusing 12 (Literal ''brk'') 1 1 [(0, 1)] TRANSLATE_ERRNO_ON cage_one))) = 12"
  using make_threei_call_errno [of refusing 12 "Literal ''brk''" 1 1 cage_one "[(0, 1)]" "- 12" "\<lambda>_. 0"
      "fst (make_threei_call refusing 12 (Literal ''brk'') 1 1 [(0, 1)] TRANSLATE_ERRNO_ON cage_one)"
      "snd (make_threei_call refusing 12 (Literal ''brk'') 1 1 [(0, 1)] TRANSLATE_ERRNO_ON cage_one)"]
  by (simp add: refusing_def cage_one_def)

text \<open>A runtime that answers 1 if the call copies from cage 2 to this cage's own 0x2000.\<close>

definition expecting :: host where
  "expecting c m =
     (if take 2 (call_args c) = [(0x1000, 2), (0x10000002000, 1)] then 1 else 0, m)"

theorem copy_data_between_cages_once_witness:
  "fst (copy_data_between_cages expecting 1 2 0x1000 2 0x2000 1 64 0 cage_one) = 1"
proof -
  have "plain 2" "plain 1" by (simp_all add: plain_def LIND_ARG_TRANSLATE_FLAG_def)
  moreover have "lind_cageid cage_one \<noteq> 0x5eadbeefdeadbeef" by (simp add: cage_one_def)
  ultimately show ?thesis
    using copy_data_between_cages_once [where srccage = 2 and destcage = 1 and s = cage_one and host = expecting
      and thiscage = 1 and targetcage = 2 and srcaddr = "0x1000" and destaddr = "0x2000" and len = 64 and copytype = 0]
    by (simp add: expecting_def located_def cage_one_def)
qed

end
