(* ===== verification/Lind_Break.thy ===== *)
theory Lind_Break
  imports Lind_Syscall
begin

text \<open>
  Memory from the runtime: \<^verbatim>\<open>brk.c\<close>, \<^verbatim>\<open>sbrk.c\<close> and \<^verbatim>\<open>mmap.c\<close>. The break is a guest address; \<^verbatim>\<open>mmap\<close>
  passes guest addresses on without translation and relies on the errno protocol to tell an address
  from an error.
\<close>

definition BRK_SYSCALL :: u32 where "BRK_SYSCALL = 12"
definition MMAP_SYSCALL :: u32 where "MMAP_SYSCALL = 9"
definition ENOMEM :: u32 where "ENOMEM = 12"

definition brk :: "host \<Rightarrow> u32 \<Rightarrow> lind \<Rightarrow> u32 \<times> lind" where
  "brk host addr s =
     (case MAKE_LEGACY_SYSCALL host BRK_SYSCALL ''syscall|brk''
             [ucast addr, NOTUSED, NOTUSED, NOTUSED, NOTUSED, NOTUSED] TRANSLATE_ERRNO_ON s of
        (ret, s1) \<Rightarrow>
          let s2 = s1\<lparr> curbrk := ret \<rparr> in
          if ret < addr then (-1, s2\<lparr> lind_errno := ENOMEM \<rparr>) else (0, s2))"

definition sbrk :: "host \<Rightarrow> u32 \<Rightarrow> lind \<Rightarrow> u32 \<times> lind" where
  "sbrk host increment s =
     (let update_brk = (curbrk s = 0);
          (r, s1) = (if update_brk then brk host 0 s else (0, s)) in
      if update_brk \<and> sint r < 0 then (-1, s1)
      else if increment = 0 then (curbrk s1, s1)
      else
        let oldbrk = curbrk s1 in
        if (if 0 < sint increment then oldbrk + increment < oldbrk else oldbrk < - increment)
        then (-1, s1\<lparr> lind_errno := ENOMEM \<rparr>)
        else (case brk host (oldbrk + increment) s1 of
                (r', s2) \<Rightarrow> if sint r' < 0 then (-1, s2) else (oldbrk, s2)))"

definition mmap :: "host \<Rightarrow> u32 \<Rightarrow> u32 \<Rightarrow> u32 \<Rightarrow> u32 \<Rightarrow> u32 \<Rightarrow> u32 \<Rightarrow> lind \<Rightarrow> u32 \<times> lind" where
  "mmap host addr len prot flags fd offset s =
     MAKE_LEGACY_SYSCALL host MMAP_SYSCALL ''syscall|mmap''
       [ucast addr, ucast len, scast prot, scast flags, scast fd, scast offset] TRANSLATE_ERRNO_ON s"

section \<open>The call a break makes\<close>

definition brk_call :: "u32 \<Rightarrow> lind \<Rightarrow> threei_call" where
  "brk_call addr s =
     \<lparr> callnumber = BRK_SYSCALL, callname = Literal ''syscall|brk'', self_cage = lind_cageid s, target_cage = lind_cageid s,
       call_args = [(ucast addr, lind_cageid s), (NOTUSED, lind_cageid s), (NOTUSED, lind_cageid s),
         (NOTUSED, lind_cageid s), (NOTUSED, lind_cageid s), (NOTUSED, lind_cageid s)] \<rparr>"

lemma brk_refused:
  assumes "plain (lind_cageid s)" and "host (brk_call addr s) (lmem s) = (ret, m)" and "refused ret"
  shows "brk host addr s = (0, s\<lparr> lmem := m, lind_errno := - ret, curbrk := -1 \<rparr>)"
proof -
  have "\<not> (-1 :: u32) < addr" by (simp add: not_less word_order.extremum)
  with assms show ?thesis by (simp add: brk_def legacy_on brk_call_def)
qed

lemma brk_granted:
  assumes "plain (lind_cageid s)" and "host (brk_call addr s) (lmem s) = (ret, m)" and "\<not> refused ret" and "addr \<le> ret"
  shows "brk host addr s = (0, s\<lparr> lmem := m, curbrk := ret \<rparr>)"
  using assms by (simp add: brk_def legacy_on brk_call_def Let_def not_less)

text \<open>C26: What \<^verbatim>\<open>sbrk\<close> with a non-zero increment does once the break is known. If the new break would leave
  the address space it fails with \<^verbatim>\<open>ENOMEM\<close> without a call. If the runtime grants the break, the
  caller gets the start of the new memory and the break is the one granted. If the runtime refuses,
  the caller is told the same: the refusal has become the address -1, which is not below the
  requested break, so that the old break is returned as if memory had been had, and the break of the
  cage is -1 from then on.\<close>

theorem sbrk_outcomes:
  assumes "plain (lind_cageid s)" and "curbrk s \<noteq> 0" and "increment \<noteq> 0"
    and "leaves \<longleftrightarrow> (if 0 < sint increment then curbrk s + increment < curbrk s else curbrk s < - increment)"
    and "host (brk_call (curbrk s + increment) s) (lmem s) = (ret, m)"
  shows "(leaves \<longrightarrow> sbrk host increment s = (-1, s\<lparr> lind_errno := ENOMEM \<rparr>))
    \<and> (\<not> leaves \<and> \<not> refused ret \<and> curbrk s + increment \<le> ret \<longrightarrow>
        sbrk host increment s = (curbrk s, s\<lparr> lmem := m, curbrk := ret \<rparr>))
    \<and> (\<not> leaves \<and> refused ret \<longrightarrow>
        sbrk host increment s = (curbrk s, s\<lparr> lmem := m, lind_errno := - ret, curbrk := -1 \<rparr>))"
proof -
  have first: "sbrk host increment s =
     (if leaves then (-1, s\<lparr> lind_errno := ENOMEM \<rparr>)
      else (case brk host (curbrk s + increment) s of (r, s') \<Rightarrow> if sint r < 0 then (-1, s') else (curbrk s, s')))"
    using assms(2,3) unfolding assms(4) sbrk_def by (simp add: Let_def)
  show ?thesis
    using brk_granted [of s host "curbrk s + increment" ret m] brk_refused [of s host "curbrk s + increment" ret m] assms(1,5)
    unfolding first by simp
qed

section \<open>Addresses and errors\<close>

text \<open>What a mapping call of the runtime means, and how it is written into 32 bits.\<close>

datatype mapping = Mapped u32 | Failed u32

fun mapping_ok :: "mapping \<Rightarrow> bool" where
  "mapping_ok (Mapped a) \<longleftrightarrow> uint a mod 4096 = 0"
| "mapping_ok (Failed e) \<longleftrightarrow> 1 \<le> uint e \<and> uint e \<le> 255"

fun encode_mapping :: "mapping \<Rightarrow> u32" where
  "encode_mapping (Mapped a) = a"
| "encode_mapping (Failed e) = - e"

definition decode_mapping :: "u32 \<times> lind \<Rightarrow> mapping" where
  "decode_mapping rs = (case rs of (r, s) \<Rightarrow> if r = -1 then Failed (lind_errno s) else Mapped r)"

lemma refused_uint: "refused r \<longleftrightarrow> 2 ^ 32 - 255 \<le> uint r"
proof -
  have sr: "sint r = (uint r + 2 ^ 31) mod 2 ^ 32 - 2 ^ 31"
    using int_word_sint [where 'a = 32, of "uint r"] by simp
  have "0 \<le> uint r" "uint r < 2 ^ 32" using uint_lt2p [of r] by simp_all
  then have "sint r = (if uint r < 2 ^ 31 then uint r else uint r - 2 ^ 32)"
  proof (cases "uint r < 2 ^ 31")
    case False
    then have "(uint r + 2 ^ 31) mod 2 ^ 32 = uint r - 2 ^ 31"
      using minus_mod_self2 [of "uint r + 2 ^ 31" "2 ^ 32"] \<open>uint r < 2 ^ 32\<close> by (simp add: mod_pos_pos_trivial)
    with False sr show ?thesis by simp
  qed (simp add: sr mod_pos_pos_trivial)
  note sint_r = this
  show ?thesis
  proof (cases "uint r < 2 ^ 31")
    case True
    then have "sint r = uint r" using sint_r by simp
    with \<open>0 \<le> uint r\<close> have "\<not> sint r \<le> -1" by linarith
    moreover have "\<not> 2 ^ 32 - 255 \<le> uint r" using True by simp
    ultimately show ?thesis unfolding refused_def by blast
  next
    case False
    then have "sint r \<le> -1" "sint r = uint r - 2 ^ 32" using sint_r \<open>uint r < 2 ^ 32\<close> by simp_all
    then show ?thesis unfolding refused_def by simp
  qed
qed

lemma aligned_not_refused: "uint a mod 4096 = 0 \<Longrightarrow> \<not> refused a"
proof
  assume a: "uint a mod 4096 = 0" and "refused a"
  then have "2 ^ 32 - 255 \<le> uint a" "uint a < 2 ^ 32" using uint_lt2p [of a] by (simp_all add: refused_uint)
  moreover obtain k where "uint a = 4096 * k" using a by (metis mod_0_imp_dvd dvdE)
  ultimately have "1048575 < k" "k < 1048576" by simp_all
  then show False by simp
qed

lemma failed_refused:
  assumes "1 \<le> uint e" and "uint e \<le> 255"
  shows "refused (- e)"
proof -
  have "uint (- e) = 2 ^ 32 - uint e" using assms by (simp add: uint_word_ariths zmod_zminus1_eq_if)
  with assms show ?thesis by (simp add: refused_uint)
qed

text \<open>The errno protocol is unambiguous for \<^verbatim>\<open>mmap\<close>: whatever page-aligned address or error number the
  runtime answers with, addresses beyond the range of a signed integer included, the result and
  errno that the caller sees tell it exactly.\<close>

theorem mmap_round_trip:
  assumes "plain (lind_cageid s)" and "mapping_ok r" and "\<And>c m. host c m = (encode_mapping r, f c m)"
  shows "decode_mapping (mmap host addr len prot flags fd offset s) = r"
proof (cases r)
  case (Mapped a)
  then have "\<not> refused a" using assms(2) by (simp add: aligned_not_refused)
  moreover from this have "a \<noteq> -1" by (auto simp: refused_def)
  ultimately show ?thesis using assms(1,3) Mapped by (simp add: mmap_def legacy_on decode_mapping_def)
next
  case (Failed e)
  then have "refused (- e)" using assms(2) by (simp add: failed_refused)
  then show ?thesis using assms(1,3) Failed by (simp add: mmap_def legacy_on decode_mapping_def)
qed

section \<open>Instances\<close>

theorem sbrk_outcomes_witness:
  "sbrk refusing 4096 (cage_one\<lparr> curbrk := 0x20000 \<rparr>) =
     (0x20000, cage_one\<lparr> curbrk := -1, lind_errno := ENOMEM \<rparr>)"
  using sbrk_outcomes [of "cage_one\<lparr> curbrk := 0x20000 \<rparr>" 4096 False refusing "- 12" "\<lambda>_. 0"]
  by (simp add: cage_one_def plain_one refusing_def refused_def ENOMEM_def)

theorem mmap_round_trip_witness:
  "decode_mapping (mmap (\<lambda>c m. (0xfffff000, m)) 0 4096 3 34 (-1) 0 cage_one) = Mapped 0xfffff000"
  using mmap_round_trip [of cage_one "Mapped 0xfffff000" "\<lambda>c m. (0xfffff000, m)" "\<lambda>c m. m" 0 4096 3 34 "-1" 0]
  by (simp add: cage_one_def plain_one)

end
