(* ===== verification/Lind_Msg.thy ===== *)
theory Lind_Msg
  imports Lind_Syscall
begin

text \<open>
  Scatter and gather input and output: the translation of \<^verbatim>\<open>struct iovec\<close> arrays
  (\<^verbatim>\<open>addr_translation.h\<close>) and of \<^verbatim>\<open>struct msghdr\<close>, in \<^verbatim>\<open>readv.c\<close>, \<^verbatim>\<open>writev.c\<close>, \<^verbatim>\<open>sendmsg.c\<close> and
  \<^verbatim>\<open>recvmsg.c\<close>. The structures of the guest have the size and the offsets of the host's, with the upper
  half of each pointer as padding; the library builds a translated copy on its stack. The addresses
  of the locals are arguments.

  An \<^verbatim>\<open>iovec\<close> has its pointer at 0 and its length at 8, and 16 bytes. A \<^verbatim>\<open>msghdr\<close> has the name at 0 and
  its length at 8, the vector at 16 and its length at 24, the control data at 32 and its length at
  40, and the flags at 48, and 56 bytes.
\<close>

definition IOVEC_SIZE :: nat where "IOVEC_SIZE = 16"
definition MSGHDR_SIZE :: nat where "MSGHDR_SIZE = 56"
definition READV_SYSCALL :: u32 where "READV_SYSCALL = 19"
definition WRITEV_SYSCALL :: u32 where "WRITEV_SYSCALL = 20"
definition SENDMSG_SYSCALL :: u32 where "SENDMSG_SYSCALL = 46"
definition RECVMSG_SYSCALL :: u32 where "RECVMSG_SYSCALL = 47"

section \<open>Translation\<close>

text \<open>A guest pointer, found as a number, becomes a host pointer split over two words.\<close>

definition put_host_ptr :: "lind \<Rightarrow> mem \<Rightarrow> nat \<Rightarrow> nat \<Rightarrow> mem" where
  "put_host_ptr s m d p =
     (let addr = translate_ptr_to_host s (of_nat p);
          m1 = put_u32 m d (unat (ucast addr :: u32)) in
      put_u32 m1 (d + 4) (unat (ucast (drop_bit 32 addr) :: u32)))"

definition translate_iov_entry :: "lind \<Rightarrow> nat \<Rightarrow> nat \<Rightarrow> mem \<Rightarrow> mem" where
  "translate_iov_entry s g d m =
     (let m1 = put_u32 m (d + 8) (u32_at m (g + 8));
          m2 = put_host_ptr s m1 d (u32_at m1 g) in
      put_u32 m2 (d + 12) 0)"

function translate_iov :: "lind \<Rightarrow> nat \<Rightarrow> nat \<Rightarrow> nat \<Rightarrow> nat \<Rightarrow> mem \<Rightarrow> mem" where
  "translate_iov s guest_iov host_iov i iovcnt m =
     (if i < iovcnt then
        translate_iov s guest_iov host_iov (i + 1) iovcnt
          (translate_iov_entry s (guest_iov + i * IOVEC_SIZE) (host_iov + i * IOVEC_SIZE) m)
      else m)"
  by pat_completeness auto
termination
  by (relation "measure (\<lambda>(s, guest_iov, host_iov, i, iovcnt, m). iovcnt - i)") auto

declare translate_iov.simps [simp del]

text \<open>A vector of a negative length has no entries.\<close>

definition iov_count :: "u32 \<Rightarrow> nat" where
  "iov_count n = nat (sint n)"

definition readv :: "host \<Rightarrow> nat \<Rightarrow> u32 \<Rightarrow> nat \<Rightarrow> u32 \<Rightarrow> lind \<Rightarrow> u32 \<times> lind" where
  "readv host host_iov fd iov iovcnt s =
     MAKE_LEGACY_SYSCALL host READV_SYSCALL ''syscall|readv''
       [scast fd, translate_ptr_to_host s (of_nat host_iov), scast iovcnt, NOTUSED, NOTUSED, NOTUSED]
       TRANSLATE_ERRNO_ON (s\<lparr> lmem := translate_iov s iov host_iov 0 (iov_count iovcnt) (lmem s) \<rparr>)"

definition writev :: "host \<Rightarrow> nat \<Rightarrow> u32 \<Rightarrow> nat \<Rightarrow> u32 \<Rightarrow> lind \<Rightarrow> u32 \<times> lind" where
  "writev host host_iov fd iov iovcnt s =
     MAKE_LEGACY_SYSCALL host WRITEV_SYSCALL ''syscall|writev''
       [scast fd, translate_ptr_to_host s (of_nat host_iov), scast iovcnt, NOTUSED, NOTUSED, NOTUSED]
       TRANSLATE_ERRNO_ON (s\<lparr> lmem := translate_iov s iov host_iov 0 (iov_count iovcnt) (lmem s) \<rparr>)"

text \<open>The fields of the host's \<^verbatim>\<open>msghdr\<close> up to the flags.\<close>

definition fill_msghdr :: "lind \<Rightarrow> nat \<Rightarrow> nat \<Rightarrow> nat \<Rightarrow> mem \<Rightarrow> mem" where
  "fill_msghdr s msg host_iov host_msg m =
     (let m1 = put_host_ptr s m host_msg (u32_at m msg);
          m2 = put_u32 m1 (host_msg + 8) (u32_at m1 (msg + 8));
          m3 = put_u32 m2 (host_msg + 12) 0;
          m4 = put_host_ptr s m3 (host_msg + 16) host_iov;
          m5 = put_u32 m4 (host_msg + 24) (u32_at m4 (msg + 24));
          m6 = put_u32 m5 (host_msg + 28) 0;
          m7 = put_host_ptr s m6 (host_msg + 32) (u32_at m6 (msg + 32));
          m8 = put_u32 m7 (host_msg + 40) (u32_at m7 (msg + 40)) in
      put_u32 m8 (host_msg + 44) 0)"

text \<open>\<open>host_iov\<close> and \<open>host_msg\<close> are the addresses of the two locals.\<close>

definition libc_sendmsg :: "host \<Rightarrow> nat \<Rightarrow> nat \<Rightarrow> u32 \<Rightarrow> nat \<Rightarrow> u32 \<Rightarrow> lind \<Rightarrow> u32 \<times> lind" where
  "libc_sendmsg host host_iov host_msg fd msg flags s =
     (let iovcnt = iov_count (of_nat (u32_at (lmem s) (msg + 24)));
          m1 = translate_iov s (u32_at (lmem s) (msg + 16)) host_iov 0 iovcnt (lmem s);
          m2 = fill_msghdr s msg host_iov host_msg m1;
          m3 = put_u32 m2 (host_msg + 48) (u32_at m2 (msg + 48));
          m4 = put_u32 m3 (host_msg + 52) 0 in
      MAKE_LEGACY_SYSCALL host SENDMSG_SYSCALL ''syscall|sendmsg''
        [scast fd, translate_ptr_to_host s (of_nat host_msg), scast flags, NOTUSED, NOTUSED, NOTUSED]
        TRANSLATE_ERRNO_ON (s\<lparr> lmem := m4 \<rparr>))"

definition recvmsg_syscall :: "host \<Rightarrow> nat \<Rightarrow> nat \<Rightarrow> u32 \<Rightarrow> nat \<Rightarrow> u32 \<Rightarrow> lind \<Rightarrow> u32 \<times> lind" where
  "recvmsg_syscall host host_iov host_msg fd msg flags s =
     (let iovcnt = iov_count (of_nat (u32_at (lmem s) (msg + 24)));
          m1 = translate_iov s (u32_at (lmem s) (msg + 16)) host_iov 0 iovcnt (lmem s);
          m2 = fill_msghdr s msg host_iov host_msg m1;
          m3 = put_u32 m2 (host_msg + 48) 0;
          m4 = put_u32 m3 (host_msg + 52) 0 in
      case MAKE_LEGACY_SYSCALL host RECVMSG_SYSCALL ''syscall|recvmsg''
             [scast fd, translate_ptr_to_host s (of_nat host_msg), scast flags, NOTUSED, NOTUSED, NOTUSED]
             TRANSLATE_ERRNO_ON (s\<lparr> lmem := m4 \<rparr>) of
        (ret, s') \<Rightarrow>
          if 0 \<le> sint ret then
            let m5 = put_u32 (lmem s') (msg + 8) (u32_at (lmem s') (host_msg + 8));
                m6 = put_u32 m5 (msg + 40) (u32_at m5 (host_msg + 40));
                m7 = put_u32 m6 (msg + 48) (u32_at m6 (host_msg + 48)) in
            (ret, s'\<lparr> lmem := m7 \<rparr>)
          else (ret, s'))"

section \<open>What the host reads\<close>

definition u64_at :: "mem \<Rightarrow> nat \<Rightarrow> nat" where
  "u64_at m a = u32_at m a + 2 ^ 32 * u32_at m (a + 4)"

record host_msghdr =
  h_name :: nat
  h_namelen :: nat
  h_iov :: nat
  h_iovlen :: nat
  h_control :: nat
  h_controllen :: nat
  h_flags :: nat

definition read_host_msghdr :: "mem \<Rightarrow> nat \<Rightarrow> host_msghdr" where
  "read_host_msghdr m a =
     \<lparr> h_name = u64_at m a, h_namelen = u32_at m (a + 8), h_iov = u64_at m (a + 16), h_iovlen = u64_at m (a + 24),
       h_control = u64_at m (a + 32), h_controllen = u64_at m (a + 40), h_flags = u32_at m (a + 48) \<rparr>"

definition read_host_iov :: "mem \<Rightarrow> nat \<Rightarrow> nat \<Rightarrow> (nat \<times> nat) list" where
  "read_host_iov m a n = map (\<lambda>i. (u64_at m (a + i * IOVEC_SIZE), u64_at m (a + i * IOVEC_SIZE + 8))) [0..<n]"

definition read_guest_iov :: "mem \<Rightarrow> nat \<Rightarrow> nat \<Rightarrow> (nat \<times> nat) list" where
  "read_guest_iov m a n = map (\<lambda>i. (u32_at m (a + i * IOVEC_SIZE), u32_at m (a + i * IOVEC_SIZE + 8))) [0..<n]"

text \<open>The number of a guest pointer's host address.\<close>

definition hosted :: "lind \<Rightarrow> nat \<Rightarrow> nat" where
  "hosted s p = unat (translate_ptr_to_host s (of_nat p))"

lemma unat_halves: "unat (ucast h :: u32) + 2 ^ 32 * unat (ucast (drop_bit 32 h) :: u32) = unat (h :: u64)"
proof -
  have lo: "unat (ucast h :: u32) = unat h mod 2 ^ 32" by (simp add: unsigned_ucast_eq take_bit_eq_mod)
  have "unat (drop_bit 32 h) = unat h div 2 ^ 32" by (simp add: drop_bit_eq_div unat_div_distrib)
  moreover have "unat h div 2 ^ 32 < 2 ^ 32" using unsigned_less [of h, where ?'a = nat] by (simp add: less_mult_imp_div_less)
  ultimately have "unat (ucast (drop_bit 32 h) :: u32) = unat h div 2 ^ 32"
    by (simp add: unsigned_ucast_eq take_bit_eq_mod)
  with lo show ?thesis by (simp add: mult.commute)
qed

lemma put_host_ptr: "u64_at (put_host_ptr s m d p) d = hosted s p" "agree (span d 8) m (put_host_ptr s m d p)"
proof -
  have lt: "unat w < 2 ^ 32" for w :: u32 using unsigned_less [of w] by simp
  have "u32_at (put_u32 (put_u32 m d v) (d + 4) w) d = u32_at (put_u32 m d v) d" for v w
    by (rule u32_at_put_out) simp
  with lt show "u64_at (put_host_ptr s m d p) d = hosted s p"
    by (simp only: u64_at_def put_host_ptr_def Let_def u32_at_put hosted_def unat_halves)
  show "agree (span d 8) m (put_host_ptr s m d p)"
    by (auto simp: put_host_ptr_def Let_def agree_def span_def put_u32_def)
qed

lemma u64_at_agree: "agree W m m' \<Longrightarrow> span a 8 \<inter> W = {} \<Longrightarrow> u64_at m' a = u64_at m a"
proof -
  assume ag: "agree W m m'" and off: "span a 8 \<inter> W = {}"
  have "span a 4 \<subseteq> span a 8" "span (a + 4) 4 \<subseteq> span a 8" by (rule span_mono; simp)+
  with off have "span a 4 \<inter> W = {}" "span (a + 4) 4 \<inter> W = {}" by blast+
  then show ?thesis by (simp add: u64_at_def u32_at_agree [OF ag])
qed

lemma u64_at_small: "u32_at m (a + 4) = 0 \<Longrightarrow> u64_at m a = u32_at m a"
  by (simp add: u64_at_def)

lemma translate_iov_entry:
  assumes off: "span g 16 \<inter> span d 16 = {}"
  shows "u64_at (translate_iov_entry s g d m) d = hosted s (u32_at m g)"
    and "u64_at (translate_iov_entry s g d m) (d + 8) = u32_at m (g + 8)"
    and "agree (span d 16) m (translate_iov_entry s g d m)"
proof -
  define m1 where "m1 = put_u32 m (d + 8) (u32_at m (g + 8))"
  define m2 where "m2 = put_host_ptr s m1 d (u32_at m1 g)"
  define m3 where "m3 = put_u32 m2 (d + 12) 0"
  have eq: "translate_iov_entry s g d m = m3" by (simp add: translate_iov_entry_def m1_def m2_def m3_def Let_def)
  have ag1: "agree (span (d + 8) 4) m m1" unfolding m1_def by (rule agree_put)
  have ag2: "agree (span d 8) m1 m2" unfolding m2_def by (rule put_host_ptr)
  have ag3: "agree (span (d + 12) 4) m2 m3" unfolding m3_def by (rule agree_put)
  have sub: "span d 8 \<subseteq> span d 16" "span (d + 8) 4 \<subseteq> span d 16" "span (d + 12) 4 \<subseteq> span d 16" "span g 4 \<subseteq> span g 16"
    by (rule span_mono; simp)+
  show "agree (span d 16) m (translate_iov_entry s g d m)" unfolding eq
    by (rule agree_trans [OF agree_mono [OF ag1 sub(2)] agree_trans [OF agree_mono [OF ag2 sub(1)] agree_mono [OF ag3 sub(3)]]])
  have "u32_at m1 g = u32_at m g" using off sub by (intro u32_at_agree [OF ag1]) blast
  moreover have "u64_at m3 d = u64_at m2 d" by (rule u64_at_agree [OF ag3]) (rule span_apart, simp)
  ultimately show "u64_at (translate_iov_entry s g d m) d = hosted s (u32_at m g)"
    unfolding eq by (simp add: m2_def put_host_ptr(1))
  have "u32_at m3 (d + 12) = 0" unfolding m3_def by (rule u32_at_put) simp
  then have "u32_at m3 (d + 8 + 4) = 0" by (simp add: add.commute)
  moreover have "u32_at m3 (d + 8) = u32_at m (g + 8)"
  proof -
    have "u32_at m3 (d + 8) = u32_at m2 (d + 8)" by (rule u32_at_agree [OF ag3]) (rule span_apart, simp)
    also have "\<dots> = u32_at m1 (d + 8)" by (rule u32_at_agree [OF ag2]) (rule span_apart, simp)
    also have "\<dots> = u32_at m (g + 8)" unfolding m1_def by (rule u32_at_put) (rule u32_at_less)
    finally show ?thesis .
  qed
  ultimately show "u64_at (translate_iov_entry s g d m) (d + 8) = u32_at m (g + 8)" unfolding eq using u64_at_small by simp
qed

lemma span_entry: "k < n \<Longrightarrow> span (a + k * IOVEC_SIZE) 16 \<subseteq> span a (n * IOVEC_SIZE)"
  by (rule span_mono) (simp_all add: IOVEC_SIZE_def)

lemma translate_iov:
  assumes off: "span g (n * IOVEC_SIZE) \<inter> span d (n * IOVEC_SIZE) = {}"
  shows "i \<le> n \<Longrightarrow>
    (\<forall>k. i \<le> k \<and> k < n \<longrightarrow>
       u64_at (translate_iov s g d i n m) (d + k * IOVEC_SIZE) = hosted s (u32_at m (g + k * IOVEC_SIZE))
       \<and> u64_at (translate_iov s g d i n m) (d + k * IOVEC_SIZE + 8) = u32_at m (g + k * IOVEC_SIZE + 8))
    \<and> agree (span (d + i * IOVEC_SIZE) ((n - i) * IOVEC_SIZE)) m (translate_iov s g d i n m)"
proof (induction "n - i" arbitrary: i m)
  case 0
  then have "translate_iov s g d i n m = m" by (subst translate_iov.simps) simp
  with 0 show ?case by (simp add: agree_refl)
next
  case (Suc r)
  let ?g = "g + i * IOVEC_SIZE" and ?d = "d + i * IOVEC_SIZE"
  define m1 where "m1 = translate_iov_entry s ?g ?d m"
  define m' where "m' = translate_iov s g d (Suc i) n m1"
  have i: "i < n" using Suc.hyps(2) by simp
  have eq: "translate_iov s g d i n m = m'" using i by (subst translate_iov.simps) (simp add: m'_def m1_def)
  have en: "span ?g 16 \<inter> span ?d 16 = {}" using off span_entry [OF i, of g] span_entry [OF i, of d] by blast
  note e = translate_iov_entry [OF en, where s = s and m = m, folded m1_def]
  have IH: "\<forall>k. Suc i \<le> k \<and> k < n \<longrightarrow>
       u64_at m' (d + k * IOVEC_SIZE) = hosted s (u32_at m1 (g + k * IOVEC_SIZE))
       \<and> u64_at m' (d + k * IOVEC_SIZE + 8) = u32_at m1 (g + k * IOVEC_SIZE + 8)"
    and ag: "agree (span (d + Suc i * IOVEC_SIZE) ((n - Suc i) * IOVEC_SIZE)) m1 m'"
    using Suc.hyps(1) [of "Suc i" m1] Suc.hyps(2) i unfolding m'_def by simp_all
  have guest: "u32_at m1 (g + k * IOVEC_SIZE) = u32_at m (g + k * IOVEC_SIZE)
      \<and> u32_at m1 (g + k * IOVEC_SIZE + 8) = u32_at m (g + k * IOVEC_SIZE + 8)" if "k < n" for k
  proof -
    have "span (g + k * IOVEC_SIZE) 4 \<subseteq> span (g + k * IOVEC_SIZE) 16" "span (g + k * IOVEC_SIZE + 8) 4 \<subseteq> span (g + k * IOVEC_SIZE) 16"
      by (rule span_mono; simp)+
    moreover have "span (g + k * IOVEC_SIZE) 16 \<inter> span ?d 16 = {}"
      using off span_entry [OF that, of g] span_entry [OF i, of d] by blast
    ultimately have "span (g + k * IOVEC_SIZE) 4 \<inter> span ?d 16 = {}" "span (g + k * IOVEC_SIZE + 8) 4 \<inter> span ?d 16 = {}"
      by blast+
    then show ?thesis using u32_at_agree [OF e(3)] by simp
  qed
  have own: "u64_at m' ?d = u64_at m1 ?d" "u64_at m' (?d + 8) = u64_at m1 (?d + 8)"
    by (rule u64_at_agree [OF ag], rule span_apart, simp add: IOVEC_SIZE_def)+
  have "u64_at m' (d + k * IOVEC_SIZE) = hosted s (u32_at m (g + k * IOVEC_SIZE))
      \<and> u64_at m' (d + k * IOVEC_SIZE + 8) = u32_at m (g + k * IOVEC_SIZE + 8)" if "i \<le> k" "k < n" for k
  proof (cases "k = i")
    case True
    with own e(1,2) show ?thesis by simp
  next
    case False
    with that have "Suc i \<le> k \<and> k < n" by simp
    from IH [rule_format, OF this] guest [OF that(2)] show ?thesis by simp
  qed
  moreover have "agree (span ?d ((n - i) * IOVEC_SIZE)) m m'"
  proof (rule agree_trans)
    show "agree (span ?d ((n - i) * IOVEC_SIZE)) m m1"
      by (rule agree_mono [OF e(3)]) (rule span_mono, use i in \<open>simp_all add: IOVEC_SIZE_def\<close>)
    show "agree (span ?d ((n - i) * IOVEC_SIZE)) m1 m'"
      by (rule agree_mono [OF ag]) (rule span_mono, use i in \<open>simp_all add: IOVEC_SIZE_def\<close>)
  qed
  ultimately show ?case unfolding eq by blast
qed

lemma read_host_iov_translated:
  assumes "span g (n * IOVEC_SIZE) \<inter> span d (n * IOVEC_SIZE) = {}"
  shows "read_host_iov (translate_iov s g d 0 n m) d n = map (\<lambda>(p, l). (hosted s p, l)) (read_guest_iov m g n)"
    and "agree (span d (n * IOVEC_SIZE)) m (translate_iov s g d 0 n m)"
proof -
  note t = translate_iov [OF assms, where i = 0 and s = s and m = m, OF le0]
  have "(u64_at (translate_iov s g d 0 n m) (d + k * IOVEC_SIZE), u64_at (translate_iov s g d 0 n m) (d + k * IOVEC_SIZE + 8))
      = (hosted s (u32_at m (g + k * IOVEC_SIZE)), u32_at m (g + k * IOVEC_SIZE + 8))" if "k < n" for k
    using conjunct1 [OF t] that by (metis le0)
  then show "read_host_iov (translate_iov s g d 0 n m) d n = map (\<lambda>(p, l). (hosted s p, l)) (read_guest_iov m g n)"
    unfolding read_host_iov_def read_guest_iov_def map_map by (intro map_cong [OF refl]) simp
  show "agree (span d (n * IOVEC_SIZE)) m (translate_iov s g d 0 n m)" using conjunct2 [OF t] by simp
qed

text \<open>A number and its zero padding.\<close>

lemma put_u32_pair:
  assumes "v < 2 ^ 32"
  shows "u64_at (put_u32 (put_u32 m d v) (d + 4) 0) d = v" and "agree (span d 8) m (put_u32 (put_u32 m d v) (d + 4) 0)"
proof -
  have "u32_at (put_u32 (put_u32 m d v) (d + 4) 0) d = u32_at (put_u32 m d v) d" by (rule u32_at_put_out) simp
  then show "u64_at (put_u32 (put_u32 m d v) (d + 4) 0) d = v" using assms by (simp add: u64_at_def u32_at_put)
  show "agree (span d 8) m (put_u32 (put_u32 m d v) (d + 4) 0)" by (auto simp: agree_def span_def put_u32_def)
qed

text \<open>The copy of the header that is filled in is where the host looks for it; nothing else changes.\<close>

lemma fill_msghdr:
  fixes m :: mem and s :: lind and host_iov :: nat
  assumes off: "span msg MSGHDR_SIZE \<inter> span host_msg MSGHDR_SIZE = {}"
  defines "m' \<equiv> fill_msghdr s msg host_iov host_msg m"
  shows "u64_at m' host_msg = hosted s (u32_at m msg)" and "u64_at m' (host_msg + 8) = u32_at m (msg + 8)"
    and "u64_at m' (host_msg + 16) = hosted s host_iov" and "u64_at m' (host_msg + 24) = u32_at m (msg + 24)"
    and "u64_at m' (host_msg + 32) = hosted s (u32_at m (msg + 32))" and "u64_at m' (host_msg + 40) = u32_at m (msg + 40)"
    and "agree (span host_msg 48) m m'"
proof -
  define m1 where "m1 = put_host_ptr s m host_msg (u32_at m msg)"
  define m2 where "m2 = put_u32 m1 (host_msg + 8) (u32_at m1 (msg + 8))"
  define m3 where "m3 = put_u32 m2 (host_msg + 12) 0"
  define m4 where "m4 = put_host_ptr s m3 (host_msg + 16) host_iov"
  define m5 where "m5 = put_u32 m4 (host_msg + 24) (u32_at m4 (msg + 24))"
  define m6 where "m6 = put_u32 m5 (host_msg + 28) 0"
  define m7 where "m7 = put_host_ptr s m6 (host_msg + 32) (u32_at m6 (msg + 32))"
  define m8 where "m8 = put_u32 m7 (host_msg + 40) (u32_at m7 (msg + 40))"
  have m': "m' = put_u32 m8 (host_msg + 44) 0"
    by (simp add: m'_def fill_msghdr_def m1_def m2_def m3_def m4_def m5_def m6_def m7_def m8_def Let_def)
  have a1: "agree (span host_msg 8) m m1" and v1: "u64_at m1 host_msg = hosted s (u32_at m msg)"
    unfolding m1_def by (rule put_host_ptr)+
  have a3: "agree (span (host_msg + 8) 8) m1 m3" and v3: "u64_at m3 (host_msg + 8) = u32_at m1 (msg + 8)"
    unfolding m3_def m2_def using put_u32_pair [OF u32_at_less, where d = "host_msg + 8"] by (simp_all add: add.commute)
  have a4: "agree (span (host_msg + 16) 8) m3 m4" and v4: "u64_at m4 (host_msg + 16) = hosted s host_iov"
    unfolding m4_def by (rule put_host_ptr)+
  have a6: "agree (span (host_msg + 24) 8) m4 m6" and v6: "u64_at m6 (host_msg + 24) = u32_at m4 (msg + 24)"
    unfolding m6_def m5_def using put_u32_pair [OF u32_at_less, where d = "host_msg + 24"] by (simp_all add: add.commute)
  have a7: "agree (span (host_msg + 32) 8) m6 m7" and v7: "u64_at m7 (host_msg + 32) = hosted s (u32_at m6 (msg + 32))"
    unfolding m7_def by (rule put_host_ptr)+
  have a8: "agree (span (host_msg + 40) 8) m7 m'" and v8: "u64_at m' (host_msg + 40) = u32_at m7 (msg + 40)"
    unfolding m' m8_def using put_u32_pair [OF u32_at_less, where d = "host_msg + 40"] by (simp_all add: add.commute)
  let ?W = "span host_msg 48"
  have w: "agree (span (host_msg + d) 8) x y \<Longrightarrow> d + 8 \<le> 48 \<Longrightarrow> agree ?W x y" for d x y
    by (erule agree_mono) (rule span_mono; simp)
  have w1: "agree ?W m m1" using w [of 0] a1 by simp
  have w3: "agree ?W m m3" by (rule agree_trans [OF w1 w [OF a3]]) simp
  have w4: "agree ?W m m4" by (rule agree_trans [OF w3 w [OF a4]]) simp
  have w6: "agree ?W m m6" by (rule agree_trans [OF w4 w [OF a6]]) simp
  have w7: "agree ?W m m7" by (rule agree_trans [OF w6 w [OF a7]]) simp
  show "agree ?W m m'" by (rule agree_trans [OF w7 w [OF a8]]) simp
  have g: "agree ?W m x \<Longrightarrow> d + 4 \<le> MSGHDR_SIZE \<Longrightarrow> u32_at x (msg + d) = u32_at m (msg + d)" for x d
  proof (erule u32_at_agree)
    assume "d + 4 \<le> MSGHDR_SIZE"
    then have "span (msg + d) 4 \<subseteq> span msg MSGHDR_SIZE" "span host_msg 48 \<subseteq> span host_msg MSGHDR_SIZE"
      by (auto simp: span_def MSGHDR_SIZE_def)
    with off show "span (msg + d) 4 \<inter> ?W = {}" by blast
  qed
  have t: "agree (span (host_msg + e) 8) x y \<Longrightarrow> d + 8 \<le> e \<Longrightarrow> u64_at y (host_msg + d) = u64_at x (host_msg + d)" for d e x y
    by (erule u64_at_agree) (rule span_apart, simp)
  note later = t [OF a8] t [OF a7] t [OF a6] t [OF a4] t [OF a3]
  show "u64_at m' host_msg = hosted s (u32_at m msg)" using later [of 0] v1 by simp
  show "u64_at m' (host_msg + 8) = u32_at m (msg + 8)" using later [of 8] v3 g [OF w1, of 8] by (simp add: MSGHDR_SIZE_def)
  show "u64_at m' (host_msg + 16) = hosted s host_iov" using later [of 16] v4 by simp
  show "u64_at m' (host_msg + 24) = u32_at m (msg + 24)" using later [of 24] v6 g [OF w4, of 24] by (simp add: MSGHDR_SIZE_def)
  show "u64_at m' (host_msg + 32) = hosted s (u32_at m (msg + 32))"
    using later [of 32] v7 g [OF w6, of 32] by (simp add: MSGHDR_SIZE_def)
  show "u64_at m' (host_msg + 40) = u32_at m (msg + 40)" using v8 g [OF w7, of 40] by (simp add: MSGHDR_SIZE_def)
qed

lemma u32_of_u64: "u64_at m a < 2 ^ 32 \<Longrightarrow> u32_at m a = u64_at m a"
  by (cases "u32_at m (a + 4)") (simp_all add: u64_at_def)

lemma read_host_iov_agree:
  assumes ag: "agree W m m'" and off: "span a (n * IOVEC_SIZE) \<inter> W = {}"
  shows "read_host_iov m' a n = read_host_iov m a n"
proof -
  have "u64_at m' (a + i * IOVEC_SIZE + d) = u64_at m (a + i * IOVEC_SIZE + d)" if "i < n" "d + 8 \<le> 16" for i d
  proof (rule u64_at_agree [OF ag])
    have "span (a + i * IOVEC_SIZE + d) 8 \<subseteq> span (a + i * IOVEC_SIZE) 16" using that(2) by (intro span_mono) simp_all
    with span_entry [OF that(1), of a] off show "span (a + i * IOVEC_SIZE + d) 8 \<inter> W = {}" by blast
  qed
  from this [of _ 0] this [of _ 8] show ?thesis unfolding read_host_iov_def by (intro map_cong [OF refl]) simp
qed

text \<open>
  The guest's header \<open>msg\<close> with its vector of \<open>n\<close> entries and the two locals do not overlap.
\<close>

definition locals_apart :: "mem \<Rightarrow> nat \<Rightarrow> nat \<Rightarrow> nat \<Rightarrow> nat \<Rightarrow> bool" where
  "locals_apart m msg n host_iov host_msg \<longleftrightarrow>
     span msg MSGHDR_SIZE \<inter> (span host_iov (n * IOVEC_SIZE) \<union> span host_msg MSGHDR_SIZE) = {}
     \<and> span (u32_at m (msg + 16)) (n * IOVEC_SIZE) \<inter> (span host_iov (n * IOVEC_SIZE) \<union> span host_msg MSGHDR_SIZE) = {}
     \<and> span host_iov (n * IOVEC_SIZE) \<inter> span host_msg MSGHDR_SIZE = {}"

text \<open>The header and the vector as the host is to see them, with the flags \<open>f\<close>.\<close>

definition guest_msghdr :: "lind \<Rightarrow> nat \<Rightarrow> nat \<Rightarrow> nat \<Rightarrow> host_msghdr" where
  "guest_msghdr s msg host_iov f =
     \<lparr> h_name = hosted s (u32_at (lmem s) msg), h_namelen = u32_at (lmem s) (msg + 8),
       h_iov = hosted s host_iov, h_iovlen = u32_at (lmem s) (msg + 24),
       h_control = hosted s (u32_at (lmem s) (msg + 32)), h_controllen = u32_at (lmem s) (msg + 40), h_flags = f \<rparr>"

lemma message_built:
  fixes s :: lind and f :: nat
  assumes apart: "locals_apart (lmem s) msg n host_iov host_msg" and f: "f < 2 ^ 32"
  defines "m1 \<equiv> translate_iov s (u32_at (lmem s) (msg + 16)) host_iov 0 n (lmem s)"
  defines "m2 \<equiv> fill_msghdr s msg host_iov host_msg m1"
  defines "m4 \<equiv> put_u32 (put_u32 m2 (host_msg + 48) f) (host_msg + 52) 0"
  shows "read_host_msghdr m4 host_msg = guest_msghdr s msg host_iov f"
    and "read_host_iov m4 host_iov n = map (\<lambda>(p, l). (hosted s p, l)) (read_guest_iov (lmem s) (u32_at (lmem s) (msg + 16)) n)"
    and "agree (span host_iov (n * IOVEC_SIZE) \<union> span host_msg MSGHDR_SIZE) (lmem s) m4"
    and "u32_at m2 (msg + 48) = u32_at (lmem s) (msg + 48)"
proof -
  let ?I = "span host_iov (n * IOVEC_SIZE)" and ?M = "span host_msg MSGHDR_SIZE"
  have off: "span (u32_at (lmem s) (msg + 16)) (n * IOVEC_SIZE) \<inter> ?I = {}" "span msg MSGHDR_SIZE \<inter> ?M = {}"
      "span msg MSGHDR_SIZE \<inter> ?I = {}" "?I \<inter> ?M = {}"
    using apart unfolding locals_apart_def by blast+
  note iov = read_host_iov_translated [OF off(1), where s = s and m = "lmem s", folded m1_def]
  note hdr = fill_msghdr [OF off(2), where s = s and m = m1 and host_iov = host_iov, folded m2_def]
  note fl = put_u32_pair [OF f, where m = m2 and d = "host_msg + 48"]
  have fm: "put_u32 (put_u32 m2 (host_msg + 48) f) (host_msg + 48 + 4) 0 = m4" by (simp add: m4_def add.commute)
  note fl = fl [unfolded fm]
  have sub: "span host_msg 48 \<subseteq> ?M" "span (host_msg + 48) 8 \<subseteq> ?M" by (rule span_mono; simp add: MSGHDR_SIZE_def)+
  have a24: "agree ?M m1 m4" by (rule agree_trans [OF agree_mono [OF hdr(7) sub(1)] agree_mono [OF fl(2) sub(2)]])
  show "agree (?I \<union> ?M) (lmem s) m4"
    by (rule agree_trans [OF agree_mono [OF iov(2)] agree_mono [OF a24]]) simp_all
  have g: "u32_at m1 (msg + d) = u32_at (lmem s) (msg + d)" if "d + 4 \<le> MSGHDR_SIZE" for d
  proof (rule u32_at_agree [OF iov(2)])
    have "span (msg + d) 4 \<subseteq> span msg MSGHDR_SIZE" using that by (auto simp: span_def)
    with off(3) show "span (msg + d) 4 \<inter> ?I = {}" by blast
  qed
  have "u32_at m2 (msg + 48) = u32_at m1 (msg + 48)"
  proof (rule u32_at_agree [OF hdr(7)])
    have "span (msg + 48) 4 \<subseteq> span msg MSGHDR_SIZE" by (auto simp: span_def MSGHDR_SIZE_def)
    with off(2) sub(1) show "span (msg + 48) 4 \<inter> span host_msg 48 = {}" by blast
  qed
  then show "u32_at m2 (msg + 48) = u32_at (lmem s) (msg + 48)" using g [of 48] by (simp add: MSGHDR_SIZE_def)
  have t: "u64_at m4 (host_msg + d) = u64_at m2 (host_msg + d)" if "d + 8 \<le> 48" for d
    by (rule u64_at_agree [OF fl(2)]) (rule span_apart, use that in simp)
  have "u64_at m4 (host_msg + 8) = u32_at (lmem s) (msg + 8)"
    using t [of 8] hdr(2) g [of 8] by (simp add: MSGHDR_SIZE_def)
  then have "u32_at m4 (host_msg + 8) = u32_at (lmem s) (msg + 8)" using u32_at_less by (simp add: u32_of_u64)
  moreover have "u32_at m4 (host_msg + 48) = f" using fl(1) f by (simp add: u32_of_u64)
  moreover have "u64_at m4 host_msg = hosted s (u32_at (lmem s) msg)"
    using t [of 0] hdr(1) g [of 0] by (simp add: MSGHDR_SIZE_def)
  moreover have "u64_at m4 (host_msg + 16) = hosted s host_iov" using t [of 16] hdr(3) by simp
  moreover have "u64_at m4 (host_msg + 24) = u32_at (lmem s) (msg + 24)"
    using t [of 24] hdr(4) g [of 24] by (simp add: MSGHDR_SIZE_def)
  moreover have "u64_at m4 (host_msg + 32) = hosted s (u32_at (lmem s) (msg + 32))"
    using t [of 32] hdr(5) g [of 32] by (simp add: MSGHDR_SIZE_def)
  moreover have "u64_at m4 (host_msg + 40) = u32_at (lmem s) (msg + 40)"
    using t [of 40] hdr(6) g [of 40] by (simp add: MSGHDR_SIZE_def)
  ultimately show "read_host_msghdr m4 host_msg = guest_msghdr s msg host_iov f"
    by (simp add: read_host_msghdr_def guest_msghdr_def)
  have "read_host_iov m4 host_iov n = read_host_iov m1 host_iov n" by (rule read_host_iov_agree [OF a24 off(4)])
  with iov(1) show "read_host_iov m4 host_iov n = map (\<lambda>(p, l). (hosted s p, l)) (read_guest_iov (lmem s) (u32_at (lmem s) (msg + 16)) n)"
    by simp
qed

section \<open>Sending and receiving\<close>

definition message_call :: "u32 \<Rightarrow> string \<Rightarrow> u32 \<Rightarrow> nat \<Rightarrow> u32 \<Rightarrow> lind \<Rightarrow> threei_call" where
  "message_call num name fd host_msg flags s =
     \<lparr> callnumber = num, callname = Literal name, self_cage = lind_cageid s, target_cage = lind_cageid s,
       call_args = [(scast fd, lind_cageid s), (translate_ptr_to_host s (of_nat host_msg), lind_cageid s), (scast flags, lind_cageid s),
         (NOTUSED, lind_cageid s), (NOTUSED, lind_cageid s), (NOTUSED, lind_cageid s)] \<rparr>"

lemma copied_back:
  fixes m :: mem
  assumes off: "span msg MSGHDR_SIZE \<inter> span host_msg MSGHDR_SIZE = {}"
  defines "m1 \<equiv> put_u32 (m :: mem) (msg + 8) (u32_at m (host_msg + 8))"
  defines "m2 \<equiv> put_u32 m1 (msg + 40) (u32_at m1 (host_msg + 40))"
  defines "m3 \<equiv> put_u32 m2 (msg + 48) (u32_at m2 (host_msg + 48))"
  shows "u32_at m3 (msg + 8) = u32_at m (host_msg + 8)" and "u32_at m3 (msg + 40) = u32_at m (host_msg + 40)"
    and "u32_at m3 (msg + 48) = u32_at m (host_msg + 48)"
    and "agree (span (msg + 8) 4 \<union> span (msg + 40) 4 \<union> span (msg + 48) 4) m m3"
proof -
  have a: "agree (span (msg + 8) 4) m m1" "agree (span (msg + 40) 4) m1 m2" "agree (span (msg + 48) 4) m2 m3"
    unfolding m1_def m2_def m3_def by (rule agree_put)+
  show "agree (span (msg + 8) 4 \<union> span (msg + 40) 4 \<union> span (msg + 48) 4) m m3"
    by (rule agree_trans [OF agree_mono [OF a(1)] agree_trans [OF agree_mono [OF a(2)] agree_mono [OF a(3)]]]) blast+
  have far: "span (host_msg + d) 4 \<inter> span (msg + e) 4 = {}" if "d \<le> 52" "e \<le> 52" for d e
  proof -
    have "span (host_msg + d) 4 \<subseteq> span host_msg MSGHDR_SIZE" "span (msg + e) 4 \<subseteq> span msg MSGHDR_SIZE"
      using that by (auto simp: span_def MSGHDR_SIZE_def)
    with off show ?thesis by blast
  qed
  have near: "span (msg + d) 4 \<inter> span (msg + e) 4 = {}" if "d + 4 \<le> e" for d e
    by (rule span_apart) (use that in simp)
  have v1: "u32_at m1 (msg + 8) = u32_at m (host_msg + 8)" unfolding m1_def by (rule u32_at_put [OF u32_at_less])
  have v2: "u32_at m2 (msg + 40) = u32_at m1 (host_msg + 40)" unfolding m2_def by (rule u32_at_put [OF u32_at_less])
  have v3: "u32_at m3 (msg + 48) = u32_at m2 (host_msg + 48)" unfolding m3_def by (rule u32_at_put [OF u32_at_less])
  note back1 = u32_at_agree [OF a(1) far] and back2 = u32_at_agree [OF a(2) far]
  show "u32_at m3 (msg + 8) = u32_at m (host_msg + 8)"
    using v1 u32_at_agree [OF a(2) near, of 8] u32_at_agree [OF a(3) near, of 8] by simp
  show "u32_at m3 (msg + 40) = u32_at m (host_msg + 40)" using v2 back1 [of 40] u32_at_agree [OF a(3) near, of 40] by simp
  show "u32_at m3 (msg + 48) = u32_at m (host_msg + 48)" using v3 back1 [of 48] back2 [of 48] by simp
qed

text \<open>C20: \<^verbatim>\<open>recvmsg\<close> between a 32-bit guest and a 64-bit host. The host is called once, on a memory that
  differs from the guest's only in the two locals, and finds there the guest's header and vector
  with every pointer at its host address and every length unchanged. After a success the length of
  the name, the length of the control data and the flags that the host has stored are in the guest's
  header, and nothing else is changed in what the host has left; after a failure the guest's header
  is as the host has left it, and errno is set.\<close>

theorem recvmsg_translates:
  assumes plain: "plain (lind_cageid s)" and n: "n = iov_count (of_nat (u32_at (lmem s) (msg + 24)))"
    and apart: "locals_apart (lmem s) msg n host_iov host_msg"
    and run: "recvmsg_syscall host host_iov host_msg fd msg flags s = (r, s')"
  shows "\<exists>sent ret left. host (message_call RECVMSG_SYSCALL ''syscall|recvmsg'' fd host_msg flags s) sent = (ret, left)
    \<and> agree (span host_iov (n * IOVEC_SIZE) \<union> span host_msg MSGHDR_SIZE) (lmem s) sent
    \<and> read_host_msghdr sent host_msg = guest_msghdr s msg host_iov 0
    \<and> read_host_iov sent host_iov n = map (\<lambda>(p, l). (hosted s p, l)) (read_guest_iov (lmem s) (u32_at (lmem s) (msg + 16)) n)
    \<and> (if refused ret then r = -1 \<and> s' = s\<lparr> lmem := left, lind_errno := - ret \<rparr>
       else r = ret \<and> s' = s\<lparr> lmem := lmem s' \<rparr>
         \<and> (if sint ret < 0 then lmem s' = left
            else u32_at (lmem s') (msg + 8) = u32_at left (host_msg + 8)
              \<and> u32_at (lmem s') (msg + 40) = u32_at left (host_msg + 40)
              \<and> u32_at (lmem s') (msg + 48) = u32_at left (host_msg + 48)
              \<and> agree (span (msg + 8) 4 \<union> span (msg + 40) 4 \<union> span (msg + 48) 4) left (lmem s')))"
proof -
  define sent where "sent = put_u32 (put_u32 (fill_msghdr s msg host_iov host_msg
      (translate_iov s (u32_at (lmem s) (msg + 16)) host_iov 0 n (lmem s))) (host_msg + 48) 0) (host_msg + 52) 0"
  note built = message_built [OF apart, of 0, folded sent_def]
  obtain ret left where h: "host (message_call RECVMSG_SYSCALL ''syscall|recvmsg'' fd host_msg flags s) sent = (ret, left)"
    by (cases "host (message_call RECVMSG_SYSCALL ''syscall|recvmsg'' fd host_msg flags s) sent")
  have off: "span msg MSGHDR_SIZE \<inter> span host_msg MSGHDR_SIZE = {}" using apart unfolding locals_apart_def by blast
  define m' where "m' = (let m5 = put_u32 left (msg + 8) (u32_at left (host_msg + 8));
                m6 = put_u32 m5 (msg + 40) (u32_at m5 (host_msg + 40)) in
                put_u32 m6 (msg + 48) (u32_at m6 (host_msg + 48)))"
  note out = copied_back [OF off, of left, folded m'_def [unfolded Let_def]]
  have "(r, s') = (if refused ret then (-1, s\<lparr> lmem := left, lind_errno := - ret \<rparr>)
      else if sint ret < 0 then (ret, s\<lparr> lmem := left \<rparr>) else (ret, s\<lparr> lmem := m' \<rparr>))"
    using run h plain unfolding recvmsg_syscall_def
    by (simp add: legacy_on message_call_def n [symmetric] sent_def [symmetric] m'_def Let_def split: if_splits)
  then show ?thesis using h built out
    by (intro exI [of _ sent] exI [of _ ret] exI [of _ left]) (simp split: if_splits)
qed

text \<open>\<^verbatim>\<open>sendmsg\<close> shows the host the same, with the flags of the guest's header, and copies nothing back.\<close>

lemma sendmsg_translates:
  assumes plain: "plain (lind_cageid s)" and n: "n = iov_count (of_nat (u32_at (lmem s) (msg + 24)))"
    and apart: "locals_apart (lmem s) msg n host_iov host_msg"
  shows "\<exists>sent. agree (span host_iov (n * IOVEC_SIZE) \<union> span host_msg MSGHDR_SIZE) (lmem s) sent
    \<and> read_host_msghdr sent host_msg = guest_msghdr s msg host_iov (u32_at (lmem s) (msg + 48))
    \<and> read_host_iov sent host_iov n = map (\<lambda>(p, l). (hosted s p, l)) (read_guest_iov (lmem s) (u32_at (lmem s) (msg + 16)) n)
    \<and> libc_sendmsg host host_iov host_msg fd msg flags s =
        (case host (message_call SENDMSG_SYSCALL ''syscall|sendmsg'' fd host_msg flags s) sent of
           (ret, left) \<Rightarrow> if refused ret then (-1, s\<lparr> lmem := left, lind_errno := - ret \<rparr>) else (ret, s\<lparr> lmem := left \<rparr>))"
proof -
  let ?m2 = "fill_msghdr s msg host_iov host_msg (translate_iov s (u32_at (lmem s) (msg + 16)) host_iov 0 n (lmem s))"
  let ?f = "u32_at (lmem s) (msg + 48)"
  define sent where "sent = put_u32 (put_u32 ?m2 (host_msg + 48) ?f) (host_msg + 52) 0"
  note built = message_built [OF apart u32_at_less [of "lmem s" "msg + 48"], folded sent_def]
  have "libc_sendmsg host host_iov host_msg fd msg flags s =
      MAKE_LEGACY_SYSCALL host SENDMSG_SYSCALL ''syscall|sendmsg''
        [scast fd, translate_ptr_to_host s (of_nat host_msg), scast flags, NOTUSED, NOTUSED, NOTUSED]
        TRANSLATE_ERRNO_ON (s\<lparr> lmem := sent \<rparr>)"
    unfolding libc_sendmsg_def by (simp add: n [symmetric] built(4) sent_def Let_def)
  then show ?thesis using built plain
    by (intro exI [of _ sent]) (simp add: legacy_on message_call_def split: prod.split)
qed

section \<open>Instances\<close>

text \<open>One entry, and a runtime that receives five bytes from a peer whose name has 16.\<close>

definition one_entry :: lind where
  "one_entry = cage_one\<lparr> lmem := put_u32 (put_u32 (\<lambda>_. 0) 0x110 0x200) 0x118 1 \<rparr>"

definition named_peer :: host where
  "named_peer c m = (5, put_u32 m 0x408 16)"

lemma one_entry_fields: "u32_at (lmem one_entry) 0x110 = 0x200" "u32_at (lmem one_entry) 0x118 = 1"
proof -
  have "u32_at (lmem one_entry) 0x110 = u32_at (put_u32 (\<lambda>_. 0) 0x110 0x200) 0x110"
    unfolding one_entry_def by (simp add: u32_at_put_out)
  then show "u32_at (lmem one_entry) 0x110 = 0x200" by (simp add: u32_at_put)
  show "u32_at (lmem one_entry) 0x118 = 1" by (simp add: one_entry_def u32_at_put)
qed

lemma one_entry_apart: "locals_apart (lmem one_entry) 0x100 1 0x300 0x400"
  by (auto simp: locals_apart_def one_entry_fields span_def IOVEC_SIZE_def MSGHDR_SIZE_def)

theorem recvmsg_translates_witness:
  "plain (lind_cageid one_entry) \<and> locals_apart (lmem one_entry) 0x100 1 0x300 0x400
   \<and> fst (recvmsg_syscall named_peer 0x300 0x400 3 0x100 0 one_entry) = 5
   \<and> u32_at (lmem (snd (recvmsg_syscall named_peer 0x300 0x400 3 0x100 0 one_entry))) 0x108 = 16"
proof -
  have p: "plain (lind_cageid one_entry)" by (simp add: one_entry_def cage_one_def plain_one)
  have n: "1 = iov_count (of_nat (u32_at (lmem one_entry) (0x100 + 24)))" using one_entry_fields by (simp add: iov_count_def)
  obtain sent ret left where h: "named_peer (message_call RECVMSG_SYSCALL ''syscall|recvmsg'' 3 0x400 0 one_entry) sent = (ret, left)"
    and r: "if refused ret then fst (recvmsg_syscall named_peer 0x300 0x400 3 0x100 0 one_entry) = -1 \<and> True
       else fst (recvmsg_syscall named_peer 0x300 0x400 3 0x100 0 one_entry) = ret
         \<and> (0 \<le> sint ret \<longrightarrow> u32_at (lmem (snd (recvmsg_syscall named_peer 0x300 0x400 3 0x100 0 one_entry))) (0x100 + 8)
              = u32_at left (0x400 + 8))"
    using recvmsg_translates [OF p n one_entry_apart prod.collapse [symmetric], of named_peer 3 0]
    by (smt (verit, best))
  have "ret = 5" "u32_at left (0x400 + 8) = 16" using h by (auto simp: named_peer_def u32_at_put)
  with r p one_entry_apart show ?thesis by (simp add: refused_def)
qed

end
