(* ===== verification/Lind_Setjmp.thy ===== *)
theory Lind_Setjmp
  imports Byte_Memory
begin

text \<open>
  Non-local jumps on top of WebAssembly exceptions (\<^verbatim>\<open>src/glibc/setjmp/wasm_eh_setjmp.c\<close>). The compiler
  keeps a table of the active \<^verbatim>\<open>setjmp\<close> calls of a function; the run-time enters a call in it, and looks up
  the buffer of a jump. An entry is the address of a buffer and a label, of four bytes each; a zero
  address marks a free entry.

  The table and the buffers are bytes of the memory. The allocator is a parameter, as is whether a
  panic of the runtime halts the program; a halted program has no result.
\<close>

record sjlj =
  g_tempRet0 :: u32
  sj_mem :: mem

type_synonym realloc_fun = "nat \<Rightarrow> nat \<Rightarrow> mem \<Rightarrow> nat \<times> mem"

section \<open>The run-time\<close>

definition setTempRet0 :: "u32 \<Rightarrow> sjlj \<Rightarrow> sjlj" where
  "setTempRet0 val s = s\<lparr> g_tempRet0 := val \<rparr>"

definition getTempRet0 :: "sjlj \<Rightarrow> u32" where
  "getTempRet0 s = g_tempRet0 s"

definition store :: "nat \<Rightarrow> u32 \<Rightarrow> sjlj \<Rightarrow> sjlj" where
  "store a v s = s\<lparr> sj_mem := put_u32 (sj_mem s) a (unat v) \<rparr>"

definition load :: "nat \<Rightarrow> sjlj \<Rightarrow> u32" where
  "load a s = of_nat (u32_at (sj_mem s) a)"

text \<open>\<^verbatim>\<open>memset (p, 0, n)\<close>.\<close>

definition zero_fill :: "nat \<Rightarrow> nat \<Rightarrow> sjlj \<Rightarrow> sjlj" where
  "zero_fill p n s = s\<lparr> sj_mem := (\<lambda>x. if p \<le> x \<and> x < p + n then 0 else sj_mem s x) \<rparr>"

text \<open>The loop over the entries: the first free one.\<close>

function empty_slot :: "nat \<Rightarrow> nat \<Rightarrow> u32 \<Rightarrow> sjlj \<Rightarrow> nat option" where
  "empty_slot i table tsize s =
     (if int i < sint tsize then
        if load (table + 4 * (2 * i)) s = 0 then Some i else empty_slot (i + 1) table tsize s
      else None)"
  by pat_completeness auto
termination
  by (relation "measure (\<lambda>(i, table, tsize, s). nat (sint tsize - int i))") auto

definition saveSetjmp :: "realloc_fun \<Rightarrow> bool \<Rightarrow> nat \<Rightarrow> u32 \<Rightarrow> nat \<Rightarrow> u32 \<Rightarrow> sjlj \<Rightarrow> (nat \<times> sjlj) option" where
  "saveSetjmp realloc panic_halts buf label_id table tsize s0 =
     (let s = store buf (of_nat buf) s0 in
      case empty_slot 0 table tsize s of
        Some i \<Rightarrow>
          let s1 = store (table + 4 * (2 * i)) (of_nat buf) s;
              s2 = store (table + 4 * (2 * i + 1)) label_id s1 in
          Some (table, setTempRet0 tsize s2)
      | None \<Rightarrow>
          let new_size = tsize * 2 in
          case realloc table (unat (new_size * 2 * 4)) (sj_mem s) of
            (new_table, m) \<Rightarrow>
              if new_table = 0 then
                if panic_halts then None else Some (table, setTempRet0 tsize (s\<lparr> sj_mem := m \<rparr>))
              else
                let s1 = zero_fill (new_table + 4 * unat (tsize * 2)) (unat (tsize * 2 * 4)) (s\<lparr> sj_mem := m \<rparr>);
                    s2 = store (new_table + 4 * unat (tsize * 2)) (of_nat buf) s1;
                    s3 = store (new_table + 4 * unat (tsize * 2 + 1)) label_id s2 in
                Some (new_table, setTempRet0 new_size s3))"

function testSetjmp_from :: "nat \<Rightarrow> u32 \<Rightarrow> nat \<Rightarrow> u32 \<Rightarrow> sjlj \<Rightarrow> u32" where
  "testSetjmp_from i env table tsize s =
     (if int i < sint tsize then
        if load (table + 4 * (2 * i)) s = env then load (table + 4 * (2 * i + 1)) s
        else testSetjmp_from (i + 1) env table tsize s
      else 0)"
  by pat_completeness auto
termination
  by (relation "measure (\<lambda>(i, env, table, tsize, s). nat (sint tsize - int i))") auto

declare empty_slot.simps [simp del] testSetjmp_from.simps [simp del]

definition testSetjmp :: "u32 \<Rightarrow> nat \<Rightarrow> u32 \<Rightarrow> sjlj \<Rightarrow> u32" where
  "testSetjmp env table tsize s = testSetjmp_from 0 env table tsize s"

text \<open>The exception that a jump throws: the tag and the payload.\<close>

datatype thrown = Throw nat nat

definition wasm_longjmp :: "nat \<Rightarrow> u32 \<Rightarrow> sjlj \<Rightarrow> thrown \<times> sjlj" where
  "wasm_longjmp buf val s =
     (let s1 = store (buf + 4 * 3) (if val \<noteq> 0 then val else 1) s;
          s2 = store (buf + 4 * 2) (of_nat buf) s1 in
      (Throw 1 (buf + 4 * 2), s2))"

section \<open>Tables as lists\<close>

definition entries :: "sjlj \<Rightarrow> nat \<Rightarrow> nat \<Rightarrow> (u32 \<times> u32) list" where
  "entries s table n = map (\<lambda>i. (load (table + 4 * (2 * i)) s, load (table + 4 * (2 * i + 1)) s)) [0..<n]"

definition lookup_label :: "(u32 \<times> u32) list \<Rightarrow> u32 \<Rightarrow> u32" where
  "lookup_label es env = (case map_of es env of Some l \<Rightarrow> l | None \<Rightarrow> 0)"

text \<open>The used entries come first.\<close>

definition packed :: "(u32 \<times> u32) list \<Rightarrow> bool" where
  "packed es \<longleftrightarrow> (\<forall>i j. i < j \<and> j < length es \<and> fst (es ! i) = 0 \<longrightarrow> fst (es ! j) = 0)"

lemma length_entries [simp]: "length (entries s table n) = n"
  by (simp add: entries_def)

lemma nth_entries [simp]:
  "i < n \<Longrightarrow> entries s table n ! i = (load (table + 4 * (2 * i)) s, load (table + 4 * (2 * i + 1)) s)"
  by (simp add: entries_def)

lemma load_store: "load a (store a v s) = v"
  using unsigned_less [of v, where ?'a = nat] by (simp add: load_def store_def u32_at_put)

lemma load_store_out: "x + 4 \<le> a \<or> a + 4 \<le> x \<Longrightarrow> load x (store a v s) = load x s"
  by (simp add: load_def store_def u32_at_put_out)

lemma drop_entries: "i < n \<Longrightarrow> drop i (entries s table n) =
    (load (table + 4 * (2 * i)) s, load (table + 4 * (2 * i + 1)) s) # drop (Suc i) (entries s table n)"
  by (subst Cons_nth_drop_Suc [symmetric]) simp_all

lemma testSetjmp_from:
  "sint tsize = int n \<Longrightarrow> i \<le> n \<Longrightarrow>
   testSetjmp_from i env table tsize s = lookup_label (drop i (entries s table n)) env"
proof (induction "n - i" arbitrary: i)
  case 0
  then show ?case by (subst testSetjmp_from.simps) (simp add: lookup_label_def)
next
  case (Suc r)
  then have "testSetjmp_from (Suc i) env table tsize s = lookup_label (drop (Suc i) (entries s table n)) env" by simp
  moreover have "i < n" using Suc.hyps(2) by simp
  ultimately show ?case using Suc.prems(1)
    by (subst testSetjmp_from.simps) (simp add: drop_entries lookup_label_def)
qed

text \<open>A look-up is the look-up in the table's list.\<close>

lemma testSetjmp_lookup: "sint tsize = int n \<Longrightarrow> testSetjmp env table tsize s = lookup_label (entries s table n) env"
  using testSetjmp_from [of tsize n 0] by (simp add: testSetjmp_def)

lemma empty_slot_from:
  "sint tsize = int n \<Longrightarrow> i \<le> n \<Longrightarrow>
   (case empty_slot i table tsize s of
      Some j \<Rightarrow> i \<le> j \<and> j < n \<and> load (table + 4 * (2 * j)) s = 0 \<and> (\<forall>k. i \<le> k \<and> k < j \<longrightarrow> load (table + 4 * (2 * k)) s \<noteq> 0)
    | None \<Rightarrow> \<forall>k. i \<le> k \<and> k < n \<longrightarrow> load (table + 4 * (2 * k)) s \<noteq> 0)"
proof (induction "n - i" arbitrary: i)
  case 0
  then show ?case by (subst empty_slot.simps) auto
next
  case (Suc r)
  then have lt: "i < n" by simp
  show ?case
  proof (cases "load (table + 4 * (2 * i)) s = 0")
    case True
    then show ?thesis using Suc.hyps(2) Suc.prems by (subst empty_slot.simps) auto
  next
    case False
    have eq: "empty_slot i table tsize s = empty_slot (Suc i) table tsize s"
      using False lt Suc.prems by (subst empty_slot.simps) simp
    have step: "i \<le> k \<Longrightarrow> Suc i \<le> k \<or> k = i" for k by linarith
    show ?thesis unfolding eq using Suc.hyps(1) [of "Suc i"] Suc.hyps(2) Suc.prems False
      by (fastforce split: option.splits dest: step)
  qed
qed

text \<open>A new entry is in the first free place, or behind a table that is full.\<close>

lemma lookup_new:
  assumes "i < length es" and "fst (es ! i) = 0" and "\<forall>k<i. fst (es ! k) \<noteq> 0" and "packed es" and "buf \<noteq> 0" and "env \<noteq> 0"
  shows "lookup_label (es[i := (buf, label)]) env =
      (if env = buf \<and> buf \<notin> fst ` set es then label else lookup_label es env)"
proof -
  have rest: "map_of (drop i es) e = None" if "e \<noteq> 0" for e
  proof -
    have "fst (es ! j) = 0" if "i \<le> j" "j < length es" for j
      using assms(2,4) that unfolding packed_def by (metis le_neq_implies_less)
    then have "fst (drop i es ! k) = 0" if "k < length (drop i es)" for k using that by simp
    then have "\<forall>x\<in>set (drop i es). fst x = 0" by (metis in_set_conv_nth)
    with that show ?thesis by (auto simp: map_of_eq_None_iff)
  qed
  have es: "map_of es e = map_of (take i es) e" if "e \<noteq> 0" for e
  proof -
    have "map_of es e = map_of (take i es @ drop i es) e" by simp
    also have "\<dots> = map_of (take i es) e" unfolding map_of_append using rest [OF that] by (simp add: map_add_def split: option.split)
    finally show ?thesis .
  qed
  have new: "map_of (es[i := (buf, label)]) e = (case map_of (take i es) e of Some l \<Rightarrow> Some l | None \<Rightarrow> if e = buf then Some label else None)"
    if "e \<noteq> 0" for e
  proof -
    have "map_of (drop (Suc i) es) e = None" using rest [OF that] assms(1)
      by (metis Cons_nth_drop_Suc map_of_Cons_code(2) option.distinct(1) prod.collapse)
    then show ?thesis using assms(1) by (simp add: upd_conv_take_nth_drop map_add_def split: option.split)
  qed
  have "buf \<notin> fst ` set es \<longleftrightarrow> map_of es buf = None" by (simp add: map_of_eq_None_iff)
  then show ?thesis using new [OF assms(6)] es [OF assms(6)] by (auto simp: lookup_label_def split: option.splits)
qed

lemma lookup_full:
  assumes "\<forall>k<length es. fst (es ! k) \<noteq> 0" and "buf \<noteq> 0" and "env \<noteq> 0"
  shows "lookup_label (es @ (buf, label) # replicate k (0, 0)) env =
      (if env = buf \<and> buf \<notin> fst ` set es then label else lookup_label es env)"
proof -
  have z: "map_of (replicate k (0, 0)) env = None" using assms(3) by (induction k) auto
  have "map_of (es @ (buf, label) # replicate k (0, 0)) env =
      (case map_of es env of Some l \<Rightarrow> Some l | None \<Rightarrow> if env = buf then Some label else None)"
    unfolding map_of_append by (simp add: map_add_def z split: option.split)
  moreover have "buf \<notin> fst ` set es \<longleftrightarrow> map_of es buf = None" by (simp add: map_of_eq_None_iff)
  ultimately show ?thesis by (auto simp: lookup_label_def split: option.splits)
qed

lemma packed_new:
  assumes "i < length es" and "\<forall>k<i. fst (es ! k) \<noteq> 0" and "packed es" and "buf \<noteq> 0"
  shows "packed (es[i := (buf, label)])"
  unfolding packed_def
proof (intro allI impI)
  fix a b
  assume ab: "a < b \<and> b < length (es[i := (buf, label)]) \<and> fst (es[i := (buf, label)] ! a) = 0"
  then have "a \<noteq> i" using assms(1,4) by (auto simp: nth_list_update)
  with ab have z: "fst (es ! a) = 0" by simp
  then have "i \<le> a" using assms(2) not_less by blast
  with ab \<open>a \<noteq> i\<close> have "b \<noteq> i" by linarith
  moreover have "fst (es ! b) = 0" using ab z assms(3) unfolding packed_def by auto
  ultimately show "fst (es[i := (buf, label)] ! b) = 0" by simp
qed

lemma packed_full:
  assumes "\<forall>k<length es. fst (es ! k) \<noteq> 0" and "buf \<noteq> 0"
  shows "packed (es @ (buf, label) # replicate k (0, 0))"
  unfolding packed_def
proof (intro allI impI)
  fix a b
  let ?xs = "es @ (buf, label) # replicate k (0, 0)"
  assume ab: "a < b \<and> b < length ?xs \<and> fst (?xs ! a) = 0"
  then have "length es < a" using assms by (metis nth_append nth_append_length fst_conv linorder_neqE_nat)
  with ab show "fst (?xs ! b) = 0" by (auto simp: nth_append nth_Cons split: nat.split)
qed

section \<open>Entering a call\<close>

lemma load_cong: "(\<And>x. a \<le> x \<Longrightarrow> x < a + 4 \<Longrightarrow> sj_mem s x = sj_mem s' x) \<Longrightarrow> load a s = load a s'"
  unfolding load_def using u32_at_cong by metis

lemma entries_cong:
  assumes "\<And>x. x \<in> span table (8 * n) \<Longrightarrow> sj_mem s x = sj_mem s' x"
  shows "entries s table n = entries s' table n"
  by (rule nth_equalityI) (auto simp: span_def intro!: load_cong assms)

lemma entries_store:
  assumes "i < n"
  shows "entries (store (table + 4 * (2 * i + 1)) l (store (table + 4 * (2 * i)) b s)) table n = (entries s table n)[i := (b, l)]"
    (is "entries ?s table n = _")
proof (rule nth_equalityI)
  fix j
  assume "j < length (entries ?s table n)"
  then have j: "j < n" by simp
  show "entries ?s table n ! j = (entries s table n)[i := (b, l)] ! j"
  proof (cases "j = i")
    case True
    have "load (table + 4 * (2 * i)) ?s = b" by (subst load_store_out) (simp_all add: load_store)
    with True assms show ?thesis using load_store [of "table + 4 * (2 * i + 1)" l] by simp
  next
    case False
    then consider "j < i" | "i < j" by linarith
    then have "load (table + 4 * (2 * j)) ?s = load (table + 4 * (2 * j)) s
        \<and> load (table + 4 * (2 * j + 1)) ?s = load (table + 4 * (2 * j + 1)) s"
      by cases (simp_all add: load_store_out)
    with False j assms show ?thesis by simp
  qed
qed simp

lemma entries_grown:
  assumes "bytes_at m p (8 * n) = bytes_at (sj_mem s) table (8 * n)"
  shows "entries (zero_fill (p + 8 * n) (8 * n) (s\<lparr> sj_mem := m \<rparr>)) p (2 * n) = entries s table n @ replicate n (0, 0)"
    (is "entries ?z p _ = _")
proof (rule nth_equalityI)
  have old: "load (p + d) ?z = load (table + d) s" if "d + 4 \<le> 8 * n" for d
  proof -
    have "m (p + d + x) = sj_mem s (table + d + x)" if "x < 4" for x
      using assms that \<open>d + 4 \<le> 8 * n\<close> nth_bytes_at [of "d + x" "8 * n" m p] nth_bytes_at [of "d + x" "8 * n" "sj_mem s" table]
      by (simp add: add.assoc)
    then have "bytes_at (sj_mem ?z) (p + d) 4 = bytes_at (sj_mem s) (table + d) 4"
      using that by (intro nth_equalityI) (simp_all add: zero_fill_def)
    then show ?thesis by (simp add: load_def u32_at_def)
  qed
  have new: "load (p + d) ?z = 0" if "8 * n \<le> d" "d + 4 \<le> 16 * n" for d
  proof -
    have "bytes_at (sj_mem ?z) (p + d) 4 = replicate 4 0"
      using that by (intro nth_equalityI) (auto simp: zero_fill_def)
    then show ?thesis by (simp add: load_def u32_at_def numeral_eq_Suc)
  qed
  fix j
  assume "j < length (entries ?z p (2 * n))"
  then have j: "j < 2 * n" by simp
  show "entries ?z p (2 * n) ! j = (entries s table n @ replicate n (0, 0)) ! j"
  proof (cases "j < n")
    case True
    then show ?thesis using j old [of "4 * (2 * j)"] old [of "4 * (2 * j + 1)"] by (simp add: nth_append)
  next
    case False
    then show ?thesis using j new [of "4 * (2 * j)"] new [of "4 * (2 * j + 1)"] by (simp add: nth_append)
  qed
qed simp

lemma span_touch: "span a n \<inter> span b k = {} \<Longrightarrow> 0 < n \<Longrightarrow> 0 < k \<Longrightarrow> a + n \<le> b \<or> b + k \<le> a"
proof (rule ccontr)
  assume d: "span a n \<inter> span b k = {}" and n: "0 < n" "0 < k" and "\<not> (a + n \<le> b \<or> b + k \<le> a)"
  then have "max a b \<in> span a n \<inter> span b k" by (auto simp: span_def)
  with d show False by simp
qed

text \<open>What the allocator does for a block with the table: if it gives a block, that has the old contents,
  and neither it nor the move touches the caller's buffer.\<close>

definition realloc_keeps :: "realloc_fun \<Rightarrow> nat \<Rightarrow> nat \<Rightarrow> nat \<Rightarrow> nat \<Rightarrow> mem \<Rightarrow> bool" where
  "realloc_keeps realloc table old new buf m \<longleftrightarrow>
     (case realloc table new m of (p, m') \<Rightarrow>
        p \<noteq> 0 \<longrightarrow> bytes_at m' p old = bytes_at m table old \<and> u32_at m' buf = u32_at m buf
          \<and> span buf 32 \<inter> span p new = {})"

lemma small_sint: "n < 2 ^ 31 \<Longrightarrow> sint (of_nat n :: u32) = int n"
  by (simp add: signed_of_nat signed_take_bit_int_eq_self)

lemma small_unat: "n < 2 ^ 32 \<Longrightarrow> unat (of_nat n :: u32) = n"
  by (simp add: unsigned_of_nat take_bit_nat_eq_self)

lemma entries_buf:
  assumes "span buf 32 \<inter> span table (8 * n) = {}"
  shows "entries (store buf v s) table n = entries s table n"
proof (rule entries_cong)
  fix x assume "x \<in> span table (8 * n)"
  with assms have "x \<notin> span buf 32" by blast
  then show "sj_mem (store buf v s) x = sj_mem s x" by (auto simp: store_def put_u32_def span_def)
qed

lemma saved_in_place:
  assumes size: "sint tsize = int n" and buf: "buf \<noteq> 0" "buf < 2 ^ 32" and apart: "span buf 32 \<inter> span table (8 * n) = {}"
    and packed: "packed (entries s table n)" and free: "\<exists>k<n. load (table + 4 * (2 * k)) s = 0"
  shows "\<exists>s' i. saveSetjmp realloc halts buf label table tsize s = Some (table, s') \<and> getTempRet0 s' = tsize
    \<and> i < n \<and> fst (entries s table n ! i) = 0 \<and> (\<forall>k<i. fst (entries s table n ! k) \<noteq> 0)
    \<and> entries s' table n = (entries s table n)[i := (of_nat buf, label)] \<and> load buf s' = of_nat buf"
proof -
  define s1 where "s1 = store buf (of_nat buf) s"
  have same: "entries s1 table n = entries s table n" unfolding s1_def by (rule entries_buf [OF apart])
  have key: "load (table + 4 * (2 * k)) s1 = fst (entries s table n ! k)" if "k < n" for k
    using same that nth_entries [of k n s1 table] by simp
  obtain i where i: "empty_slot 0 table tsize s1 = Some i" "i < n" "fst (entries s table n ! i) = 0"
      "\<forall>k<i. fst (entries s table n ! k) \<noteq> 0"
    using empty_slot_from [of tsize n 0 table s1] size free key by (auto split: option.splits)
  define s2 where "s2 = store (table + 4 * (2 * i + 1)) label (store (table + 4 * (2 * i)) (of_nat buf) s1)"
  have run: "saveSetjmp realloc halts buf label table tsize s = Some (table, setTempRet0 tsize s2)"
    by (simp add: saveSetjmp_def s1_def [symmetric] s2_def Let_def i(1))
  have "span buf 4 \<subseteq> span buf 32" "span (table + 4 * (2 * i)) 8 \<subseteq> span table (8 * n)"
    using i(2) by (auto simp: span_def)
  with apart have off: "buf + 4 \<le> table + 4 * (2 * i) \<or> table + 4 * (2 * i) + 8 \<le> buf"
    using span_touch [of buf 4 "table + 4 * (2 * i)" 8] by auto
  then have "load buf s2 = load buf s1" unfolding s2_def by (auto simp: load_store_out)
  then have own: "load buf (setTempRet0 tsize s2) = of_nat buf" using load_store [of buf "of_nat buf" s]
    by (simp add: s1_def load_def setTempRet0_def)
  have "entries s2 table n = (entries s table n)[i := (of_nat buf, label)]"
    unfolding s2_def entries_store [OF i(2)] same ..
  then have "entries (setTempRet0 tsize s2) table n = (entries s table n)[i := (of_nat buf, label)]"
    by (simp add: entries_def load_def setTempRet0_def)
  with run own i show ?thesis by (auto simp: getTempRet0_def setTempRet0_def)
qed

lemma saved_grown:
  assumes n: "0 < n" "16 * n < 2 ^ 32" and buf: "buf \<noteq> 0" "buf < 2 ^ 32" and apart: "span buf 32 \<inter> span table (8 * n) = {}"
    and full: "\<forall>k<n. load (table + 4 * (2 * k)) s \<noteq> 0"
    and keeps: "realloc_keeps realloc table (8 * n) (16 * n) buf (sj_mem (store buf (of_nat buf) s))"
    and granted: "fst (realloc table (16 * n) (sj_mem (store buf (of_nat buf) s))) = p" "p \<noteq> 0"
  shows "\<exists>s'. saveSetjmp realloc halts buf label table (of_nat n) s = Some (p, s') \<and> getTempRet0 s' = of_nat (2 * n)
    \<and> entries s' p (2 * n) = entries s table n @ (of_nat buf, label) # replicate (n - 1) (0, 0)
    \<and> load buf s' = of_nat buf \<and> span buf 32 \<inter> span p (16 * n) = {}"
proof -
  define s1 where "s1 = store buf (of_nat buf) s"
  have same: "entries s1 table n = entries s table n" unfolding s1_def by (rule entries_buf [OF apart])
  have key: "load (table + 4 * (2 * k)) s1 = load (table + 4 * (2 * k)) s" if "k < n" for k
    using same that nth_entries [of k n s1 table] nth_entries [of k n s table] by simp
  have size: "sint (of_nat n :: u32) = int n" using n(2) by (intro small_sint) simp
  have none: "empty_slot 0 table (of_nat n) s1 = None"
    using empty_slot_from [OF size, of 0 table s1] full key by (auto split: option.splits)
  obtain m where m: "realloc table (16 * n) (sj_mem s1) = (p, m)" using granted(1) by (cases "realloc table (16 * n) (sj_mem s1)") (auto simp: s1_def)
  with keeps granted(2) have kept: "bytes_at m p (8 * n) = bytes_at (sj_mem s1) table (8 * n)" "u32_at m buf = u32_at (sj_mem s1) buf"
      "span buf 32 \<inter> span p (16 * n) = {}"
    by (simp_all add: realloc_keeps_def s1_def [symmetric])
  have un: "unat (of_nat n * 2 :: u32) = 2 * n" "unat (of_nat n * 2 + 1 :: u32) = 2 * n + 1" "unat (of_nat n * 2 * 4 :: u32) = 8 * n"
      "unat (of_nat n * 2 * 2 * 4 :: u32) = 16 * n"
    using n small_unat [of "2 * n"] small_unat [of "2 * n + 1"] small_unat [of "8 * n"] small_unat [of "16 * n"]
    by (simp_all add: mult.commute [of _ "of_nat n :: u32"] add.commute [of 1 "_ :: u32"] mult.assoc)
  define z where "z = zero_fill (p + 8 * n) (8 * n) (s1\<lparr> sj_mem := m \<rparr>)"
  define s2 where "s2 = store (p + 4 * (2 * n + 1)) label (store (p + 4 * (2 * n)) (of_nat buf) z)"
  have run: "saveSetjmp realloc halts buf label table (of_nat n) s = Some (p, setTempRet0 (of_nat n * 2) s2)"
    using granted(2)
    by (simp only: saveSetjmp_def s1_def [symmetric] Let_def none option.case m un prod.case s2_def z_def if_False mult.assoc [of 4 2 n, symmetric])
      simp
  have "entries z p (2 * n) = entries s table n @ replicate n (0, 0)"
    unfolding z_def by (subst entries_grown [OF kept(1)]) (simp add: same)
  then have "entries s2 p (2 * n) = (entries s table n @ replicate n (0, 0))[n := (of_nat buf, label)]"
    unfolding s2_def using entries_store [of n "2 * n" p label "of_nat buf" z] n(1) by simp
  also have "\<dots> = entries s table n @ (of_nat buf, label) # replicate (n - 1) (0, 0)"
    using n(1) by (cases n) (simp_all add: list_update_append)
  finally have es: "entries (setTempRet0 (of_nat n * 2) s2) p (2 * n) = entries s table n @ (of_nat buf, label) # replicate (n - 1) (0, 0)"
    by (simp add: entries_def load_def setTempRet0_def)
  have off: "buf + 32 \<le> p \<or> p + 16 * n \<le> buf" using span_touch [OF kept(3)] n(1) by simp
  then have "load buf s2 = load buf z" unfolding s2_def using n(1) by (auto simp: load_store_out)
  also have "\<dots> = load buf (s1\<lparr> sj_mem := m \<rparr>)" using off by (intro load_cong) (auto simp: z_def zero_fill_def)
  also have "\<dots> = of_nat buf" using kept(2) load_store [of buf "of_nat buf" s] by (simp add: load_def s1_def)
  finally have "load buf (setTempRet0 (of_nat n * 2) s2) = of_nat buf" by (simp add: load_def setTempRet0_def)
  with run es kept(3) show ?thesis by (auto simp: getTempRet0_def setTempRet0_def mult.commute)
qed

lemma saveSetjmp_enters:
  assumes n: "0 < n" "16 * n < 2 ^ 32" and buf: "buf \<noteq> 0" "buf < 2 ^ 32" and apart: "span buf 32 \<inter> span table (8 * n) = {}"
    and packed: "packed (entries s table n)"
    and keeps: "realloc_keeps realloc table (8 * n) (16 * n) buf (sj_mem (store buf (of_nat buf) s))"
    and granted: "fst (realloc table (16 * n) (sj_mem (store buf (of_nat buf) s))) \<noteq> 0"
  obtains table' n' s' where "saveSetjmp realloc halts buf label table (of_nat n) s = Some (table', s')"
    and "getTempRet0 s' = of_nat n'" and "n' = n \<or> n' = 2 * n" and "packed (entries s' table' n')" and "load buf s' = of_nat buf"
    and "span buf 32 \<inter> span table' (8 * n') = {}"
    and "\<And>env. env \<noteq> 0 \<Longrightarrow> lookup_label (entries s' table' n') env =
      (if env = of_nat buf \<and> of_nat buf \<notin> fst ` set (entries s table n) then label else lookup_label (entries s table n) env)"
proof (cases "\<exists>k<n. load (table + 4 * (2 * k)) s = 0")
  case True
  have size: "sint (of_nat n :: u32) = int n" using n(2) by (intro small_sint) simp
  have nz: "(of_nat buf :: u32) \<noteq> 0" using buf small_unat [of buf] by (metis unat_0)
  obtain s' i where s': "saveSetjmp realloc halts buf label table (of_nat n) s = Some (table, s')" "getTempRet0 s' = of_nat n"
      "i < n" "fst (entries s table n ! i) = 0" "\<forall>k<i. fst (entries s table n ! k) \<noteq> 0"
      "entries s' table n = (entries s table n)[i := (of_nat buf, label)]" "load buf s' = of_nat buf"
    using saved_in_place [OF size buf apart packed True] by blast
  show ?thesis
    by (rule that [OF s'(1,2) _ _ s'(7) apart])
      (use s' packed nz in \<open>simp_all add: packed_new lookup_new\<close>)
next
  case False
  then have full: "\<forall>k<n. load (table + 4 * (2 * k)) s \<noteq> 0" by blast
  have nz: "(of_nat buf :: u32) \<noteq> 0" using buf small_unat [of buf] by (metis unat_0)
  obtain s' where s': "saveSetjmp realloc halts buf label table (of_nat n) s =
        Some (fst (realloc table (16 * n) (sj_mem (store buf (of_nat buf) s))), s')" "getTempRet0 s' = of_nat (2 * n)"
      "entries s' (fst (realloc table (16 * n) (sj_mem (store buf (of_nat buf) s)))) (2 * n)
        = entries s table n @ (of_nat buf, label) # replicate (n - 1) (0, 0)"
      "load buf s' = of_nat buf" "span buf 32 \<inter> span (fst (realloc table (16 * n) (sj_mem (store buf (of_nat buf) s)))) (16 * n) = {}"
    using saved_grown [OF n buf apart full keeps refl granted] by blast
  have keys: "\<forall>k<length (entries s table n). fst (entries s table n ! k) \<noteq> 0" using full by simp
  show ?thesis
    by (rule that [OF s'(1,2) _ _ s'(4)])
      (use s'(3,5) in \<open>simp_all add: packed_full [OF keys nz] lookup_full [OF keys nz]\<close>)
qed

section \<open>Jumping back\<close>

lemma longjmp_leaves_table:
  assumes "span buf 32 \<inter> span table (8 * n) = {}"
  shows "entries (snd (wasm_longjmp buf val s)) table n = entries s table n"
proof (rule entries_cong)
  fix x assume "x \<in> span table (8 * n)"
  with assms have "x \<notin> span buf 32" by blast
  then show "sj_mem (snd (wasm_longjmp buf val s)) x = sj_mem s x"
    by (auto simp: wasm_longjmp_def store_def put_u32_def span_def Let_def)
qed

lemma longjmp_buffer:
  "load buf (snd (wasm_longjmp buf val s)) = load buf s"
  "load (buf + 8) (snd (wasm_longjmp buf val s)) = of_nat buf"
  "load (buf + 12) (snd (wasm_longjmp buf val s)) = (if val = 0 then 1 else val)"
  "getTempRet0 (snd (wasm_longjmp buf val s)) = getTempRet0 s"
  by (simp_all add: wasm_longjmp_def Let_def load_store load_store_out getTempRet0_def) (simp add: store_def)

text \<open>Out of memory, when the runtime goes on after a panic: the call is not in the table.\<close>

lemma saveSetjmp_out_of_memory:
  assumes "16 * n < 2 ^ 32" and "span buf 32 \<inter> span table (8 * n) = {}" and "\<forall>k<n. load (table + 4 * (2 * k)) s \<noteq> 0"
    and "realloc table (unat (of_nat n * 2 * 2 * 4 :: u32)) (sj_mem (store buf (of_nat buf) s)) = (0, sj_mem (store buf (of_nat buf) s))"
  shows "saveSetjmp realloc halts buf label table (of_nat n) s =
    (if halts then None else Some (table, setTempRet0 (of_nat n) (store buf (of_nat buf) s)))"
proof -
  have size: "sint (of_nat n :: u32) = int n" using assms(1) by (intro small_sint) simp
  have "load (table + 4 * (2 * k)) (store buf (of_nat buf) s) = load (table + 4 * (2 * k)) s" if "k < n" for k
    using entries_buf [OF assms(2), of "of_nat buf" s] that nth_entries [of k n "store buf (of_nat buf) s" table] nth_entries [of k n s table]
    by simp
  then have "empty_slot 0 table (of_nat n) (store buf (of_nat buf) s) = None"
    using empty_slot_from [OF size, of 0 table "store buf (of_nat buf) s"] assms(3) by (auto split: option.splits)
  then show ?thesis using assms(4) by (simp add: saveSetjmp_def Let_def del: mult_numeral_left)
qed


section \<open>Instances\<close>

text \<open>A table of one entry that is taken, and an allocator that moves it.\<close>

definition full_table :: sjlj where
  "full_table = \<lparr> g_tempRet0 = 0, sj_mem = put_u32 (put_u32 (\<lambda>_. 0) 0x200 0x80) 0x204 7 \<rparr>"

definition moving :: realloc_fun where
  "moving p n m = (0x400, blit m p n m 0x400)"

lemma full_table_entries: "entries full_table 0x200 1 = [(0x80, 7)]"
proof -
  have "u32_at (sj_mem full_table) 0x200 = u32_at (put_u32 (\<lambda>_. 0) 0x200 0x80) 0x200"
    unfolding full_table_def by (simp add: u32_at_put_out)
  then show ?thesis by (simp add: entries_def load_def u32_at_put full_table_def)
qed

lemma moving_keeps: "realloc_keeps moving 0x200 (8 * 1) (16 * 1) 0x100 m"
proof -
  have "bytes_at (blit m 0x200 16 m 0x400) 0x400 8 = bytes_at m 0x200 8"
    using bytes_at_blit_in [of "0x400" "0x400" 8 16 m "0x200" m] by simp
  moreover have "u32_at (blit m 0x200 16 m 0x400) 0x100 = u32_at m 0x100"
    by (simp add: u32_at_def bytes_at_blit_out)
  ultimately show ?thesis by (simp add: realloc_keeps_def moving_def span_apart)
qed


end
