(* ===== verification/Lind_Environ.thy ===== *)
theory Lind_Environ
  imports Byte_Memory
begin

text \<open>
  The runtime's side of program start-up: the arguments and the environment of a cage and the four
  host functions through which the guest fetches them
  (\<^verbatim>\<open>src/wasmtime/crates/lind-common/src/lib.rs\<close>). Strings are byte lists. The size of the guest's memory
  and \<^verbatim>\<open>check_addr_write\<close>, which asks the cage's memory map, are arguments; lengths are counted in 32
  bits, with the wrap-around of a release build.
\<close>

record LindEnviron =
  args :: "u8 list list"
  env :: "(u8 list \<times> u8 list) list"

definition EFAULT :: u32 where "EFAULT = 14"

section \<open>Operations\<close>

text \<open>A variable without a value takes that of the host process; one that the host does not have is dropped.\<close>

definition LindEnviron_new :: "(u8 list \<Rightarrow> u8 list option) \<Rightarrow> u8 list list \<Rightarrow> (u8 list \<times> u8 list option) list \<Rightarrow> LindEnviron" where
  "LindEnviron_new std_env as vars =
     \<lparr> args = as,
       env = List.map_filter
         (\<lambda>(key, val). case (case val of Some v \<Rightarrow> Some v | None \<Rightarrow> std_env key) of
            Some v \<Rightarrow> Some (key, v) | None \<Rightarrow> None) vars \<rparr>"

definition LindEnviron_fork :: "LindEnviron \<Rightarrow> LindEnviron" where
  "LindEnviron_fork cx = cx"

definition write_u32 :: "mem \<Rightarrow> nat \<Rightarrow> nat \<Rightarrow> mem" where
  "write_u32 m offset val = put_u32 m offset val"

definition write_bytes :: "mem \<Rightarrow> nat \<Rightarrow> u8 list \<Rightarrow> mem" where
  "write_bytes m offset src = (\<lambda>x. if offset \<le> x \<and> x < offset + length src then src ! (x - offset) else m x)"

type_synonym check_write = "nat \<Rightarrow> nat \<Rightarrow> bool"

text \<open>Storing a count and a size.\<close>

definition sizes_get :: "check_write \<Rightarrow> nat \<Rightarrow> nat \<Rightarrow> nat \<Rightarrow> nat \<Rightarrow> nat \<Rightarrow> mem \<Rightarrow> u32 \<times> mem" where
  "sizes_get check mem_size count buf_size off_count off_buf_size m =
     (if mem_size < off_count + 4 \<or> mem_size < off_buf_size + 4 then (EFAULT, m)
      else if \<not> check off_count 4 \<or> \<not> check off_buf_size 4 then (EFAULT, m)
      else (0, write_u32 (write_u32 m off_count count) off_buf_size buf_size))"

definition args_sizes_get :: "check_write \<Rightarrow> nat \<Rightarrow> LindEnviron \<Rightarrow> nat \<Rightarrow> nat \<Rightarrow> mem \<Rightarrow> u32 \<times> mem" where
  "args_sizes_get check mem_size cx ptr_argc ptr_buf_size m =
     sizes_get check mem_size (size_cast (length (args cx))) (size_cast (\<Sum>a\<leftarrow>args cx. length a + 1)) ptr_argc ptr_buf_size m"

definition environ_sizes_get :: "check_write \<Rightarrow> nat \<Rightarrow> LindEnviron \<Rightarrow> nat \<Rightarrow> nat \<Rightarrow> mem \<Rightarrow> u32 \<times> mem" where
  "environ_sizes_get check mem_size cx ptr_count ptr_buf_size m =
     sizes_get check mem_size (size_cast (length (env cx)))
       (size_cast (\<Sum>(k, v)\<leftarrow>env cx. length k + 1 + length v + 1)) ptr_count ptr_buf_size m"

text \<open>The loop that stores strings and the pointers to them.\<close>

fun strings_get :: "check_write \<Rightarrow> nat \<Rightarrow> nat \<Rightarrow> nat \<Rightarrow> nat \<Rightarrow> u8 list list \<Rightarrow> mem \<Rightarrow> u32 \<times> mem" where
  "strings_get check mem_size ptrs i buf_offset [] m = (0, m)"
| "strings_get check mem_size ptrs i buf_offset (bytes # rest) m =
     (let ptr_slot = ptrs + i * 4;
          last = buf_offset + length bytes + 1 in
      if mem_size < ptr_slot + 4 \<or> mem_size < last then (EFAULT, m)
      else if \<not> check ptr_slot 4 \<or> \<not> check buf_offset (length bytes + 1) then (EFAULT, m)
      else
        let m1 = write_u32 m ptr_slot buf_offset;
            m2 = write_bytes m1 buf_offset bytes;
            m3 = m2(buf_offset + length bytes := 0) in
        strings_get check mem_size ptrs (i + 1) (size_cast (buf_offset + length bytes + 1)) rest m3)"

definition args_get :: "check_write \<Rightarrow> nat \<Rightarrow> LindEnviron \<Rightarrow> nat \<Rightarrow> nat \<Rightarrow> mem \<Rightarrow> u32 \<times> mem" where
  "args_get check mem_size cx argv_ptrs argv_buf m = strings_get check mem_size argv_ptrs 0 argv_buf (args cx) m"

text \<open>\<^verbatim>\<open>format!("{}={}", key, val)\<close>.\<close>

definition env_entry :: "u8 list \<times> u8 list \<Rightarrow> u8 list" where
  "env_entry kv = (case kv of (key, val) \<Rightarrow> key @ [61] @ val)"

definition environ_get :: "check_write \<Rightarrow> nat \<Rightarrow> LindEnviron \<Rightarrow> nat \<Rightarrow> nat \<Rightarrow> mem \<Rightarrow> u32 \<times> mem" where
  "environ_get check mem_size cx env_ptrs env_buf m =
     strings_get check mem_size env_ptrs 0 env_buf (map env_entry (env cx)) m"

section \<open>Arrays of strings\<close>

definition strings_size :: "u8 list list \<Rightarrow> nat" where
  "strings_size ss = (\<Sum>a\<leftarrow>ss. length a + 1)"

text \<open>A pointer to each string, which has its terminator.\<close>

definition holds_strings :: "mem \<Rightarrow> nat \<Rightarrow> u8 list list \<Rightarrow> bool" where
  "holds_strings m p ss \<longleftrightarrow>
     (\<forall>i<length ss. bytes_at m (u32_at m (p + 4 * i)) (length (ss ! i) + 1) = ss ! i @ [0])"

lemma env_size: "(\<Sum>(k, v)\<leftarrow>es. length k + 1 + length v + 1) = strings_size (map env_entry es)"
  by (induction es) (auto simp: strings_size_def env_entry_def)

lemma strings_size_simps [simp]:
  "strings_size [] = 0" "strings_size (a # ss) = length a + 1 + strings_size ss"
  by (simp_all add: strings_size_def)

lemma write_string:
  "bytes_at ((write_bytes m b a)(b + length a := 0)) b (length a + 1) = a @ [0]"
  "agree (span b (length a + 1)) m ((write_bytes m b a)(b + length a := 0))"
  by (auto simp: write_bytes_def nth_append agree_def span_def intro: nth_equalityI)

text \<open>
  If there is room for the strings and their pointers, and all of it can be written, the loop
  succeeds, every slot points to its string, and nothing else is touched.
\<close>

lemma strings_get:
  assumes "span (ptrs + 4 * i) (4 * length ss) \<inter> span buf (strings_size ss) = {}"
    and "buf + strings_size ss \<le> 2 ^ 32"
    and "\<And>a n. 0 < n \<Longrightarrow> span a n \<subseteq> span (ptrs + 4 * i) (4 * length ss) \<union> span buf (strings_size ss) \<Longrightarrow> a + n \<le> mem_size \<and> check a n"
  shows "\<exists>m'. strings_get check mem_size ptrs i buf ss m = (0, m') \<and> holds_strings m' (ptrs + 4 * i) ss
    \<and> (\<forall>j<length ss. buf \<le> u32_at m' (ptrs + 4 * i + 4 * j)
          \<and> u32_at m' (ptrs + 4 * i + 4 * j) + length (ss ! j) + 1 \<le> buf + strings_size ss)
    \<and> agree (span (ptrs + 4 * i) (4 * length ss) \<union> span buf (strings_size ss)) m m'"
  using assms
proof (induction ss arbitrary: i buf m)
  case Nil
  then show ?case by (simp add: holds_strings_def agree_refl)
next
  case (Cons a ss)
  let ?slot = "ptrs + 4 * i" and ?b' = "buf + length a + 1"
  let ?P = "span ?slot (4 * length (a # ss))" and ?B = "span buf (strings_size (a # ss))"
  define m1 where "m1 = put_u32 m ?slot buf"
  define m3 where "m3 = (write_bytes m1 buf a)(buf + length a := 0)"
  have sub: "span ?slot 4 \<subseteq> ?P" "span (ptrs + 4 * Suc i) (4 * length ss) \<subseteq> ?P" "span buf (length a + 1) \<subseteq> ?B"
      "span ?b' (strings_size ss) \<subseteq> ?B"
    by (rule span_mono; simp)+
  have ok: "?slot + 4 \<le> mem_size" "check ?slot 4" "?b' \<le> mem_size" "check buf (length a + 1)"
    using Cons.prems(3) [of 4 ?slot] Cons.prems(3) [of "length a + 1" buf] sub by (auto simp: add.assoc)
  have step: "strings_get check mem_size ptrs i buf (a # ss) m = strings_get check mem_size ptrs (Suc i) (size_cast ?b') ss m3"
    using ok by (simp add: Let_def m3_def m1_def write_u32_def mult.commute add.assoc)
  have a1: "agree (span ?slot 4) m m1" unfolding m1_def by (rule agree_put)
  have v1: "u32_at m1 ?slot = buf" unfolding m1_def using Cons.prems(2) by (intro u32_at_put) simp
  have a3: "agree (span buf (length a + 1)) m1 m3" and v3: "bytes_at m3 buf (length a + 1) = a @ [0]"
    unfolding m3_def by (rule write_string)+
  have a13: "agree (?P \<union> ?B) m m3"
    by (rule agree_trans [OF agree_mono [OF a1] agree_mono [OF a3]]) (use sub in blast)+
  show ?case
  proof (cases "ss = []")
    case True
    have "u32_at m3 ?slot = buf" using v1 u32_at_agree [OF a3] Cons.prems(1) sub by blast
    then show ?thesis using step a13 v3 True by (auto simp: holds_strings_def)
  next
    case False
    then have "0 < strings_size ss" by (cases ss) simp_all
    then have cast: "size_cast ?b' = ?b'" using Cons.prems(2) by (simp add: size_cast_def)
    have "\<exists>m'. strings_get check mem_size ptrs (Suc i) ?b' ss m3 = (0, m') \<and> holds_strings m' (ptrs + 4 * Suc i) ss
      \<and> (\<forall>j<length ss. ?b' \<le> u32_at m' (ptrs + 4 * Suc i + 4 * j)
          \<and> u32_at m' (ptrs + 4 * Suc i + 4 * j) + length (ss ! j) + 1 \<le> ?b' + strings_size ss)
      \<and> agree (span (ptrs + 4 * Suc i) (4 * length ss) \<union> span ?b' (strings_size ss)) m3 m'"
    proof (rule Cons.IH)
      show "span (ptrs + 4 * Suc i) (4 * length ss) \<inter> span ?b' (strings_size ss) = {}" using Cons.prems(1) sub by blast
      show "?b' + strings_size ss \<le> 2 ^ 32" using Cons.prems(2) by simp
      fix x n
      assume "0 < n" "span x n \<subseteq> span (ptrs + 4 * Suc i) (4 * length ss) \<union> span ?b' (strings_size ss)"
      then show "x + n \<le> mem_size \<and> check x n" using Cons.prems(3) sub by blast
    qed
    then obtain m' where m': "strings_get check mem_size ptrs (Suc i) ?b' ss m3 = (0, m')" "holds_strings m' (ptrs + 4 * Suc i) ss"
        "\<forall>j<length ss. ?b' \<le> u32_at m' (ptrs + 4 * Suc i + 4 * j)
          \<and> u32_at m' (ptrs + 4 * Suc i + 4 * j) + length (ss ! j) + 1 \<le> ?b' + strings_size ss"
        "agree (span (ptrs + 4 * Suc i) (4 * length ss) \<union> span ?b' (strings_size ss)) m3 m'" by blast
    have off: "span ?slot 4 \<inter> (span (ptrs + 4 * Suc i) (4 * length ss) \<union> span ?b' (strings_size ss)) = {}"
        "span buf (length a + 1) \<inter> (span (ptrs + 4 * Suc i) (4 * length ss) \<union> span ?b' (strings_size ss)) = {}"
        "span ?slot 4 \<inter> span buf (length a + 1) = {}"
      using Cons.prems(1) sub span_apart [of ?slot 4 "ptrs + 4 * Suc i" "4 * length ss"]
        span_apart [of buf "length a + 1" ?b' "strings_size ss"] by auto
    have first: "u32_at m' ?slot = buf" "bytes_at m' buf (length a + 1) = a @ [0]"
      using v1 v3 u32_at_agree [OF a3 off(3)] u32_at_agree [OF m'(4) off(1)] bytes_at_agree [OF m'(4) off(2)] by simp_all
    have idx: "ptrs + 4 * i + 4 * Suc j = ptrs + 4 * Suc i + 4 * j" for j by simp
    have "holds_strings m' ?slot (a # ss)" unfolding holds_strings_def
    proof (intro allI impI)
      fix j assume "j < length (a # ss)"
      then show "bytes_at m' (u32_at m' (?slot + 4 * j)) (length ((a # ss) ! j) + 1) = (a # ss) ! j @ [0]"
        using first m'(2) by (cases j) (simp_all only: idx holds_strings_def, simp_all)
    qed
    moreover have "buf \<le> u32_at m' (?slot + 4 * j) \<and> u32_at m' (?slot + 4 * j) + length ((a # ss) ! j) + 1 \<le> buf + strings_size (a # ss)"
      if "j < length (a # ss)" for j
    proof (cases j)
      case (Suc k)
      then have "k < length ss" using that by simp
      from m'(3) [rule_format, OF this] show ?thesis unfolding Suc idx by simp
    qed (use first in simp)
    moreover have "agree (?P \<union> ?B) m m'"
      by (rule agree_trans [OF a13 agree_mono [OF m'(4)]]) (use sub in blast)
    ultimately show ?thesis using step m'(1) cast by auto
  qed
qed

end
