(* ===== verification/Lind_Start.thy ===== *)
theory Lind_Start
  imports Lind_Environ Lind_Syscall
begin

text \<open>
  Program start-up in the guest (\<^verbatim>\<open>src/glibc/lind_syscall/crt1/crt1.c\<close>), linked to the host functions of
  \<open>Lind_Environ\<close>: fetching the environment and the arguments into memory from the allocator, and
  calling the program.

  The allocator, the program's \<^verbatim>\<open>main\<close> and the three initialisers of the C library that \<^verbatim>\<open>_start\<close> calls are
  parameters. The addresses of the locals and of the empty environment are arguments. A program that
  does not return has no exit status.
\<close>

section \<open>Start-up\<close>

definition EX_SOFTWARE :: u32 where "EX_SOFTWARE = 70"

record allocator =
  malloc :: "nat \<Rightarrow> mem \<Rightarrow> nat \<times> mem"
  calloc :: "nat \<Rightarrow> nat \<Rightarrow> mem \<Rightarrow> nat \<times> mem"
  free :: "nat \<Rightarrow> mem \<Rightarrow> mem"

text \<open>The host's side: the memory that may be written and its size, and the strings.\<close>

record start_host =
  sh_check :: check_write
  sh_mem_size :: nat
  sh_environ :: LindEnviron

text \<open>A process that has left with a status, or goes on.\<close>

datatype 'a running = Exited u32 | Running 'a

definition lind_args_sizes_get :: "start_host \<Rightarrow> nat \<Rightarrow> nat \<Rightarrow> mem \<Rightarrow> 16 word \<times> mem" where
  "lind_args_sizes_get h retptr0 retptr1 m =
     (case args_sizes_get (sh_check h) (sh_mem_size h) (sh_environ h) retptr0 retptr1 m of (ret, m') \<Rightarrow> (ucast ret, m'))"

definition lind_args_get :: "start_host \<Rightarrow> nat \<Rightarrow> nat \<Rightarrow> mem \<Rightarrow> 16 word \<times> mem" where
  "lind_args_get h argv argv_buf m =
     (case args_get (sh_check h) (sh_mem_size h) (sh_environ h) argv argv_buf m of (ret, m') \<Rightarrow> (ucast ret, m'))"

definition lind_environ_get :: "start_host \<Rightarrow> nat \<Rightarrow> nat \<Rightarrow> mem \<Rightarrow> 16 word \<times> mem" where
  "lind_environ_get h environ environ_buf m =
     (case environ_get (sh_check h) (sh_mem_size h) (sh_environ h) environ environ_buf m of (ret, m') \<Rightarrow> (ucast ret, m'))"

definition lind_environ_sizes_get :: "start_host \<Rightarrow> nat \<Rightarrow> nat \<Rightarrow> mem \<Rightarrow> 16 word \<times> mem" where
  "lind_environ_sizes_get h retptr0 retptr1 m =
     (case environ_sizes_get (sh_check h) (sh_mem_size h) (sh_environ h) retptr0 retptr1 m of (ret, m') \<Rightarrow> (ucast ret, m'))"

definition lind_initialize_environ ::
  "allocator \<Rightarrow> start_host \<Rightarrow> nat \<Rightarrow> nat \<Rightarrow> nat \<Rightarrow> mem \<Rightarrow> (nat \<times> mem) running" where
  "lind_initialize_environ A h p_count p_buf_size empty_environ m0 =
     (case lind_environ_sizes_get h p_count p_buf_size m0 of (_, m1) \<Rightarrow>
        let environ_count = u32_at m1 p_count;
            environ_buf_size = u32_at m1 p_buf_size in
        if environ_count = 0 then Running (empty_environ, m1)
        else
          let num_ptrs = size_cast (environ_count + 1) in
          if num_ptrs = 0 then Exited EX_SOFTWARE
          else (case malloc A environ_buf_size m1 of (environ_buf, m2) \<Rightarrow>
            if environ_buf = 0 then Exited EX_SOFTWARE
            else (case calloc A num_ptrs 4 m2 of (environ_ptrs, m3) \<Rightarrow>
              if environ_ptrs = 0 then (let m4 = free A environ_buf m3 in Exited EX_SOFTWARE)
              else (case lind_environ_get h environ_ptrs environ_buf m3 of (_, m4) \<Rightarrow>
                Running (environ_ptrs, m4)))))"

text \<open>The program gets its arguments and the environment, and answers with its status and the memory.\<close>

type_synonym main_fun = "nat \<Rightarrow> nat \<Rightarrow> nat \<Rightarrow> mem \<Rightarrow> (u32 \<times> mem) option"

definition main_argc_argv :: "main_fun \<Rightarrow> nat \<Rightarrow> nat \<Rightarrow> nat \<Rightarrow> mem \<Rightarrow> (u32 \<times> mem) option" where
  "main_argc_argv main environ argc argv m = main argc argv environ m"

definition main_void :: "allocator \<Rightarrow> start_host \<Rightarrow> main_fun \<Rightarrow> nat \<Rightarrow> nat \<Rightarrow> nat \<Rightarrow> mem \<Rightarrow> (u32 \<times> mem) option running" where
  "main_void A h main p_argc p_buf_size environ m0 =
     (case lind_args_sizes_get h p_argc p_buf_size m0 of (_, m1) \<Rightarrow>
        let argv_buf_size = u32_at m1 p_buf_size;
            argc = u32_at m1 p_argc;
            num_ptrs = size_cast (argc + 1) in
        if num_ptrs = 0 then Exited EX_SOFTWARE
        else (case malloc A argv_buf_size m1 of (argv_buf, m2) \<Rightarrow>
          if argv_buf = 0 then Exited EX_SOFTWARE
          else (case calloc A num_ptrs 4 m2 of (argv, m3) \<Rightarrow>
            if argv = 0 then (let m4 = free A argv_buf m3 in Exited EX_SOFTWARE)
            else (case lind_args_get h argv argv_buf m3 of (_, m4) \<Rightarrow>
              Running (main_argc_argv main environ argc argv m4)))))"

text \<open>The addresses of the locals and of the empty environment.\<close>

record start_frame =
  f_environ_count :: nat
  f_environ_buf_size :: nat
  f_argc :: nat
  f_argv_buf_size :: nat
  f_empty_environ :: nat

text \<open>The exit status: of the process that gave up, or what the program returned.\<close>

definition start ::
  "u64 \<Rightarrow> u64 \<Rightarrow> (mem \<Rightarrow> mem) \<Rightarrow> (mem \<Rightarrow> mem) \<Rightarrow> (mem \<Rightarrow> mem) \<Rightarrow> allocator \<Rightarrow> start_host \<Rightarrow> main_fun \<Rightarrow> start_frame \<Rightarrow> lind \<Rightarrow> u32 option" where
  "start memory_base cage_id libc_setup_tls wasi_init_tp ctype_init A h main fr s0 =
     (let s1 = lind_init_addr_translation memory_base cage_id s0;
          m1 = libc_setup_tls (lmem s1);
          m2 = wasi_init_tp m1 in
      case lind_initialize_environ A h (f_environ_count fr) (f_environ_buf_size fr) (f_empty_environ fr) m2 of
        Exited status \<Rightarrow> Some status
      | Running (environ, m3) \<Rightarrow>
          let m4 = ctype_init m3 in
          (case main_void A h main (f_argc fr) (f_argv_buf_size fr) environ m4 of
             Exited status \<Rightarrow> Some status
           | Running None \<Rightarrow> None
           | Running (Some (status, _)) \<Rightarrow> Some status))"

section \<open>What start-up relies on\<close>

text \<open>
  The bytes that belong to the program (\<open>owned\<close>: its stack and variables, and the blocks it has been
  given) and how many bytes the allocator can still give (\<open>room\<close>). A block is disjoint from what the
  program has, whose contents it leaves alone; it may cost up to 16 bytes of administration; and the
  program cannot disturb the allocator by writing its own bytes.
\<close>

definition given :: "(mem \<Rightarrow> nat set) \<Rightarrow> (mem \<Rightarrow> nat) \<Rightarrow> nat \<Rightarrow> mem \<Rightarrow> nat \<times> mem \<Rightarrow> bool" where
  "given owned room n m r \<longleftrightarrow>
     (case r of (p, m') \<Rightarrow> p \<noteq> 0 \<and> p + n \<le> 2 ^ 32 \<and> span p n \<inter> owned m = {} \<and> owned m' = owned m \<union> span p n
        \<and> agree (- owned m) m m' \<and> room m \<le> room m' + n + 16)"

definition allocator_ok :: "allocator \<Rightarrow> (mem \<Rightarrow> nat set) \<Rightarrow> (mem \<Rightarrow> nat) \<Rightarrow> bool" where
  "allocator_ok A owned room \<longleftrightarrow>
     (\<forall>n m. n \<le> room m \<longrightarrow> given owned room n m (malloc A n m))
     \<and> (\<forall>k c m. k * c \<le> room m \<longrightarrow> given owned room (k * c) m (calloc A k c m)
          \<and> (case calloc A k c m of (p, m') \<Rightarrow> \<forall>x\<in>span p (k * c). m' x = 0))
     \<and> (\<forall>m m'. agree (owned m) m m' \<longrightarrow> owned m' = owned m \<and> room m' = room m)"

text \<open>The host may write what the program has; an initialiser writes variables of the C library only.\<close>

definition host_ok :: "start_host \<Rightarrow> (mem \<Rightarrow> nat set) \<Rightarrow> bool" where
  "host_ok h owned \<longleftrightarrow> (\<forall>m a n. 0 < n \<and> span a n \<subseteq> owned m \<longrightarrow> a + n \<le> sh_mem_size h \<and> sh_check h a n)"

definition quiet :: "(mem \<Rightarrow> nat set) \<Rightarrow> (mem \<Rightarrow> nat) \<Rightarrow> (mem \<Rightarrow> mem) \<Rightarrow> bool" where
  "quiet owned room f \<longleftrightarrow> (\<forall>m. owned (f m) = owned m \<and> room (f m) = room m \<and> agree (- owned m) m (f m))"

text \<open>The locals are the program's and do not overlap, and the empty environment is an end marker.\<close>

definition frame_ok :: "start_frame \<Rightarrow> nat set \<Rightarrow> mem \<Rightarrow> bool" where
  "frame_ok fr own m \<longleftrightarrow>
     (let locals = [f_environ_count fr, f_environ_buf_size fr, f_argc fr, f_argv_buf_size fr] in
      (\<forall>p\<in>set locals. span p 4 \<subseteq> own \<and> span p 4 \<inter> span (f_empty_environ fr) 4 = {})
      \<and> span (f_environ_count fr) 4 \<inter> span (f_environ_buf_size fr) 4 = {}
      \<and> span (f_argc fr) 4 \<inter> span (f_argv_buf_size fr) 4 = {}
      \<and> span (f_empty_environ fr) 4 \<subseteq> own \<and> u32_at m (f_empty_environ fr) = 0)"

definition bytes_needed :: "u8 list list \<Rightarrow> nat" where
  "bytes_needed ss = strings_size ss + 4 * (length ss + 1) + 32"

section \<open>Arrays of strings\<close>

text \<open>What the program reads: the strings, and a null pointer behind the last.\<close>

definition string_array :: "mem \<Rightarrow> nat \<Rightarrow> u8 list list \<Rightarrow> bool" where
  "string_array m p ss \<longleftrightarrow> holds_strings m p ss \<and> u32_at m (p + 4 * length ss) = 0"

definition footprint :: "mem \<Rightarrow> nat \<Rightarrow> u8 list list \<Rightarrow> nat set" where
  "footprint m p ss =
     span p (4 * (length ss + 1)) \<union> (\<Union>i<length ss. span (u32_at m (p + 4 * i)) (length (ss ! i) + 1))"

lemma string_array_agree:
  assumes ag: "agree W m m'" and off: "footprint m p ss \<inter> W = {}" and arr: "string_array m p ss"
  shows "string_array m' p ss"
proof -
  have slot: "u32_at m' (p + 4 * i) = u32_at m (p + 4 * i)" if "i \<le> length ss" for i
  proof (rule u32_at_agree [OF ag])
    have "span (p + 4 * i) 4 \<subseteq> span p (4 * (length ss + 1))" using that by (intro span_mono) simp_all
    with off show "span (p + 4 * i) 4 \<inter> W = {}" unfolding footprint_def by blast
  qed
  have "bytes_at m' (u32_at m (p + 4 * i)) (length (ss ! i) + 1) = bytes_at m (u32_at m (p + 4 * i)) (length (ss ! i) + 1)"
    if "i < length ss" for i
    by (rule bytes_at_agree [OF ag]) (use off that in \<open>unfold footprint_def, blast\<close>)
  with slot arr show ?thesis by (simp add: string_array_def holds_strings_def)
qed

lemma sizes_get:
  assumes "host_ok h owned" and "span pc 4 \<subseteq> owned m" and "span ps 4 \<subseteq> owned m" and "span pc 4 \<inter> span ps 4 = {}"
    and "c < 2 ^ 32" and "k < 2 ^ 32"
  shows "\<exists>m'. sizes_get (sh_check h) (sh_mem_size h) c k pc ps m = (0, m') \<and> u32_at m' pc = c \<and> u32_at m' ps = k
    \<and> agree (span pc 4 \<union> span ps 4) m m'"
proof -
  have ok: "pc + 4 \<le> sh_mem_size h" "sh_check h pc 4" "ps + 4 \<le> sh_mem_size h" "sh_check h ps 4"
    using assms(1,2,3) unfolding host_ok_def by (metis zero_less_numeral)+
  define m1 where "m1 = put_u32 m pc c"
  define m2 where "m2 = put_u32 m1 ps k"
  have a: "agree (span pc 4) m m1" "agree (span ps 4) m1 m2" unfolding m1_def m2_def by (rule agree_put)+
  have "u32_at m1 pc = c" "u32_at m2 ps = k" unfolding m1_def m2_def using assms(5,6) by (simp_all add: u32_at_put)
  moreover have "u32_at m2 pc = u32_at m1 pc" by (rule u32_at_agree [OF a(2) assms(4)])
  moreover have "agree (span pc 4 \<union> span ps 4) m m2"
    by (rule agree_trans [OF agree_mono [OF a(1)] agree_mono [OF a(2)]]) blast+
  ultimately show ?thesis using ok by (auto simp: sizes_get_def write_u32_def m2_def m1_def)
qed

lemma malloc_given:
  "allocator_ok A owned room \<Longrightarrow> n \<le> room m \<Longrightarrow> malloc A n m = (p, m') \<Longrightarrow>
   p \<noteq> 0 \<and> p + n \<le> 2 ^ 32 \<and> span p n \<inter> owned m = {} \<and> owned m' = owned m \<union> span p n
   \<and> agree (- owned m) m m' \<and> room m \<le> room m' + n + 16"
proof -
  assume "allocator_ok A owned room" "n \<le> room m" and eq: "malloc A n m = (p, m')"
  then have "given owned room n m (malloc A n m)" unfolding allocator_ok_def by blast
  with eq show ?thesis by (simp add: given_def)
qed

lemma calloc_given:
  assumes "allocator_ok A owned room" and "4 * k \<le> room m" and "calloc A k 4 m = (p, m')"
  shows "p \<noteq> 0 \<and> span p (4 * k) \<inter> owned m = {} \<and> owned m' = owned m \<union> span p (4 * k)
   \<and> agree (- owned m) m m' \<and> room m \<le> room m' + 4 * k + 16 \<and> (\<forall>x\<in>span p (4 * k). m' x = 0)"
proof -
  have "given owned room (k * 4) m (calloc A k 4 m) \<and> (case calloc A k 4 m of (p, m') \<Rightarrow> \<forall>x\<in>span p (k * 4). m' x = 0)"
    using assms(1,2) unfolding allocator_ok_def by (simp add: mult.commute)
  with assms(3) show ?thesis by (simp add: given_def mult.commute)
qed

lemma own_writes: "allocator_ok A owned room \<Longrightarrow> agree (owned m) m m' \<Longrightarrow> owned m' = owned m \<and> room m' = room m"
  unfolding allocator_ok_def by blast

text \<open>The steps that the environment and the arguments share: a block for the strings, a block of null
  pointers, and the host's loop.\<close>

lemma fetched:
  assumes A: "allocator_ok A owned room" and h: "host_ok h owned" and room: "bytes_needed ss \<le> room m"
  shows "\<exists>b m2 p m3 m4. malloc A (strings_size ss) m = (b, m2) \<and> b \<noteq> 0 \<and> calloc A (length ss + 1) 4 m2 = (p, m3) \<and> p \<noteq> 0
    \<and> strings_get (sh_check h) (sh_mem_size h) p 0 b ss m3 = (0, m4) \<and> string_array m4 p ss
    \<and> footprint m4 p ss \<subseteq> owned m4 - owned m
    \<and> owned m \<subseteq> owned m4 \<and> agree (- owned m) m m4 \<and> room m \<le> room m4 + bytes_needed ss"
proof -
  obtain b m2 where b: "malloc A (strings_size ss) m = (b, m2)" by fastforce
  have "strings_size ss \<le> room m" using room by (simp add: bytes_needed_def)
  from malloc_given [OF A this b] have g2: "b \<noteq> 0" "b + strings_size ss \<le> 2 ^ 32" "span b (strings_size ss) \<inter> owned m = {}"
      "owned m2 = owned m \<union> span b (strings_size ss)" "agree (- owned m) m m2" "room m \<le> room m2 + strings_size ss + 16"
    by simp_all
  obtain p m3 where p: "calloc A (length ss + 1) 4 m2 = (p, m3)" by fastforce
  let ?P = "span p (4 * (length ss + 1))" and ?B = "span b (strings_size ss)"
  have r2: "4 * (length ss + 1) \<le> room m2" using g2(6) room by (simp add: bytes_needed_def)
  from calloc_given [OF A r2 p] have g3: "p \<noteq> 0" "?P \<inter> owned m2 = {}" "owned m3 = owned m2 \<union> ?P" "agree (- owned m2) m2 m3"
      "room m2 \<le> room m3 + 4 * (length ss + 1) + 16" and zero: "\<forall>x\<in>?P. m3 x = 0"
    by simp_all
  have sub: "span p (4 * length ss) \<subseteq> ?P" "span (p + 4 * length ss) 4 \<subseteq> ?P" by (rule span_mono; simp)+
  have "\<exists>m4. strings_get (sh_check h) (sh_mem_size h) p 0 b ss m3 = (0, m4) \<and> holds_strings m4 (p + 4 * 0) ss
    \<and> (\<forall>j<length ss. b \<le> u32_at m4 (p + 4 * 0 + 4 * j)
          \<and> u32_at m4 (p + 4 * 0 + 4 * j) + length (ss ! j) + 1 \<le> b + strings_size ss)
    \<and> agree (span (p + 4 * 0) (4 * length ss) \<union> ?B) m3 m4"
  proof (rule strings_get)
    show "span (p + 4 * 0) (4 * length ss) \<inter> ?B = {}" using g2(4) g3(2) sub by auto
    fix a n
    assume "0 < n" "span a n \<subseteq> span (p + 4 * 0) (4 * length ss) \<union> ?B"
    then have "span a n \<subseteq> owned m3" using g2(4) g3(3) sub by auto
    then show "a + n \<le> sh_mem_size h \<and> sh_check h a n" using h \<open>0 < n\<close> unfolding host_ok_def by blast
  qed (rule g2(2))
  then obtain m4 where m4: "strings_get (sh_check h) (sh_mem_size h) p 0 b ss m3 = (0, m4)" "holds_strings m4 p ss"
      "\<forall>j<length ss. b \<le> u32_at m4 (p + 4 * j) \<and> u32_at m4 (p + 4 * j) + length (ss ! j) + 1 \<le> b + strings_size ss"
      "agree (span p (4 * length ss) \<union> ?B) m3 m4" by auto
  have "agree (owned m3) m3 m4" by (rule agree_mono [OF m4(4)]) (use sub g2(4) g3(3) in blast)
  from own_writes [OF A this] have own: "owned m4 = owned m3" "room m4 = room m3" by simp_all
  have "u32_at m3 (p + 4 * length ss) = 0"
  proof -
    have "bytes_at m3 (p + 4 * length ss) 4 = replicate 4 0"
      using zero sub(2) by (intro nth_equalityI) (auto simp: span_def)
    then show ?thesis by (simp add: u32_at_def numeral_eq_Suc)
  qed
  moreover have "span (p + 4 * length ss) 4 \<inter> (span p (4 * length ss) \<union> ?B) = {}"
    using g2(4) g3(2) sub span_apart [of p "4 * length ss" "p + 4 * length ss" 4] by blast
  ultimately have "string_array m4 p ss" using m4(2) u32_at_agree [OF m4(4)] by (simp add: string_array_def)
  moreover have "span (u32_at m4 (p + 4 * i)) (length (ss ! i) + 1) \<subseteq> ?B" if "i < length ss" for i
    using m4(3) that by (intro span_mono) (simp_all add: add.assoc)
  then have "footprint m4 p ss \<subseteq> ?P \<union> ?B" unfolding footprint_def by blast
  then have "footprint m4 p ss \<subseteq> owned m4 - owned m" using own(1) g2(3,4) g3(2,3) by blast
  moreover have "agree (- owned m) m m4"
    by (rule agree_trans [OF g2(5) agree_trans [OF agree_mono [OF g3(4)] agree_mono [OF m4(4)]]]) (use g2(3,4) g3(2) sub in blast)+
  moreover have "room m \<le> room m4 + bytes_needed ss" using g2(6) g3(5) own(2) by (simp add: bytes_needed_def)
  moreover have "owned m \<subseteq> owned m4" using own(1) g3(3) g2(4) by blast
  ultimately show ?thesis using b p g2(1) g3(1) m4(1)
    by (intro exI [of _ b] exI [of _ m2] exI [of _ p] exI [of _ m3] exI [of _ m4] conjI)
qed

lemma room_bound:
  assumes A: "allocator_ok A owned room" and "bytes_needed ss \<le> room m"
  shows "strings_size ss < 2 ^ 32" and "length ss + 1 < 2 ^ 32"
proof -
  obtain p m' where "malloc A (bytes_needed ss) m = (p, m')" by fastforce
  from malloc_given [OF A assms(2) this] have "bytes_needed ss < 2 ^ 32" by simp
  then show "strings_size ss < 2 ^ 32" "length ss + 1 < 2 ^ 32" by (simp_all add: bytes_needed_def)
qed

text \<open>The environment is in place, in new memory or as the empty one.\<close>

lemma environ_ready:
  assumes A: "allocator_ok A owned room" and h: "host_ok h owned" and fr: "frame_ok fr (owned m) m"
    and room: "bytes_needed es \<le> room m" and es: "es = map env_entry (env (sh_environ h))"
  shows "\<exists>envp m'. lind_initialize_environ A h (f_environ_count fr) (f_environ_buf_size fr) (f_empty_environ fr) m = Running (envp, m')
    \<and> string_array m' envp es \<and> footprint m' envp es \<subseteq> owned m' - owned m \<union> span (f_empty_environ fr) 4
    \<and> owned m \<subseteq> owned m' \<and> room m \<le> room m' + bytes_needed es"
proof -
  let ?pc = "f_environ_count fr" and ?ps = "f_environ_buf_size fr" and ?e = "f_empty_environ fr"
  have loc: "span ?pc 4 \<subseteq> owned m" "span ?ps 4 \<subseteq> owned m" "span ?pc 4 \<inter> span ?ps 4 = {}" "u32_at m ?e = 0"
      "span ?e 4 \<inter> (span ?pc 4 \<union> span ?ps 4) = {}" "span ?e 4 \<subseteq> owned m"
    using fr unfolding frame_ok_def Let_def by auto
  note bound = room_bound [OF A room]
  then have "length es < 2 ^ 32" by simp
  from sizes_get [OF h loc(1-3) this bound(1)] obtain m1 where
    m1: "sizes_get (sh_check h) (sh_mem_size h) (length es) (strings_size es) ?pc ?ps m = (0, m1)"
      "u32_at m1 ?pc = length es" "u32_at m1 ?ps = strings_size es" and ag: "agree (span ?pc 4 \<union> span ?ps 4) m m1" by blast
  have "size_cast (length (env (sh_environ h))) = length es" "size_cast (strings_size es) = strings_size es"
    using bound by (simp_all add: size_cast_def es)
  then have get: "lind_environ_sizes_get h ?pc ?ps m = (0, m1)"
    using m1(1) unfolding lind_environ_sizes_get_def environ_sizes_get_def env_size es [symmetric] by simp
  have "agree (owned m) m m1" by (rule agree_mono [OF ag]) (use loc(1,2) in blast)
  from own_writes [OF A this] have own: "owned m1 = owned m" "room m1 = room m" by simp_all
  show ?thesis
  proof (cases "es = []")
    case True
    have "u32_at m1 ?e = 0" using u32_at_agree [OF ag loc(5)] loc(4) by simp
    then have "string_array m1 ?e es" "footprint m1 ?e es = span ?e 4"
      by (simp_all add: True string_array_def holds_strings_def footprint_def)
    moreover have "lind_initialize_environ A h ?pc ?ps ?e m = Running (?e, m1)"
      using m1(2) by (simp add: lind_initialize_environ_def get True)
    ultimately show ?thesis using own by (intro exI [of _ ?e] exI [of _ m1]) simp
  next
    case False
    have "bytes_needed es \<le> room m1" using room own(2) by simp
    from fetched [OF A h this] obtain b m2 p m3 m4 where
      f: "malloc A (strings_size es) m1 = (b, m2)" "b \<noteq> 0" "calloc A (length es + 1) 4 m2 = (p, m3)" "p \<noteq> 0"
        "strings_get (sh_check h) (sh_mem_size h) p 0 b es m3 = (0, m4)" "string_array m4 p es"
        "footprint m4 p es \<subseteq> owned m4 - owned m1" "owned m1 \<subseteq> owned m4" "room m1 \<le> room m4 + bytes_needed es"
      by blast
    have "lind_initialize_environ A h ?pc ?ps ?e m = Running (p, m4)"
      using False bound f(1-5) m1(2,3)
      by (simp add: lind_initialize_environ_def get Let_def size_cast_def lind_environ_get_def environ_get_def es [symmetric])
    with f(6-9) own show ?thesis by (intro exI [of _ p] exI [of _ m4]) auto
  qed
qed

text \<open>The program is called with its arguments in place, and the program's other memory as it was.\<close>

lemma main_called:
  assumes A: "allocator_ok A owned room" and h: "host_ok h owned"
    and loc: "span pa 4 \<subseteq> owned m" "span ps 4 \<subseteq> owned m" "span pa 4 \<inter> span ps 4 = {}"
    and room: "bytes_needed (args (sh_environ h)) \<le> room m"
  shows "\<exists>argv m'. main_void A h main pa ps envp m = Running (main (length (args (sh_environ h))) argv envp m')
    \<and> string_array m' argv (args (sh_environ h)) \<and> agree (- owned m \<union> span pa 4 \<union> span ps 4) m m'"
proof -
  let ?as = "args (sh_environ h)"
  note bound = room_bound [OF A room]
  then have "length ?as < 2 ^ 32" by simp
  from sizes_get [OF h loc this bound(1)] obtain m1 where
    m1: "sizes_get (sh_check h) (sh_mem_size h) (length ?as) (strings_size ?as) pa ps m = (0, m1)"
      "u32_at m1 pa = length ?as" "u32_at m1 ps = strings_size ?as" and ag: "agree (span pa 4 \<union> span ps 4) m m1" by blast
  have get: "lind_args_sizes_get h pa ps m = (0, m1)"
    using m1(1) bound unfolding lind_args_sizes_get_def args_sizes_get_def strings_size_def [symmetric] by (simp add: size_cast_def)
  have "agree (owned m) m m1" by (rule agree_mono [OF ag]) (use loc(1,2) in blast)
  from own_writes [OF A this] have own: "owned m1 = owned m" "room m1 = room m" by simp_all
  have "bytes_needed ?as \<le> room m1" using room own(2) by simp
  from fetched [OF A h this] obtain b m2 p m3 m4 where
    f: "malloc A (strings_size ?as) m1 = (b, m2)" "b \<noteq> 0" "calloc A (length ?as + 1) 4 m2 = (p, m3)" "p \<noteq> 0"
      "strings_get (sh_check h) (sh_mem_size h) p 0 b ?as m3 = (0, m4)" "string_array m4 p ?as" "agree (- owned m1) m1 m4"
    by blast
  have "main_void A h main pa ps envp m = Running (main (length ?as) p envp m4)"
    using bound f(1-5) m1(2,3)
    by (simp add: main_void_def get Let_def size_cast_def lind_args_get_def args_get_def main_argc_argv_def)
  moreover have "agree (- owned m \<union> span pa 4 \<union> span ps 4) m m4"
    by (rule agree_trans [OF agree_mono [OF ag] agree_mono [OF f(7)]]) (use own(1) in blast)+
  ultimately show ?thesis using f(6) by (intro exI [of _ p] exI [of _ m4] conjI)
qed

section \<open>Reaching the program\<close>

text \<open>C19: Every program that is started gets to run, with what it was started with. If the allocator has room
  for the strings, \<^verbatim>\<open>_start\<close> does not give up: it calls \<^verbatim>\<open>main\<close> with the number of the arguments, an array in
  memory of pointers to exactly the argument strings in their order, each with its terminator, and
  an array of the environment's strings, both closed by a null pointer; and the exit status is what
  \<^verbatim>\<open>main\<close> returns.\<close>

theorem start_reaches_main:
  assumes "allocator_ok A owned room" and "host_ok h owned" and "quiet owned room ctype_init"
    and "m = wasi_init_tp (libc_setup_tls (lmem s))" and "frame_ok fr (owned m) m"
    and "as = args (sh_environ h)" and "es = map env_entry (env (sh_environ h))"
    and "bytes_needed as + bytes_needed es \<le> room m"
  shows "\<exists>argv envp m'. start memory_base cage_id libc_setup_tls wasi_init_tp ctype_init A h main fr s =
      map_option fst (main (length as) argv envp m')
    \<and> string_array m' argv as \<and> string_array m' envp es"
proof -
  let ?pa = "f_argc fr" and ?ps = "f_argv_buf_size fr" and ?e = "f_empty_environ fr"
  have loc: "span ?pa 4 \<subseteq> owned m" "span ?ps 4 \<subseteq> owned m" "span ?pa 4 \<inter> span ?ps 4 = {}" "span ?e 4 \<subseteq> owned m"
      "span ?e 4 \<inter> (span ?pa 4 \<union> span ?ps 4) = {}"
    using assms(5) unfolding frame_ok_def Let_def by auto
  have "bytes_needed es \<le> room m" using assms(8) by simp
  from environ_ready [OF assms(1,2,5) this assms(7)] obtain envp m3 where
    env: "lind_initialize_environ A h (f_environ_count fr) (f_environ_buf_size fr) ?e m = Running (envp, m3)"
      "string_array m3 envp es" "footprint m3 envp es \<subseteq> owned m3 - owned m \<union> span ?e 4" "owned m \<subseteq> owned m3"
      "room m \<le> room m3 + bytes_needed es" by blast
  define m4 where "m4 = ctype_init m3"
  have q: "owned m4 = owned m3" "room m4 = room m3" "agree (- owned m3) m3 m4"
    using assms(3) unfolding quiet_def m4_def by blast+
  have "span ?pa 4 \<subseteq> owned m4" "span ?ps 4 \<subseteq> owned m4" "bytes_needed (args (sh_environ h)) \<le> room m4"
    using loc env(4,5) q(1,2) assms(6,8) by auto
  from main_called [OF assms(1,2) this(1,2) loc(3) this(3)] obtain argv m' where
    mn: "main_void A h main ?pa ?ps envp m4 = Running (main (length as) argv envp m')" "string_array m' argv as"
      "agree (- owned m4 \<union> span ?pa 4 \<union> span ?ps 4) m4 m'" using assms(6) by blast
  have "agree (- owned m3 \<union> span ?pa 4 \<union> span ?ps 4) m3 m'"
    by (rule agree_trans [OF agree_mono [OF q(3)]]) (use mn(3) q(1) in auto)
  then have "string_array m' envp es"
    by (rule string_array_agree [OF _ _ env(2)]) (use env(3,4) loc in blast)
  moreover have "start memory_base cage_id libc_setup_tls wasi_init_tp ctype_init A h main fr s =
      map_option fst (main (length as) argv envp m')"
    using env(1) mn(1) assms(4) by (simp add: start_def Let_def m4_def lind_init_addr_translation_def split: option.split)
  ultimately show ?thesis using mn(2) by blast
qed

text \<open>Without memory the process leaves with the status for an internal error, and \<^verbatim>\<open>main\<close> is not called.\<close>

lemma start_gives_up:
  assumes "\<And>n m. fst (malloc A n m) = 0"
  shows "start memory_base cage_id libc_setup_tls wasi_init_tp ctype_init A h main fr s = Some EX_SOFTWARE"
proof -
  have none: "malloc A n m = (p, m') \<Longrightarrow> p = 0" for n m p m' using assms [of n m] by simp
  have env: "lind_initialize_environ A h pc ps e m = Exited EX_SOFTWARE \<or> (\<exists>r. lind_initialize_environ A h pc ps e m = Running r)"
    for pc ps e m by (cases "lind_initialize_environ A h pc ps e m") (auto simp: lind_initialize_environ_def Let_def split: prod.splits if_splits)
  have "main_void A h main pa ps envp m = Exited EX_SOFTWARE" for pa ps envp m
    using none by (auto simp: main_void_def Let_def split: prod.split)
  then show ?thesis using env
    by (auto simp: start_def Let_def split: running.split prod.split) (metis running.inject(1) running.distinct(1))+
qed

section \<open>Instances\<close>

text \<open>An allocator that hands out the memory above a mark, which it keeps at address 0.\<close>

definition mark :: "mem \<Rightarrow> nat" where
  "mark m = max 4 (u32_at m 0)"

definition bump_owned :: "mem \<Rightarrow> nat set" where
  "bump_owned m = {4..<mark m}"

definition bump_room :: "mem \<Rightarrow> nat" where
  "bump_room m = 2 ^ 32 - 1 - mark m"

definition bump :: allocator where
  "bump = \<lparr>
     malloc = (\<lambda>n m. if n \<le> bump_room m then (mark m, put_u32 m 0 (mark m + n)) else (0, m)),
     calloc = (\<lambda>k c m. if k * c \<le> bump_room m
        then (mark m, \<lambda>x. if x \<in> span (mark m) (k * c) then 0 else put_u32 m 0 (mark m + k * c) x) else (0, m)),
     free = (\<lambda>_ m. m) \<rparr>"

lemma mark_less: "mark m < 2 ^ 32"
  using u32_at_less [of m 0] by (simp add: mark_def)

lemma mark_moved:
  assumes "n \<le> bump_room m" and "\<And>x. x < 4 \<Longrightarrow> m' x = put_u32 m 0 (mark m + n) x"
  shows "mark m' = mark m + n"
proof -
  have "u32_at m' 0 = u32_at (put_u32 m 0 (mark m + n)) 0" by (rule u32_at_cong) (simp add: assms(2))
  also have "\<dots> = mark m + n" using assms(1) mark_less [of m] by (intro u32_at_put) (simp add: bump_room_def)
  finally show ?thesis by (simp add: mark_def)
qed

lemma bump_given:
  assumes "n \<le> bump_room m" and "\<And>x. x < 4 \<Longrightarrow> m' x = put_u32 m 0 (mark m + n) x" and "\<And>x. x \<in> bump_owned m \<Longrightarrow> m' x = m x"
  shows "given bump_owned bump_room n m (mark m, m')"
proof -
  have "4 \<le> mark m" by (simp add: mark_def)
  then show ?thesis using assms(1,3) mark_less [of m] mark_moved [OF assms(1,2)]
    by (auto simp: given_def bump_owned_def bump_room_def span_def agree_def)
qed

lemma bump_ok: "allocator_ok bump bump_owned bump_room"
proof -
  have own: "bump_owned m' = bump_owned m \<and> bump_room m' = bump_room m" if "agree (bump_owned m) m m'" for m m'
  proof -
    have "u32_at m' 0 = u32_at m 0" by (rule u32_at_agree [OF that]) (auto simp: span_def bump_owned_def)
    then show ?thesis by (simp add: bump_owned_def bump_room_def mark_def)
  qed
  have "given bump_owned bump_room n m (malloc bump n m)" if "n \<le> bump_room m" for n m
    using that bump_given [OF that, of "put_u32 m 0 (mark m + n)"] by (simp add: bump_def bump_owned_def put_u32_def)
  moreover have "given bump_owned bump_room (k * c) m (calloc bump k c m)" if "k * c \<le> bump_room m" for k c m
  proof -
    have "4 \<le> mark m" by (simp add: mark_def)
    then have "given bump_owned bump_room (k * c) m
        (mark m, \<lambda>x. if x \<in> span (mark m) (k * c) then 0 else put_u32 m 0 (mark m + k * c) x)"
      by (intro bump_given [OF that]) (auto simp: bump_owned_def put_u32_def span_def)
    then show ?thesis using that by (simp add: bump_def)
  qed
  ultimately show ?thesis using own by (simp add: allocator_ok_def bump_def)
qed

definition one_host :: start_host where
  "one_host = \<lparr> sh_check = (\<lambda>_ _. True), sh_mem_size = 2 ^ 32, sh_environ = \<lparr> args = [[112]], env = [([65], [66])] \<rparr> \<rparr>"

definition one_frame :: start_frame where
  "one_frame = \<lparr> f_environ_count = 0x10, f_environ_buf_size = 0x14, f_argc = 0x18, f_argv_buf_size = 0x1c, f_empty_environ = 0x20 \<rparr>"

definition marked :: lind where
  "marked = cage_one\<lparr> lmem := put_u32 (\<lambda>_. 0) 0 0x100 \<rparr>"

lemma one_host_ok: "host_ok one_host bump_owned"
  unfolding host_ok_def
proof (intro allI impI)
  fix m a n
  assume *: "0 < n \<and> span a n \<subseteq> bump_owned m"
  then have "a + n - 1 \<in> bump_owned m" by (auto simp: span_def)
  then have "a + n - 1 < 2 ^ 32" using mark_less [of m] unfolding bump_owned_def by (meson atLeastLessThan_iff less_trans)
  then show "a + n \<le> sh_mem_size one_host \<and> sh_check one_host a n" by (simp add: one_host_def)
qed

lemma marked_mark: "mark (lmem marked) = 0x100"
  by (simp add: marked_def mark_def u32_at_put)

lemma one_frame_ok: "frame_ok one_frame (bump_owned (lmem marked)) (lmem marked)"
proof -
  have "u32_at (lmem marked) 0x20 = u32_at (\<lambda>_. 0) 0x20" unfolding marked_def by (simp add: u32_at_put_out)
  also have "\<dots> = 0" by (simp add: u32_at_def bytes_at_def numeral_eq_Suc)
  finally show ?thesis
    by (auto simp: frame_ok_def one_frame_def bump_owned_def marked_mark span_def)
qed

theorem start_reaches_main_witness:
  "allocator_ok bump bump_owned bump_room \<and> host_ok one_host bump_owned \<and> frame_ok one_frame (bump_owned (lmem marked)) (lmem marked)
   \<and> start 0x10000000000 1 id id id bump one_host (\<lambda>argc argv envp m. Some (of_nat argc, m)) one_frame marked = Some 1"
proof -
  have quiet: "quiet bump_owned bump_room id" by (simp add: quiet_def agree_refl)
  have room: "bytes_needed (args (sh_environ one_host)) + bytes_needed (map env_entry (env (sh_environ one_host))) \<le> bump_room (lmem marked)"
    by (simp add: bytes_needed_def one_host_def env_entry_def bump_room_def marked_mark)
  have m: "lmem marked = id (id (lmem marked))" by simp
  have "length (args (sh_environ one_host)) = 1" by (simp add: one_host_def)
  then show ?thesis
    using start_reaches_main [of bump bump_owned bump_room one_host id "lmem marked" id id marked one_frame
        "args (sh_environ one_host)" "map env_entry (env (sh_environ one_host))"
        "0x10000000000" 1 "\<lambda>argc argv envp m. Some (of_nat argc, m)", OF bump_ok one_host_ok quiet m one_frame_ok refl refl room] bump_ok one_host_ok one_frame_ok
    by auto
qed

end
