(* ===== verification/Handler_Table.thy ===== *)
theory Handler_Table
  imports Lind_Prelude "HOL-Library.AList"
begin

text \<open>
  The routing tables of 3i, the call router of the runtime (\<^verbatim>\<open>src/threei/src\<close>): which grate handles which
  system call of which cage (\<^verbatim>\<open>handler_table\<close>, in its two interchangeable implementations
  \<^verbatim>\<open>hashmap_impl.rs\<close> and \<^verbatim>\<open>dashmap_impl.rs\<close>), and which grate handles which library function
  (\<^verbatim>\<open>lib_handler_table.rs\<close>).

  A hash map is the list of its entries, in the order in which an iteration meets them. Each
  operation holds the lock of its table throughout and is one step.
\<close>

section \<open>Hash maps\<close>

type_synonym ('k, 'v) hash_map = "('k \<times> 'v) list"

text \<open>\<^verbatim>\<open>entry (k).or_insert_with (HashMap::new)\<close>: the value that is or will be there.\<close>

definition entry :: "'k \<Rightarrow> ('k, 'a list) hash_map \<Rightarrow> 'a list" where
  "entry k m = (case map_of m k of None \<Rightarrow> [] | Some v \<Rightarrow> v)"

text \<open>\<^verbatim>\<open>entry (k).or_insert (v)\<close>.\<close>

definition or_insert :: "'k \<Rightarrow> 'v \<Rightarrow> ('k, 'v) hash_map \<Rightarrow> ('k, 'v) hash_map" where
  "or_insert k v m = (case map_of m k of None \<Rightarrow> AList.update k v m | Some _ \<Rightarrow> m)"

lemma update_new: "k \<notin> fst ` set m \<Longrightarrow> AList.update k v m = m @ [(k, v)]"
  by (induction m) auto

section \<open>The table of handlers\<close>

type_synonym target_cage_map = "(u64, u64) hash_map"
type_synonym callnum_map = "(u64, target_cage_map) hash_map"
type_synonym cage_handler_table = "(u64, callnum_map) hash_map"

definition THREEI_DEREGISTER :: u64 where "THREEI_DEREGISTER = 500"
definition ELINDAPIABORTED :: u64 where "ELINDAPIABORTED = 0xE0010001"
definition ELINDESRCH :: u64 where "ELINDESRCH = 0xE0010002"

definition check_cage_handler_exists :: "u64 \<Rightarrow> cage_handler_table \<Rightarrow> bool" where
  "check_cage_handler_exists cageid t \<longleftrightarrow> (case map_of t cageid of None \<Rightarrow> False | Some _ \<Rightarrow> True)"

definition rm_grate_from_handler :: "u64 \<Rightarrow> cage_handler_table \<Rightarrow> cage_handler_table" where
  "rm_grate_from_handler grateid t =
     map (\<lambda>(c, callmap). (c, map (\<lambda>(n, target_map). (n, filter (\<lambda>(dest_grateid, _). dest_grateid \<noteq> grateid) target_map)) callmap)) t"

definition rm_cage_from_handler :: "u64 \<Rightarrow> cage_handler_table \<Rightarrow> cage_handler_table" where
  "rm_cage_from_handler cageid t = AList.delete cageid t"

text \<open>Case 2 of \<^verbatim>\<open>register_handler_impl\<close>, the same in both implementations: the containers are created,
  the map of the call is cleared and gets the one entry.\<close>

definition register_entry :: "u64 \<Rightarrow> u64 \<Rightarrow> u64 \<Rightarrow> u64 \<Rightarrow> cage_handler_table \<Rightarrow> cage_handler_table" where
  "register_entry srccage targetcallnum handlefunccage fn_ptr t =
     (let call_map = entry srccage t; target_map = AList.update handlefunccage fn_ptr [] in
      AList.update srccage (AList.update targetcallnum target_map call_map) t)"

subsection \<open>hashmap\_impl.rs\<close>

definition get_handler_hash :: "cage_handler_table \<Rightarrow> u64 \<Rightarrow> u64 \<Rightarrow> (u64 \<times> u64) option panics" where
  "get_handler_hash t self_cageid syscall_num =
     (case map_of t self_cageid of
        None \<Rightarrow> Panic ''no handler table for self_cageid''
      | Some call_map \<Rightarrow>
          (case map_of call_map syscall_num of
             None \<Rightarrow> Panic ''no handler for syscall_num''
           | Some target_map \<Rightarrow>
               Returns (case target_map of [] \<Rightarrow> None | (grateid, addr) # _ \<Rightarrow> Some (grateid, addr))))"

definition register_handler_hash ::
  "u64 \<Rightarrow> u64 \<Rightarrow> u64 \<Rightarrow> u64 \<Rightarrow> cage_handler_table \<Rightarrow> u32 \<times> cage_handler_table" where
  "register_handler_hash srccage targetcallnum handlefunccage fn_ptr t =
     (if handlefunccage = THREEI_DEREGISTER then
        (0, case map_of t srccage of
              None \<Rightarrow> t
            | Some call_map \<Rightarrow>
                (let call_map' = AList.delete targetcallnum call_map in
                 if call_map' = [] then AList.delete srccage t else AList.update srccage call_map' t))
      else (0, register_entry srccage targetcallnum handlefunccage fn_ptr t))"

definition copy_handler_table_hash :: "u64 \<Rightarrow> u64 \<Rightarrow> cage_handler_table \<Rightarrow> u64 \<times> cage_handler_table" where
  "copy_handler_table_hash srccage targetcage t =
     (case map_of t srccage of
        None \<Rightarrow> (ELINDAPIABORTED, t)
      | Some src_entry \<Rightarrow>
          (0, AList.update targetcage
                (fold (\<lambda>(callnum, callnum_map) target_entry.
                   AList.update callnum (fold (\<lambda>(k, v). or_insert k v) callnum_map (entry callnum target_entry)) target_entry)
                 src_entry [])
                (AList.update targetcage [] t)))"

subsection \<open>dashmap\_impl.rs\<close>

definition get_handler_dash :: "cage_handler_table \<Rightarrow> u64 \<Rightarrow> u64 \<Rightarrow> (u64 \<times> u64) option panics" where
  "get_handler_dash t self_cageid syscall_num =
     (case map_of t self_cageid of
        None \<Rightarrow> Panic ''No handler table for self_cageid''
      | Some call_map \<Rightarrow>
          (case map_of call_map syscall_num of
             None \<Rightarrow> Panic ''No handlers for self_cageid''
           | Some target_map \<Rightarrow>
               (case target_map of
                  [] \<Rightarrow> Panic ''No handlers for self_cageid''
                | (gid, addr) # _ \<Rightarrow> Returns (Some (gid, addr)))))"

definition register_handler_dash ::
  "u64 \<Rightarrow> u64 \<Rightarrow> u64 \<Rightarrow> u64 \<Rightarrow> cage_handler_table \<Rightarrow> u32 \<times> cage_handler_table" where
  "register_handler_dash srccage targetcallnum handlefunccage fn_ptr t =
     (if handlefunccage = THREEI_DEREGISTER then
        (0, case map_of t srccage of
              None \<Rightarrow> t
            | Some call_map \<Rightarrow> AList.update srccage (AList.delete targetcallnum call_map) t)
      else (0, register_entry srccage targetcallnum handlefunccage fn_ptr t))"

definition copy_handler_table_dash :: "u64 \<Rightarrow> u64 \<Rightarrow> cage_handler_table \<Rightarrow> u64 \<times> cage_handler_table" where
  "copy_handler_table_dash srccage targetcage t =
     (case map_of t srccage of
        None \<Rightarrow> (ELINDAPIABORTED, t)
      | Some src_snapshot \<Rightarrow>
          (0, AList.update targetcage
                (fold (\<lambda>(callnum, src_target_map) dst_call_map.
                   AList.update callnum (fold (\<lambda>(k, v). AList.update k v) src_target_map (entry callnum dst_call_map)) dst_call_map)
                 src_snapshot [])
                (AList.update targetcage [] t)))"

section \<open>Routes\<close>

text \<open>What a table is for: the handler of a call of a cage.\<close>

type_synonym routing = "u64 \<times> u64 \<Rightarrow> (u64 \<times> u64) option"

definition routed :: "callnum_map \<Rightarrow> u64 \<Rightarrow> (u64 \<times> u64) option" where
  "routed cm n = (case entry n cm of [] \<Rightarrow> None | e # _ \<Rightarrow> Some e)"

definition route :: "cage_handler_table \<Rightarrow> routing" where
  "route t = (\<lambda>(c, n). routed (entry c t) n)"

text \<open>Keys are distinct, and a call has at most one handler, so that the order of the entries does not
  matter.\<close>

definition call_map_ok :: "callnum_map \<Rightarrow> bool" where
  "call_map_ok cm \<longleftrightarrow> distinct (map fst cm) \<and> (\<forall>tm \<in> snd ` set cm. length tm \<le> 1)"

definition handlers_ok :: "cage_handler_table \<Rightarrow> bool" where
  "handlers_ok t \<longleftrightarrow> distinct (map fst t) \<and> (\<forall>cm \<in> snd ` set t. call_map_ok cm)"

datatype table_op =
    Register u64 u64 u64 u64   \<comment> \<open>source cage, call, handler cage, function\<close>
  | Rm_Grate u64
  | Rm_Cage u64
  | Copy u64 u64               \<comment> \<open>source, target\<close>

inductive route_step :: "routing \<Rightarrow> table_op \<Rightarrow> routing \<Rightarrow> bool" where
  deregister: "route_step R (Register c n THREEI_DEREGISTER a) (R((c, n) := None))"
| register: "g \<noteq> THREEI_DEREGISTER \<Longrightarrow> route_step R (Register c n g a) (R((c, n) \<mapsto> (g, a)))"
| rm_grate: "route_step R (Rm_Grate g) (\<lambda>x. case R x of None \<Rightarrow> None | Some (d, a) \<Rightarrow> if d = g then None else Some (d, a))"
| rm_cage: "route_step R (Rm_Cage c) (\<lambda>(c', n). if c' = c then None else R (c', n))"
| copied: "route_step R (Copy s d) (\<lambda>(c, n). R (if c = d then s else c, n))"
| nothing_to_copy: "(\<And>n. R (s, n) = None) \<Longrightarrow> route_step R (Copy s d) R"

inductive route_run :: "routing \<Rightarrow> table_op list \<Rightarrow> routing \<Rightarrow> bool" where
  empty: "route_run R [] R"
| more: "route_step R op R' \<Longrightarrow> route_run R' ops R'' \<Longrightarrow> route_run R (op # ops) R''"

inductive_cases route_stepE: "route_step R op R'"

section \<open>The contract of a handler table\<close>

locale handler_store =
  fixes good :: "'t \<Rightarrow> bool"
    and routes :: "'t \<Rightarrow> routing"
    and get :: "'t \<Rightarrow> u64 \<Rightarrow> u64 \<Rightarrow> (u64 \<times> u64) option panics"
    and reg :: "u64 \<Rightarrow> u64 \<Rightarrow> u64 \<Rightarrow> u64 \<Rightarrow> 't \<Rightarrow> u32 \<times> 't"
    and rm_grate :: "u64 \<Rightarrow> 't \<Rightarrow> 't"
    and rm_cage :: "u64 \<Rightarrow> 't \<Rightarrow> 't"
    and copy :: "u64 \<Rightarrow> u64 \<Rightarrow> 't \<Rightarrow> u64 \<times> 't"
  assumes get_route: "good t \<Longrightarrow> routes t (c, n) = Some e \<longleftrightarrow> get t c n = Returns (Some e)"
    and reg_good: "good t \<Longrightarrow> good (snd (reg c n g a t))"
    and reg_routes: "good t \<Longrightarrow> routes (snd (reg c n g a t)) = (routes t)((c, n) := (if g = THREEI_DEREGISTER then None else Some (g, a)))"
    and rm_grate_good: "good t \<Longrightarrow> good (rm_grate g t)"
    and rm_grate_routes: "good t \<Longrightarrow> routes (rm_grate g t) x = (case routes t x of None \<Rightarrow> None | Some (d, a) \<Rightarrow> if d = g then None else Some (d, a))"
    and rm_cage_good: "good t \<Longrightarrow> good (rm_cage c t)"
    and rm_cage_routes: "good t \<Longrightarrow> routes (rm_cage c t) (c', n) = (if c' = c then None else routes t (c', n))"
    and copy_good: "good t \<Longrightarrow> good (snd (copy s d t))"
    and copy_routes: "good t \<Longrightarrow> fst (copy s d t) = 0 \<Longrightarrow> routes (snd (copy s d t)) (c, n) = routes t (if c = d then s else c, n)"
    and copy_refused: "good t \<Longrightarrow> fst (copy s d t) \<noteq> 0 \<Longrightarrow> snd (copy s d t) = t \<and> routes t (s, n) = None"
begin

fun app :: "table_op \<Rightarrow> 't \<Rightarrow> 't" where
  "app (Register c n g a) t = snd (reg c n g a t)"
| "app (Rm_Grate g) t = rm_grate g t"
| "app (Rm_Cage c) t = rm_cage c t"
| "app (Copy s d) t = snd (copy s d t)"

lemma app_good: "good t \<Longrightarrow> good (app op t)"
  by (cases op) (simp_all add: reg_good rm_grate_good rm_cage_good copy_good)

lemma app_refines:
  assumes "good t"
  shows "route_step (routes t) op (routes (app op t))"
proof (cases op)
  case (Register c n g a)
  then show ?thesis
    using route_step.deregister [of "routes t" c n a] route_step.register [of g "routes t" c n a]
    by (cases "g = THREEI_DEREGISTER") (simp_all add: reg_routes [OF assms])
next
  case (Rm_Grate g)
  have "routes (rm_grate g t) = (\<lambda>x. case routes t x of None \<Rightarrow> None | Some (d, a) \<Rightarrow> if d = g then None else Some (d, a))"
    by (rule ext) (rule rm_grate_routes [OF assms])
  then show ?thesis using route_step.rm_grate by (simp add: Rm_Grate)
next
  case (Rm_Cage c)
  have "routes (rm_cage c t) = (\<lambda>(c', n). if c' = c then None else routes t (c', n))"
    by (auto simp: rm_cage_routes [OF assms])
  then show ?thesis using route_step.rm_cage by (simp add: Rm_Cage)
next
  case (Copy s d)
  show ?thesis
  proof (cases "fst (copy s d t) = 0")
    case True
    have "routes (snd (copy s d t)) = (\<lambda>(c, n). routes t (if c = d then s else c, n))"
      by (auto simp: copy_routes [OF assms True])
    then show ?thesis using route_step.copied by (simp add: Copy)
  next
    case False
    show ?thesis using copy_refused [OF assms False] route_step.nothing_to_copy by (simp add: Copy)
  qed
qed

lemma run_refines: "good t \<Longrightarrow> good (fold app ops t) \<and> route_run (routes t) ops (routes (fold app ops t))"
proof (induction ops arbitrary: t)
  case Nil
  then show ?case by (simp add: route_run.empty)
next
  case (Cons op ops)
  then show ?case using route_run.more [OF app_refines] app_good by simp
qed

text \<open>A copy from a cage with handlers succeeds.\<close>

lemma copy_handled: "good t \<Longrightarrow> routes t (s, n) \<noteq> None \<Longrightarrow> fst (copy s d t) = 0"
  by (metis copy_refused)

end

section \<open>Both implementations keep the contract\<close>

lemma set_update_subset: "set (AList.update k v m) \<subseteq> insert (k, v) (set m)"
  by (induction m) auto

lemma set_delete_subset: "set (AList.delete k m) \<subseteq> set m"
  by (auto simp: AList.delete_eq)

lemma table_ok_update: "handlers_ok t \<Longrightarrow> call_map_ok cm \<Longrightarrow> handlers_ok (AList.update c cm t)"
  using set_update_subset [of c cm t] by (force simp: handlers_ok_def distinct_update)

lemma table_ok_delete: "handlers_ok t \<Longrightarrow> handlers_ok (AList.delete c t)"
  using set_delete_subset [of c t] by (force simp: handlers_ok_def distinct_delete)

lemma call_map_ok_update: "call_map_ok cm \<Longrightarrow> length tm \<le> 1 \<Longrightarrow> call_map_ok (AList.update n tm cm)"
  using set_update_subset [of n tm cm] by (force simp: call_map_ok_def distinct_update)

lemma call_map_ok_delete: "call_map_ok cm \<Longrightarrow> call_map_ok (AList.delete n cm)"
  using set_delete_subset [of n cm] by (force simp: call_map_ok_def distinct_delete)

lemma table_ok_lookup: "handlers_ok t \<Longrightarrow> map_of t c = Some cm \<Longrightarrow> call_map_ok cm"
  using map_of_SomeD by (force simp: handlers_ok_def)

lemma table_ok_entry: "handlers_ok t \<Longrightarrow> call_map_ok (entry c t)"
  by (cases "map_of t c") (simp_all add: entry_def table_ok_lookup, simp add: call_map_ok_def)

lemma map_of_map_snd: "map_of (map (\<lambda>(k, v). (k, f v)) m) k = map_option f (map_of m k)"
  by (induction m) auto

lemma entry_simps [simp]:
  "entry k [] = []" "map_of m k = None \<Longrightarrow> entry k m = []" "map_of m k = Some v \<Longrightarrow> entry k m = v"
  "entry k' (AList.update k v m) = (if k' = k then v else entry k' m)"
  "entry k' (AList.delete k m) = (if k' = k then [] else entry k' m)"
  by (simp_all add: entry_def update_conv' delete_conv')

lemma routed_simps [simp]:
  "routed [] n = None"
  "routed (AList.update n tm cm) n' = (if n' = n then (case tm of [] \<Rightarrow> None | e # _ \<Rightarrow> Some e) else routed cm n')"
  "routed (AList.delete n cm) n' = (if n' = n then None else routed cm n')"
  by (simp_all add: routed_def)

text \<open>Copying the entries one by one gives the same map.\<close>

lemma copy_entries:
  assumes "\<And>tm. length tm \<le> 1 \<Longrightarrow> f tm [] = tm" and "call_map_ok cm" and "fst ` set cm \<inter> fst ` set out = {}"
  shows "fold (\<lambda>(n, tm) out. AList.update n (f tm (entry n out)) out) cm out = out @ cm"
  using assms(2,3)
proof (induction cm arbitrary: out)
  case (Cons x cm)
  obtain n tm where x: "x = (n, tm)" by fastforce
  have new: "n \<notin> fst ` set out" "length tm \<le> 1" using Cons.prems by (auto simp: x call_map_ok_def)
  then have "map_of out n = None" by (simp add: map_of_eq_None_iff)
  then have "AList.update n (f tm (entry n out)) out = out @ [x]" using new assms(1) by (simp add: update_new entry_def x)
  moreover have "fold (\<lambda>(n, tm) out. AList.update n (f tm (entry n out)) out) cm (out @ [x]) = (out @ [x]) @ cm"
    using Cons.prems by (intro Cons.IH) (auto simp: x call_map_ok_def)
  ultimately show ?case by (simp add: x)
qed simp

lemma short_list: "length xs \<le> 1 \<Longrightarrow> xs = [] \<or> (\<exists>x. xs = [x])"
  by (cases xs) auto

lemma copy_table:
  assumes "handlers_ok t"
  shows "copy_handler_table_hash s d t = (case map_of t s of None \<Rightarrow> (ELINDAPIABORTED, t) | Some cm \<Rightarrow> (0, AList.update d cm t))"
    and "copy_handler_table_dash s d t = (case map_of t s of None \<Rightarrow> (ELINDAPIABORTED, t) | Some cm \<Rightarrow> (0, AList.update d cm t))"
proof -
  have one: "length tm \<le> 1 \<Longrightarrow> fold (\<lambda>(k, v). or_insert k v) tm [] = tm"
    "length tm \<le> 1 \<Longrightarrow> fold (\<lambda>(k, v). AList.update k v) tm [] = tm" for tm :: target_cage_map
    using short_list [of tm] by (auto simp: or_insert_def)
  have over: "AList.update d cm (AList.update d [] t) = AList.update d cm t" for cm
    by (induction t) auto
  show "copy_handler_table_hash s d t = (case map_of t s of None \<Rightarrow> (ELINDAPIABORTED, t) | Some cm \<Rightarrow> (0, AList.update d cm t))"
    using table_ok_lookup [OF assms] copy_entries [where f = "fold (\<lambda>(k, v). or_insert k v)" and out = "[]", OF one(1)]
    by (simp add: copy_handler_table_hash_def over split: option.split)
  show "copy_handler_table_dash s d t = (case map_of t s of None \<Rightarrow> (ELINDAPIABORTED, t) | Some cm \<Rightarrow> (0, AList.update d cm t))"
    using table_ok_lookup [OF assms] copy_entries [where f = "fold (\<lambda>(k, v). AList.update k v)" and out = "[]", OF one(2)]
    by (simp add: copy_handler_table_dash_def over split: option.split)
qed

lemma register_entry_ok:
  assumes "handlers_ok t"
  shows "handlers_ok (register_entry c n g a t)"
    and "route (register_entry c n g a t) = (route t)((c, n) \<mapsto> (g, a))"
  using assms
  by (auto simp: register_entry_def Let_def table_ok_update call_map_ok_update table_ok_entry route_def fun_eq_iff)

lemma call_map_ok_at: "call_map_ok cm \<Longrightarrow> length (entry n cm) \<le> 1"
  using map_of_SomeD [of cm n] by (cases "map_of cm n") (force simp: call_map_ok_def)+

lemma entry_map: "f [] = [] \<Longrightarrow> entry k (map (\<lambda>(k, v). (k, f v)) m) = f (entry k m)"
  by (simp add: entry_def map_of_map_snd split: option.split)

lemma keys_map: "map fst (map (\<lambda>(k, v). (k, f v)) m) = map fst m"
  by (induction m) auto

lemma rm_grate_table:
  assumes "handlers_ok t"
  shows "handlers_ok (rm_grate_from_handler g t)"
    and "route (rm_grate_from_handler g t) x = (case route t x of None \<Rightarrow> None | Some (d, a) \<Rightarrow> if d = g then None else Some (d, a))"
proof -
  define keep :: "target_cage_map \<Rightarrow> target_cage_map" where "keep = filter (\<lambda>(d, _). d \<noteq> g)"
  define clean :: "callnum_map \<Rightarrow> callnum_map" where "clean = map (\<lambda>(n, tm). (n, keep tm))"
  have rm: "rm_grate_from_handler g t = map (\<lambda>(c, cm). (c, clean cm)) t"
    by (simp add: rm_grate_from_handler_def clean_def keep_def)
  have nil: "keep [] = []" "clean [] = []" by (simp_all add: keep_def clean_def)
  have "length (keep tm) \<le> length tm" for tm by (simp add: keep_def)
  then have short: "length tm \<le> 1 \<Longrightarrow> length (keep tm) \<le> 1" for tm using order_trans by blast
  have "call_map_ok (clean cm)" if "call_map_ok cm" for cm
    unfolding call_map_ok_def clean_def keys_map using that short by (auto simp: call_map_ok_def)
  then show "handlers_ok (rm_grate_from_handler g t)"
    using assms unfolding handlers_ok_def rm keys_map by auto
  obtain c n where x: "x = (c, n)" by fastforce
  have "length (entry n (entry c t)) \<le> 1" using call_map_ok_at table_ok_entry assms by blast
  then consider "entry n (entry c t) = []" | d a where "entry n (entry c t) = [(d, a)]" using short_list by force
  moreover have "route (rm_grate_from_handler g t) x = (case keep (entry n (entry c t)) of [] \<Rightarrow> None | e # _ \<Rightarrow> Some e)"
    unfolding x rm route_def prod.case routed_def entry_map [of clean, OF nil(2)]
    unfolding clean_def entry_map [of keep, OF nil(1)] ..
  ultimately show "route (rm_grate_from_handler g t) x = (case route t x of None \<Rightarrow> None | Some (d, a) \<Rightarrow> if d = g then None else Some (d, a))"
    by cases (simp_all add: x route_def routed_def keep_def)
qed

lemma get_handler_routes:
  "get_handler_hash t c n = Returns (Some e) \<longleftrightarrow> route t (c, n) = Some e"
  "get_handler_dash t c n = Returns (Some e) \<longleftrightarrow> route t (c, n) = Some e"
proof -
  show "get_handler_hash t c n = Returns (Some e) \<longleftrightarrow> route t (c, n) = Some e"
    by (cases "map_of t c"; cases "map_of (entry c t) n")
      (auto simp: get_handler_hash_def route_def routed_def split: list.split)
  show "get_handler_dash t c n = Returns (Some e) \<longleftrightarrow> route t (c, n) = Some e"
    by (cases "map_of t c"; cases "map_of (entry c t) n")
      (auto simp: get_handler_dash_def route_def routed_def split: list.split)
qed

lemma deregister_hash:
  "snd (register_handler_hash c n THREEI_DEREGISTER a t) =
     (if AList.delete n (entry c t) = [] then AList.delete c t else AList.update c (AList.delete n (entry c t)) t)"
proof (cases "map_of t c")
  case None
  then have "AList.delete c t = t" by (simp add: delete_idem map_of_eq_None_iff)
  with None show ?thesis by (simp add: register_handler_hash_def)
qed (simp add: register_handler_hash_def Let_def)

lemma route_delete: "route (AList.delete c t) (c', n) = (if c' = c then None else route t (c', n))"
  by (simp add: route_def)

interpretation hash: handler_store handlers_ok route get_handler_hash register_handler_hash rm_grate_from_handler
  rm_cage_from_handler copy_handler_table_hash
proof unfold_locales
  fix t c n g a assume ok: "handlers_ok t"
  note entry_ok = call_map_ok_delete [OF table_ok_entry [OF ok]]
  show "handlers_ok (snd (register_handler_hash c n g a t))"
    using ok entry_ok by (cases "g = THREEI_DEREGISTER")
      (simp_all add: deregister_hash table_ok_delete table_ok_update, simp add: register_handler_hash_def register_entry_ok)
  have "routed (entry c t) k = None" if "AList.delete n (entry c t) = []" "k \<noteq> n" for k
    using that routed_simps(3) [of n "entry c t" k] by simp
  then have "route (snd (register_handler_hash c n THREEI_DEREGISTER a t)) = (route t)((c, n) := None)"
    by (auto simp: deregister_hash route_def fun_eq_iff)
  then show "route (snd (register_handler_hash c n g a t)) = (route t)((c, n) := (if g = THREEI_DEREGISTER then None else Some (g, a)))"
    by (cases "g = THREEI_DEREGISTER") (simp_all, simp add: register_handler_hash_def register_entry_ok [OF ok])
next
  fix t s d c n assume ok: "handlers_ok t"
  show "handlers_ok (snd (copy_handler_table_hash s d t))"
    using ok table_ok_lookup [OF ok] by (auto simp: copy_table(1) [OF ok] table_ok_update split: option.split)
  show "fst (copy_handler_table_hash s d t) = 0 \<Longrightarrow>
      route (snd (copy_handler_table_hash s d t)) (c, n) = route t (if c = d then s else c, n)"
    by (cases "map_of t s") (simp_all add: copy_table(1) [OF ok] ELINDAPIABORTED_def route_def)
  show "fst (copy_handler_table_hash s d t) \<noteq> 0 \<Longrightarrow> snd (copy_handler_table_hash s d t) = t \<and> route t (s, n) = None"
    by (cases "map_of t s") (simp_all add: copy_table(1) [OF ok] route_def)
qed (simp_all add: get_handler_routes rm_grate_table rm_cage_from_handler_def table_ok_delete route_delete)

interpretation dashed: handler_store handlers_ok route get_handler_dash register_handler_dash rm_grate_from_handler
  rm_cage_from_handler copy_handler_table_dash
proof unfold_locales
  fix t c n g a assume ok: "handlers_ok t"
  note entry_ok = call_map_ok_delete [OF table_ok_entry [OF ok]]
  have dereg: "snd (register_handler_dash c n THREEI_DEREGISTER a t) = (if map_of t c = None then t else AList.update c (AList.delete n (entry c t)) t)"
    by (cases "map_of t c") (simp_all add: register_handler_dash_def)
  have other: "g \<noteq> THREEI_DEREGISTER \<Longrightarrow> snd (register_handler_dash c n g a t) = register_entry c n g a t"
    by (simp add: register_handler_dash_def)
  show "handlers_ok (snd (register_handler_dash c n g a t))"
    using ok entry_ok other by (cases "g = THREEI_DEREGISTER") (simp_all add: dereg table_ok_update register_entry_ok)
  show "route (snd (register_handler_dash c n g a t)) = (route t)((c, n) := (if g = THREEI_DEREGISTER then None else Some (g, a)))"
    using other by (cases "g = THREEI_DEREGISTER") (auto simp: dereg register_entry_ok(2) [OF ok], auto simp: route_def)
next
  fix t s d c n assume ok: "handlers_ok t"
  show "handlers_ok (snd (copy_handler_table_dash s d t))"
    using ok table_ok_lookup [OF ok] by (auto simp: copy_table(2) [OF ok] table_ok_update split: option.split)
  show "fst (copy_handler_table_dash s d t) = 0 \<Longrightarrow>
      route (snd (copy_handler_table_dash s d t)) (c, n) = route t (if c = d then s else c, n)"
    by (cases "map_of t s") (simp_all add: copy_table(2) [OF ok] ELINDAPIABORTED_def route_def)
  show "fst (copy_handler_table_dash s d t) \<noteq> 0 \<Longrightarrow> snd (copy_handler_table_dash s d t) = t \<and> route t (s, n) = None"
    by (cases "map_of t s") (simp_all add: copy_table(2) [OF ok] route_def)
qed (simp_all add: get_handler_routes rm_grate_table rm_cage_from_handler_def table_ok_delete route_delete)

section \<open>Sequences of operations\<close>

fun step_hash :: "table_op \<Rightarrow> cage_handler_table \<Rightarrow> cage_handler_table" where
  "step_hash (Register c n g a) t = snd (register_handler_hash c n g a t)"
| "step_hash (Rm_Grate g) t = rm_grate_from_handler g t"
| "step_hash (Rm_Cage c) t = rm_cage_from_handler c t"
| "step_hash (Copy s d) t = snd (copy_handler_table_hash s d t)"

fun step_dash :: "table_op \<Rightarrow> cage_handler_table \<Rightarrow> cage_handler_table" where
  "step_dash (Register c n g a) t = snd (register_handler_dash c n g a t)"
| "step_dash (Rm_Grate g) t = rm_grate_from_handler g t"
| "step_dash (Rm_Cage c) t = rm_cage_from_handler c t"
| "step_dash (Copy s d) t = snd (copy_handler_table_dash s d t)"

lemma step_hash_app: "step_hash = hash.app"
proof (intro ext)
  show "step_hash op t = hash.app op t" for op t by (cases op) simp_all
qed

lemma step_dash_app: "step_dash = dashed.app"
proof (intro ext)
  show "step_dash op t = dashed.app op t" for op t by (cases op) simp_all
qed

lemma empty_handlers [simp]: "handlers_ok []" "route [] = (\<lambda>_. None)"
  by (auto simp: handlers_ok_def route_def)


text \<open>The two implementations side by side: the same routes, and no cage known to the first only.\<close>

definition alike :: "cage_handler_table \<Rightarrow> cage_handler_table \<Rightarrow> bool" where
  "alike t u \<longleftrightarrow> handlers_ok t \<and> handlers_ok u \<and> route t = route u \<and> dom (map_of t) \<subseteq> dom (map_of u)"

text \<open>Every copy finds its source in the first table.\<close>

fun copies_served :: "table_op list \<Rightarrow> cage_handler_table \<Rightarrow> bool" where
  "copies_served [] t = True"
| "copies_served (op # ops) t \<longleftrightarrow>
     (case op of Copy s d \<Rightarrow> check_cage_handler_exists s t | _ \<Rightarrow> True) \<and> copies_served ops (step_hash op t)"

lemma dom_step_hash:
  "dom (map_of (step_hash (Register c n g a) t)) \<subseteq> (if g = THREEI_DEREGISTER then dom (map_of t) else insert c (dom (map_of t)))"
  by (auto simp: register_handler_hash_def register_entry_def Let_def update_conv' delete_conv' split: option.splits if_splits)

lemma dom_step_dash:
  "(if g = THREEI_DEREGISTER then dom (map_of u) else insert c (dom (map_of u))) \<subseteq> dom (map_of (step_dash (Register c n g a) u))"
  by (auto simp: register_handler_dash_def register_entry_def Let_def update_conv' split: option.splits if_splits)

lemma dom_rm_grate: "dom (map_of (rm_grate_from_handler g t)) = dom (map_of t)"
  by (auto simp: rm_grate_from_handler_def map_of_map_snd dom_def)

lemma alike_step:
  assumes "alike t u" and "case op of Copy s d \<Rightarrow> check_cage_handler_exists s t | _ \<Rightarrow> True"
  shows "alike (step_hash op t) (step_dash op u)"
proof -
  have ok: "handlers_ok t" "handlers_ok u" "route t = route u" and known: "dom (map_of t) \<subseteq> dom (map_of u)"
    using assms(1) by (simp_all add: alike_def)
  have good: "handlers_ok (step_hash op t)" "handlers_ok (step_dash op u)"
    using hash.app_good [OF ok(1)] dashed.app_good [OF ok(2)] by (simp_all add: step_hash_app step_dash_app)
  have "route (step_hash op t) = route (step_dash op u) \<and> dom (map_of (step_hash op t)) \<subseteq> dom (map_of (step_dash op u))"
  proof (cases op)
    case (Register c n g a)
    have "dom (map_of (step_hash op t)) \<subseteq> dom (map_of (step_dash op u))"
      unfolding Register using known by (intro order_trans [OF dom_step_hash order_trans [OF _ dom_step_dash]]) auto
    then show ?thesis by (simp add: Register hash.reg_routes [OF ok(1)] dashed.reg_routes [OF ok(2)] ok(3))
  next
    case (Rm_Grate g)
    have "route (rm_grate_from_handler g t) = route (rm_grate_from_handler g u)"
      by (rule ext) (simp add: rm_grate_table ok)
    then show ?thesis using known by (simp add: Rm_Grate dom_rm_grate)
  next
    case (Rm_Cage c)
    have "route (rm_cage_from_handler c t) (c', n) = route (rm_cage_from_handler c u) (c', n)" for c' n
      by (simp add: hash.rm_cage_routes [OF ok(1)] hash.rm_cage_routes [OF ok(2)] ok(3))
    then have "route (rm_cage_from_handler c t) = route (rm_cage_from_handler c u)" by (intro ext) (metis surj_pair)
    then show ?thesis using known by (auto simp: Rm_Cage rm_cage_from_handler_def delete_conv')
  next
    case (Copy s d)
    then obtain cm where cm: "map_of t s = Some cm" using assms(2) by (auto simp: check_cage_handler_exists_def split: option.splits)
    with known obtain cm' where cm': "map_of u s = Some cm'" by blast
    have "routed cm n = routed cm' n" for n
      using fun_cong [OF ok(3), of "(s, n)"] cm cm' by (simp add: route_def)
    then show ?thesis using ok(3) known
      by (auto simp: Copy copy_table [OF ok(1)] copy_table [OF ok(2)] cm cm' update_conv' route_def fun_eq_iff)
  qed
  with good show ?thesis by (simp add: alike_def)
qed

text \<open>The two implementations are interchangeable: after any sequence of operations in which every
  copy finds the table of its source, they route every call alike.\<close>

theorem handler_tables_agree:
  assumes "copies_served ops []"
  shows "route (fold step_hash ops []) = route (fold step_dash ops [])"
proof -
  have "alike t u \<Longrightarrow> copies_served ops t \<Longrightarrow> alike (fold step_hash ops t) (fold step_dash ops u)" for t u
  proof (induction ops arbitrary: t u)
    case (Cons op ops)
    then show ?case using alike_step [of t u op] by simp
  qed simp
  from this [of "[]" "[]"] assms show ?thesis by (simp add: alike_def)
qed

text \<open>Without that they differ: the first implementation forgets a cage whose last handler is removed
  and refuses to copy from it, the second copies nothing over the handlers of the target.\<close>

lemma handler_tables_differ:
  "let ops = [Register 1 2 3 4, Register 1 2 THREEI_DEREGISTER 0, Register 5 6 7 8, Copy 1 5] in
     get_handler_hash (fold step_hash ops []) 5 6 = Returns (Some (7, 8))
   \<and> get_handler_dash (fold step_dash ops []) 5 6 = Panic ''No handlers for self_cageid''"
  by code_simp

theorem handler_tables_agree_witness:
  "route (fold step_hash [Register 1 2 3 4, Copy 1 5, Rm_Cage 1, Rm_Grate 9] [])
   = route (fold step_dash [Register 1 2 3 4, Copy 1 5, Rm_Cage 1, Rm_Grate 9] [])
   \<and> route (fold step_hash [Register 1 2 3 4, Copy 1 5, Rm_Cage 1, Rm_Grate 9] []) (5, 2) = Some (3, 4)"
proof (intro conjI handler_tables_agree)
  show "copies_served [Register 1 2 3 4, Copy 1 5, Rm_Cage 1, Rm_Grate 9] []" by code_simp
  show "route (fold step_hash [Register 1 2 3 4, Copy 1 5, Rm_Cage 1, Rm_Grate 9] []) (5, 2) = Some (3, 4)" by code_simp
qed

section \<open>The table of library handlers\<close>

text \<open>For each cage, the handler of a function of a library: the cage that handles it and the function
  there.\<close>

type_synonym lib_table = "(u64, (string \<times> string, u64 \<times> u64) hash_map) hash_map"

definition register_lib_handler_entry :: "u64 \<Rightarrow> string \<Rightarrow> string \<Rightarrow> u64 \<Rightarrow> u64 \<Rightarrow> lib_table \<Rightarrow> lib_table" where
  "register_lib_handler_entry cage_id lib_name symbol_name handler_cage_id fn_ptr table =
     AList.update cage_id (AList.update (lib_name, symbol_name) (handler_cage_id, fn_ptr) (entry cage_id table)) table"

definition get_lib_handler :: "u64 \<Rightarrow> string \<Rightarrow> string \<Rightarrow> lib_table \<Rightarrow> (u64 \<times> u64) option" where
  "get_lib_handler cage_id lib_name symbol_name table =
     (case map_of table cage_id of None \<Rightarrow> None | Some m \<Rightarrow> map_of m (lib_name, symbol_name))"

definition rm_cage_from_lib_handler_table :: "u64 \<Rightarrow> lib_table \<Rightarrow> lib_table" where
  "rm_cage_from_lib_handler_table cage_id table = AList.delete cage_id table"

definition copy_lib_handler_table_to_cage :: "u64 \<Rightarrow> u64 \<Rightarrow> lib_table \<Rightarrow> lib_table" where
  "copy_lib_handler_table_to_cage src_cage_id dst_cage_id table =
     (case map_of table src_cage_id of None \<Rightarrow> table | Some src_map \<Rightarrow> AList.update dst_cage_id src_map table)"

lemma get_lib_handler_entry: "get_lib_handler c l s table = map_of (entry c table) (l, s)"
  by (simp add: get_lib_handler_def entry_def split: option.split)

lemma lib_handler_laws [simp]:
  "get_lib_handler c' l' s' (register_lib_handler_entry c l s h f table) =
     (if (c', l', s') = (c, l, s) then Some (h, f) else get_lib_handler c' l' s' table)"
  "get_lib_handler c' l' s' (rm_cage_from_lib_handler_table c table) = (if c' = c then None else get_lib_handler c' l' s' table)"
  "map_of table c \<noteq> None \<Longrightarrow> get_lib_handler c' l' s' (copy_lib_handler_table_to_cage c d table)
     = get_lib_handler (if c' = d then c else c') l' s' table"
  by (auto simp: get_lib_handler_entry register_lib_handler_entry_def rm_cage_from_lib_handler_table_def
      copy_lib_handler_table_to_cage_def update_conv')

end
