(* ===== verification/Threei.thy ===== *)
theory Threei
  imports Handler_Table
begin

text \<open>
  3i, the router of calls between cages and grates (\<^verbatim>\<open>src/threei/src/threei.rs\<close>): registration of
  handlers, dispatch of system calls and of library calls, and the exit of a cage. The global tables
  are one record that every function takes and returns. The functions a call ends in, a
  \<^verbatim>\<open>RawCallFunc\<close>, a 3i function or the trampoline of a runtime, are called by address; what they do
  is a parameter, and they may change every table. A panic gives up the tables.
\<close>

section \<open>Tables\<close>

record cage_info =
  is_dead :: bool
  grate_inflight :: u64

record trampoline_entry =
  trampoline :: u64
  cleanup_funcptr :: u64

record threei =
  handler_table :: cage_handler_table
  lib_handler_table :: lib_table
  exiting_table :: "u64 set"
  cage_map :: "u64 \<rightharpoonup> cage_info"
  grate_runtime_table :: "u64 option list"
  trampoline_table :: "u64 \<rightharpoonup> trampoline_entry"

text \<open>The six arguments of a call, each with the cage it comes from.\<close>

type_synonym six_args = "(u64 \<times> u64) list"

record callees =
  raw_call :: "u64 \<Rightarrow> u64 \<Rightarrow> six_args \<Rightarrow> threei \<Rightarrow> u32 \<times> threei"           \<comment> \<open>function, target cage\<close>
  direct_call :: "u64 \<Rightarrow> u64 \<Rightarrow> u64 \<Rightarrow> six_args \<Rightarrow> threei \<Rightarrow> u64 \<times> threei"   \<comment> \<open>function, calling cage, target cage\<close>
  trampoline_call :: "u64 \<Rightarrow> u64 \<Rightarrow> u64 \<Rightarrow> six_args \<Rightarrow> threei \<Rightarrow> u64 \<times> threei" \<comment> \<open>trampoline, function, grate\<close>

definition RAWPOSIX_CAGEID :: u64 where "RAWPOSIX_CAGEID = 777777"
definition WASMTIME_CAGEID :: u64 where "WASMTIME_CAGEID = 888888"
definition THREEI_CAGEID :: u64 where "THREEI_CAGEID = 999999"
definition EXIT_SYSCALL :: u64 where "EXIT_SYSCALL = 60"
definition EXIT_GROUP_SYSCALL :: u64 where "EXIT_GROUP_SYSCALL = 231"

text \<open>The two widths of \<^verbatim>\<open>- (Errno::ESRCH)\<close>.\<close>

definition ESRCH :: int where "ESRCH = 3"

definition get_cage :: "threei \<Rightarrow> u64 \<Rightarrow> cage_info option" where
  "get_cage st cageid = (if MAX_CAGEID \<le> cageid then None else cage_map st cageid)"

definition is_cage_dead :: "threei \<Rightarrow> u64 \<Rightarrow> bool" where
  "is_cage_dead st cageid = (case get_cage st cageid of Some c \<Rightarrow> is_dead c | None \<Rightarrow> False)"

section \<open>Runtimes\<close>

definition register_trampoline :: "u64 \<Rightarrow> u64 \<Rightarrow> u64 \<Rightarrow> threei \<Rightarrow> threei" where
  "register_trampoline runtime f cleanup st =
     st\<lparr> trampoline_table := (trampoline_table st)(runtime \<mapsto> \<lparr> trampoline = f, cleanup_funcptr = cleanup \<rparr>) \<rparr>"

definition get_runtime_trampoline :: "threei \<Rightarrow> u64 \<Rightarrow> u64 option" where
  "get_runtime_trampoline st runtime = map_option trampoline (trampoline_table st runtime)"

definition get_runtime_cleanup_funcptr :: "threei \<Rightarrow> u64 \<Rightarrow> u64 option" where
  "get_runtime_cleanup_funcptr st runtime = map_option cleanup_funcptr (trampoline_table st runtime)"

definition set_cage_runtime :: "u64 \<Rightarrow> u64 \<Rightarrow> threei \<Rightarrow> threei panics" where
  "set_cage_runtime cageid runtime st =
     (let idx = unat cageid; table = grate_runtime_table st in
      if length table \<le> idx then Panic ''index out of bounds''
      else (case table ! idx of
              None \<Rightarrow> Returns (st\<lparr> grate_runtime_table := table[idx := Some runtime] \<rparr>)
            | Some existing \<Rightarrow> if existing = runtime then Returns st else Panic ''set_cage_runtime mismatch''))"

definition get_cage_runtime :: "threei \<Rightarrow> u64 \<Rightarrow> u64 option" where
  "get_cage_runtime st cageid =
     (let idx = unat cageid; table = grate_runtime_table st in
      if table = [] \<or> length table \<le> idx then None else table ! idx)"

definition remove_cage_runtime :: "u64 \<Rightarrow> threei \<Rightarrow> u64 option \<times> threei" where
  "remove_cage_runtime cageid st =
     (let idx = unat cageid; table = grate_runtime_table st in
      if table = [] \<or> length table \<le> idx then (None, st)
      else (table ! idx, st\<lparr> grate_runtime_table := table[idx := None] \<rparr>))"

section \<open>Calls into a grate\<close>

definition call_grate_func :: "callees \<Rightarrow> u64 \<Rightarrow> u64 \<Rightarrow> six_args \<Rightarrow> threei \<Rightarrow> (u64 \<times> threei) panics" where
  "call_grate_func fs grateid fn_ptr args st =
     (case get_cage_runtime st grateid of
        None \<Rightarrow> Panic ''grate runtime not found''
      | Some runtimeid \<Rightarrow>
          (case get_runtime_trampoline st runtimeid of
             None \<Rightarrow> Panic ''grate trampoline not found''
           | Some f \<Rightarrow> Returns (trampoline_call fs f fn_ptr grateid args st)))"

text \<open>The counter of the calls under way in a cage; nothing happens to a cage that is gone.\<close>

definition add_inflight :: "u64 \<Rightarrow> u64 \<Rightarrow> threei \<Rightarrow> threei" where
  "add_inflight k cageid st =
     (case get_cage st cageid of
        None \<Rightarrow> st
      | Some c \<Rightarrow> st\<lparr> cage_map := (cage_map st)(cageid \<mapsto> c\<lparr> grate_inflight := grate_inflight c + k \<rparr>) \<rparr>)"

text \<open>The closure before a call: it counts the call and takes it back if the cage is dead.\<close>

definition enter_grate :: "u64 \<Rightarrow> threei \<Rightarrow> int option \<times> threei" where
  "enter_grate grateid st =
     (case get_cage st grateid of
        None \<Rightarrow> (None, st)
      | Some _ \<Rightarrow>
          (let st1 = add_inflight 1 grateid st in
           if is_cage_dead st1 grateid then (Some (- ESRCH), add_inflight (- 1) grateid st1) else (Some 0, st1)))"

section \<open>Registration\<close>

definition register_handler :: "u64 \<Rightarrow> u64 \<Rightarrow> u64 \<Rightarrow> u64 \<Rightarrow> threei \<Rightarrow> u32 \<times> threei" where
  "register_handler targetcage targetcallnum handlefunccage fn_ptr st =
     (if targetcage \<in> exiting_table st \<or> handlefunccage \<in> exiting_table st then (ucast ELINDESRCH, st)
      else (case register_handler_hash targetcage targetcallnum handlefunccage fn_ptr (handler_table st) of
              (r, t) \<Rightarrow> (r, st\<lparr> handler_table := t \<rparr>)))"

definition copy_handler_table_to_cage :: "u64 \<Rightarrow> u64 \<Rightarrow> threei \<Rightarrow> u64 \<times> threei" where
  "copy_handler_table_to_cage srccage targetcage st =
     (if targetcage \<in> exiting_table st \<or> srccage \<in> exiting_table st then (ELINDESRCH, st)
      else (case copy_handler_table_hash srccage targetcage (handler_table st) of (r, t) \<Rightarrow> (r, st\<lparr> handler_table := t \<rparr>)))"

text \<open>\<open>cstr\<close> reads a null-terminated string from host memory, \<^verbatim>\<open>None\<close> if it is no UTF-8.\<close>

definition register_lib_handler ::
  "(u64 \<Rightarrow> string option) \<Rightarrow> u64 \<Rightarrow> u64 \<Rightarrow> u64 \<Rightarrow> u64 \<Rightarrow> u64 \<Rightarrow> threei \<Rightarrow> u32 \<times> threei" where
  "register_lib_handler cstr target_cage_id lib_name_ptr symbol_name_ptr handler_cage_id handler_fn_ptr st =
     (if lib_name_ptr = 0 \<or> symbol_name_ptr = 0 then (- 1, st)
      else (case cstr lib_name_ptr of
              None \<Rightarrow> (- 1, st)
            | Some lib_name \<Rightarrow>
                (case cstr symbol_name_ptr of
                   None \<Rightarrow> (- 1, st)
                 | Some symbol_name \<Rightarrow>
                     (0, st\<lparr> lib_handler_table := register_lib_handler_entry target_cage_id lib_name symbol_name
                               handler_cage_id handler_fn_ptr (lib_handler_table st) \<rparr>))))"

section \<open>Dispatch\<close>

definition cross_cage_blocked :: "threei \<Rightarrow> u64 \<Rightarrow> u64 \<Rightarrow> u64 \<Rightarrow> bool" where
  "cross_cage_blocked st self_cageid syscall_num target_cageid \<longleftrightarrow>
     (is_cage_dead st target_cageid \<or> target_cageid \<in> exiting_table st)
     \<and> syscall_num \<noteq> EXIT_SYSCALL \<and> syscall_num \<noteq> EXIT_GROUP_SYSCALL \<and> self_cageid \<noteq> target_cageid"

definition make_syscall ::
  "callees \<Rightarrow> u64 \<Rightarrow> u64 \<Rightarrow> u64 \<Rightarrow> six_args \<Rightarrow> threei \<Rightarrow> (u32 \<times> threei) panics" where
  "make_syscall fs self_cageid syscall_num target_cageid args st =
     (if cross_cage_blocked st self_cageid syscall_num target_cageid then Returns (word_of_int (- ESRCH), st)
      else
        (case get_handler_hash (handler_table st) self_cageid syscall_num of
           Panic why \<Rightarrow> Panic why
         | Returns None \<Rightarrow> Panic ''_get_handler returned None''
         | Returns (Some (grateid, fn_ptr)) \<Rightarrow>
             if grateid = RAWPOSIX_CAGEID \<or> grateid = WASMTIME_CAGEID then
               if cross_cage_blocked st self_cageid syscall_num target_cageid then Returns (word_of_int (- ESRCH), st)
               else Returns (raw_call fs fn_ptr target_cageid args st)
             else if grateid = THREEI_CAGEID then
               (case direct_call fs fn_ptr self_cageid target_cageid args st of (r, st1) \<Rightarrow> Returns (ucast r, st1))
             else
               (case enter_grate grateid st of
                  (cage_dead, st1) \<Rightarrow>
                    if cage_dead \<noteq> Some 0 then Returns (word_of_int (- ESRCH), st1)
                    else (case call_grate_func fs grateid fn_ptr args st1 of
                            Panic why \<Rightarrow> Panic why
                          | Returns (ret, st2) \<Rightarrow> Returns (ucast ret, add_inflight (- 1) grateid st2)))))"

definition dispatch_lib_call :: "callees \<Rightarrow> u64 \<Rightarrow> u64 \<Rightarrow> six_args \<Rightarrow> threei \<Rightarrow> (u64 \<times> threei) panics" where
  "dispatch_lib_call fs handler_cage_id fn_ptr args st =
     (case enter_grate handler_cage_id st of
        (cage_dead, st1) \<Rightarrow>
          if cage_dead \<noteq> Some 0 then Returns (word_of_int (- ESRCH), st1)
          else (case call_grate_func fs handler_cage_id fn_ptr args st1 of
                  Panic why \<Rightarrow> Panic why
                | Returns (ret, st2) \<Rightarrow> Returns (ret, add_inflight (- 1) handler_cage_id st2)))"

section \<open>Exit\<close>

definition harsh_cage_exit :: "callees \<Rightarrow> u64 \<Rightarrow> u64 \<Rightarrow> threei \<Rightarrow> (u64 \<times> threei) panics" where
  "harsh_cage_exit fs targetcage exittype st =
     (case make_syscall fs targetcage EXIT_SYSCALL targetcage
             [(exittype, targetcage), (0, 0), (0, 0), (0, 0), (0, 0), (0, 0)] st of
        Panic why \<Rightarrow> Panic why
      | Returns (_, st1) \<Rightarrow>
          (let st2 = st1\<lparr> handler_table := rm_cage_from_handler targetcage (handler_table st1) \<rparr>;
               st3 = st2\<lparr> handler_table := rm_grate_from_handler targetcage (handler_table st2) \<rparr> in
           Returns (0, st3\<lparr> exiting_table := exiting_table st3 - {targetcage} \<rparr>)))"

definition trigger_harsh_cage_exit :: "callees \<Rightarrow> u64 \<Rightarrow> u64 \<Rightarrow> threei \<Rightarrow> threei panics" where
  "trigger_harsh_cage_exit fs targetcage exittype st =
     (let st1 = st\<lparr> exiting_table := insert targetcage (exiting_table st) \<rparr>;
          st2 = st1\<lparr> handler_table := rm_grate_from_handler targetcage (handler_table st1) \<rparr> in
      case harsh_cage_exit fs targetcage exittype st2 of
        Panic why \<Rightarrow> Panic why
      | Returns (_, st3) \<Rightarrow> Returns st3)"

section \<open>The relay of errno\<close>

text \<open>The two cells of a thread through which the value of errno goes around a grate call: the seed on
  the way in, the value the grate left on the way out. \<^verbatim>\<open>Cell::take\<close> leaves \<^verbatim>\<open>None\<close>.\<close>

record errno_relay =
  last_grate_errno :: "u32 option"
  next_grate_errno_seed :: "u32 option"

definition set_next_grate_errno_seed :: "u32 option \<Rightarrow> errno_relay \<Rightarrow> errno_relay" where
  "set_next_grate_errno_seed v e = e\<lparr> next_grate_errno_seed := v \<rparr>"

definition take_next_grate_errno_seed :: "errno_relay \<Rightarrow> u32 option \<times> errno_relay" where
  "take_next_grate_errno_seed e = (next_grate_errno_seed e, e\<lparr> next_grate_errno_seed := None \<rparr>)"

definition set_last_grate_errno :: "u32 option \<Rightarrow> errno_relay \<Rightarrow> errno_relay" where
  "set_last_grate_errno v e = e\<lparr> last_grate_errno := v \<rparr>"

definition take_last_grate_errno :: "errno_relay \<Rightarrow> u32 option \<times> errno_relay" where
  "take_last_grate_errno e = (last_grate_errno e, e\<lparr> last_grate_errno := None \<rparr>)"

text \<open>A portal sets the seed, the worker of the grate takes it and sets what the grate left, the portal
  takes that: each side gets the other's value, and no value stays behind for a later call.\<close>

lemma errno_relayed:
  assumes "take_next_grate_errno_seed (set_next_grate_errno_seed caller e) = (seed, e1)"
    and "take_last_grate_errno (set_last_grate_errno callee e1) = (result, e2)"
  shows "seed = caller \<and> result = callee \<and> e2 = \<lparr> last_grate_errno = None, next_grate_errno_seed = None \<rparr>"
  using assms
  by (auto simp: take_next_grate_errno_seed_def set_next_grate_errno_seed_def take_last_grate_errno_def set_last_grate_errno_def)

section \<open>Counters\<close>

lemma add_inflight_simps [simp]:
  "handler_table (add_inflight k g st) = handler_table st"
  "lib_handler_table (add_inflight k g st) = lib_handler_table st"
  "exiting_table (add_inflight k g st) = exiting_table st"
  "grate_runtime_table (add_inflight k g st) = grate_runtime_table st"
  "trampoline_table (add_inflight k g st) = trampoline_table st"
  by (simp_all add: add_inflight_def split: option.split)

lemma runtime_frame [simp]:
  "get_cage_runtime (add_inflight k g st) = get_cage_runtime st"
  "get_runtime_trampoline (add_inflight k g st) = get_runtime_trampoline st"
  "get_cage (st\<lparr> handler_table := t \<rparr>) = get_cage st" "get_cage (st\<lparr> lib_handler_table := l \<rparr>) = get_cage st"
  "get_cage (st\<lparr> exiting_table := x \<rparr>) = get_cage st"
  "get_cage_runtime (st\<lparr> handler_table := t \<rparr>) = get_cage_runtime st"
  "get_cage_runtime (st\<lparr> lib_handler_table := l \<rparr>) = get_cage_runtime st"
  "get_runtime_trampoline (st\<lparr> handler_table := t \<rparr>) = get_runtime_trampoline st"
  "get_runtime_trampoline (st\<lparr> lib_handler_table := l \<rparr>) = get_runtime_trampoline st"
  by (intro ext, simp add: get_cage_runtime_def get_runtime_trampoline_def get_cage_def)+

lemma get_cage_add_inflight [simp]:
  "get_cage (add_inflight k g st) c =
     (if c = g then map_option (\<lambda>i. i\<lparr> grate_inflight := grate_inflight i + k \<rparr>) (get_cage st g) else get_cage st c)"
  by (auto simp: add_inflight_def get_cage_def split: option.split)

lemma add_inflight_back: "add_inflight (- 1) g (add_inflight 1 g st) = st"
proof (cases "get_cage st g")
  case (Some i)
  then have "cage_map st g = Some i" "\<not> MAX_CAGEID \<le> g" by (simp_all add: get_cage_def split: if_split_asm)
  then show ?thesis by (simp add: add_inflight_def get_cage_def fun_upd_idem)
qed (simp add: add_inflight_def)

lemma enter_grate_outcomes:
  "get_cage st g = None \<Longrightarrow> enter_grate g st = (None, st)"
  "get_cage st g = Some i \<Longrightarrow> is_dead i \<Longrightarrow> enter_grate g st = (Some (- ESRCH), st)"
  "get_cage st g = Some i \<Longrightarrow> \<not> is_dead i \<Longrightarrow> enter_grate g st = (Some 0, add_inflight 1 g st)"
  by (simp_all add: enter_grate_def Let_def is_cage_dead_def add_inflight_back)

text \<open>A grate that can be called: its cage lives, and its runtime has the trampoline.\<close>

definition grate_ready :: "threei \<Rightarrow> u64 \<Rightarrow> u64 \<Rightarrow> bool" where
  "grate_ready st g f \<longleftrightarrow>
     (case get_cage st g of None \<Rightarrow> False | Some i \<Rightarrow> \<not> is_dead i)
     \<and> (case get_cage_runtime st g of None \<Rightarrow> False | Some r \<Rightarrow> get_runtime_trampoline st r = Some f)"

text \<open>The call itself: counted while it is under way.\<close>

definition counted_call :: "callees \<Rightarrow> u64 \<Rightarrow> u64 \<Rightarrow> u64 \<Rightarrow> six_args \<Rightarrow> threei \<Rightarrow> u64 \<times> threei" where
  "counted_call fs f fn_ptr g args st =
     (case trampoline_call fs f fn_ptr g args (add_inflight 1 g st) of (r, st') \<Rightarrow> (r, add_inflight (- 1) g st'))"

lemma ready_call:
  assumes "grate_ready st g f"
  shows "enter_grate g st = (Some 0, add_inflight 1 g st)"
    and "call_grate_func fs g fn_ptr args (add_inflight 1 g st) = Returns (trampoline_call fs f fn_ptr g args (add_inflight 1 g st))"
proof -
  obtain i r where "get_cage st g = Some i" "\<not> is_dead i" "get_cage_runtime st g = Some r" "get_runtime_trampoline st r = Some f"
    using assms by (auto simp: grate_ready_def split: option.splits)
  then show "enter_grate g st = (Some 0, add_inflight 1 g st)"
    and "call_grate_func fs g fn_ptr args (add_inflight 1 g st) = Returns (trampoline_call fs f fn_ptr g args (add_inflight 1 g st))"
    by (simp_all add: enter_grate_outcomes(3) call_grate_func_def)
qed

lemma cage_not_special: "get_cage st g = Some i \<Longrightarrow> g \<noteq> RAWPOSIX_CAGEID \<and> g \<noteq> WASMTIME_CAGEID \<and> g \<noteq> THREEI_CAGEID"
  by (auto simp: get_cage_def MAX_CAGEID_def RAWPOSIX_CAGEID_def WASMTIME_CAGEID_def THREEI_CAGEID_def)

lemma make_syscall_grate:
  assumes "\<not> cross_cage_blocked st c n target" and "route (handler_table st) (c, n) = Some (g, fn_ptr)" and "grate_ready st g f"
  shows "make_syscall fs c n target args st = (case counted_call fs f fn_ptr g args st of (r, st') \<Rightarrow> Returns (ucast r, st'))"
proof -
  have "get_cage st g \<noteq> None" using assms(3) by (auto simp: grate_ready_def split: option.splits)
  then have g: "g \<noteq> RAWPOSIX_CAGEID" "g \<noteq> WASMTIME_CAGEID" "g \<noteq> THREEI_CAGEID" using cage_not_special by blast+
  have "get_handler_hash (handler_table st) c n = Returns (Some (g, fn_ptr))" using assms(2) by (simp add: get_handler_routes)
  then show ?thesis
    using assms(1) g by (simp add: make_syscall_def ready_call [OF assms(3)] counted_call_def split: prod.split)
qed

lemma make_syscall_blocked:
  "cross_cage_blocked st c n target \<Longrightarrow> make_syscall fs c n target args st = Returns (word_of_int (- ESRCH), st)"
  by (simp add: make_syscall_def)


text \<open>C12: Calls of library functions. Once a function of a library is registered for a cage, the table
  answers the registered function for that name. A call dispatched to it runs it in its grate with
  exactly the arguments, counted as under way until it returns, and gives the whole of its result;
  and if the grate has exited meanwhile, the call answers that there is no such process, without
  running anything and with the tables as they were.\<close>

theorem lib_call_reaches_handler:
  assumes "register_lib_handler cstr c lib_ptr sym_ptr h fn_ptr st = (0, st')"
    and "cstr lib_ptr = Some lib" and "cstr sym_ptr = Some symbol"
  shows "get_lib_handler c lib symbol (lib_handler_table st') = Some (h, fn_ptr)
    \<and> (grate_ready st h f \<longrightarrow> dispatch_lib_call fs h fn_ptr args st' = Returns (counted_call fs f fn_ptr h args st'))
    \<and> (get_cage st h = None \<or> is_cage_dead st h \<longrightarrow> dispatch_lib_call fs h fn_ptr args st' = Returns (- 3, st'))"
proof -
  have st': "st' = st\<lparr> lib_handler_table := register_lib_handler_entry c lib symbol h fn_ptr (lib_handler_table st) \<rparr>"
    using assms by (auto simp: register_lib_handler_def split: if_split_asm)
  have "dispatch_lib_call fs h fn_ptr args st' = Returns (counted_call fs f fn_ptr h args st')" if "grate_ready st h f"
  proof -
    have "grate_ready st' h f" using that by (auto simp: st' grate_ready_def split: option.splits)
    then show ?thesis by (simp add: dispatch_lib_call_def ready_call counted_call_def split: prod.split)
  qed
  moreover have "dispatch_lib_call fs h fn_ptr args st' = Returns (- 3, st')" if "get_cage st h = None \<or> is_cage_dead st h"
  proof -
    have "get_cage st' = get_cage st" by (simp add: st')
    then have "get_cage st' h = None \<or> (\<exists>i. get_cage st' h = Some i \<and> is_dead i)"
      using that by (auto simp: is_cage_dead_def split: option.splits)
    then show ?thesis using enter_grate_outcomes(1,2) [of st' h] by (auto simp: dispatch_lib_call_def ESRCH_def)
  qed
  ultimately show ?thesis by (simp add: st')
qed

section \<open>Exit of a cage\<close>

text \<open>The functions called by address use the tables only through the operations above.\<close>

definition callees_ok :: "callees \<Rightarrow> bool" where
  "callees_ok fs \<longleftrightarrow>
     (\<forall>p t as st. handlers_ok (handler_table st) \<longrightarrow> handlers_ok (handler_table (snd (raw_call fs p t as st))))
     \<and> (\<forall>p s t as st. handlers_ok (handler_table st) \<longrightarrow> handlers_ok (handler_table (snd (direct_call fs p s t as st))))
     \<and> (\<forall>f p g as st. handlers_ok (handler_table st) \<longrightarrow> handlers_ok (handler_table (snd (trampoline_call fs f p g as st))))"

lemma enter_grate_cases:
  obtains "enter_grate g st = (None, st)" | "enter_grate g st = (Some (- ESRCH), st)"
    | "enter_grate g st = (Some 0, add_inflight 1 g st)"
  using enter_grate_outcomes by (cases "get_cage st g") blast+

lemma call_grate_func_cases:
  assumes "call_grate_func fs g p as st = Returns r"
  obtains f where "r = trampoline_call fs f p g as st"
  using assms by (auto simp: call_grate_func_def split: option.splits)

lemma make_syscall_cases:
  assumes "make_syscall fs c n t as st = Returns (r, st')"
  obtains (unchanged) "st' = st"
    | (raw) p where "st' = snd (raw_call fs p t as st)"
    | (direct) p where "st' = snd (direct_call fs p c t as st)"
    | (grate) f p g where "st' = add_inflight (- 1) g (snd (trampoline_call fs f p g as (add_inflight 1 g st)))"
proof (cases "cross_cage_blocked st c n t")
  case True
  then show ?thesis using assms unchanged by (simp add: make_syscall_blocked)
next
  case False
  then obtain g p where get: "get_handler_hash (handler_table st) c n = Returns (Some (g, p))"
    using assms by (auto simp: make_syscall_def split: panics.splits option.splits)
  note run = assms [unfolded make_syscall_def get, simplified False, simplified]
  show ?thesis
  proof (cases "g = RAWPOSIX_CAGEID \<or> g = WASMTIME_CAGEID \<or> g = THREEI_CAGEID")
    case True
    then show ?thesis using run raw [of p] direct [of p] by (auto split: if_split_asm prod.splits)
  next
    case other: False
    show ?thesis
    proof (cases rule: enter_grate_cases [of g st])
      case 3
      then obtain x where x: "call_grate_func fs g p as (add_inflight 1 g st) = Returns x" "st' = add_inflight (- 1) g (snd x)"
        using run other by (auto split: panics.splits)
      then show ?thesis using call_grate_func_cases grate by metis
    qed (use run other unchanged in \<open>auto simp: ESRCH_def\<close>)
  qed
qed

lemma make_syscall_table_ok:
  assumes "callees_ok fs" and "handlers_ok (handler_table st)" and "make_syscall fs c n t as st = Returns (r, st')"
  shows "handlers_ok (handler_table st')"
  using assms(3)
proof (cases rule: make_syscall_cases)
  case (grate f p g)
  have "handlers_ok (handler_table (add_inflight 1 g st))" using assms(2) by simp
  then have "handlers_ok (handler_table (snd (trampoline_call fs f p g as (add_inflight 1 g st))))"
    using assms(1) unfolding callees_ok_def by blast
  then show ?thesis by (simp add: grate)
qed (use assms(1,2) in \<open>auto simp: callees_ok_def\<close>)

text \<open>The steps of an exit.\<close>

lemma trigger_exit_cases:
  assumes "trigger_harsh_cage_exit fs g x st = Returns st'"
  obtains r st1 where
    "make_syscall fs g EXIT_SYSCALL g [(x, g), (0, 0), (0, 0), (0, 0), (0, 0), (0, 0)]
       (st\<lparr> exiting_table := insert g (exiting_table st), handler_table := rm_grate_from_handler g (handler_table st) \<rparr>) = Returns (r, st1)"
    "st' = st1\<lparr> handler_table := rm_grate_from_handler g (rm_cage_from_handler g (handler_table st1)),
                exiting_table := exiting_table st1 - {g} \<rparr>"
  using assms by (auto simp: trigger_harsh_cage_exit_def harsh_cage_exit_def Let_def split: panics.splits)


text \<open>A call whose handler is taken away keeps its place in the table of its cage.\<close>

definition listed :: "cage_handler_table \<Rightarrow> u64 \<Rightarrow> u64 \<Rightarrow> bool" where
  "listed t c n \<longleftrightarrow> map_of t c \<noteq> None \<and> map_of (entry c t) n \<noteq> None"

lemma listed_route: "route t (c, n) = Some e \<Longrightarrow> listed t c n"
  by (cases "map_of t c"; cases "map_of (entry c t) n") (auto simp: listed_def route_def routed_def)

lemma listed_frame:
  "listed (rm_grate_from_handler g t) c n = listed t c n"
  "c \<noteq> g \<Longrightarrow> listed (rm_cage_from_handler g t) c n = listed t c n"
  by (auto simp: listed_def rm_grate_from_handler_def rm_cage_from_handler_def map_of_map_snd entry_def delete_conv' split: option.splits)

lemma listed_unrouted: "listed t c n \<Longrightarrow> route t (c, n) = None \<Longrightarrow> get_handler_hash t c n = Returns None"
  by (auto simp: listed_def get_handler_hash_def route_def routed_def split: option.splits list.splits)


text \<open>The number that means removal is also the number of a cage: a grate in cage 500 that registers a
  handler removes the one that is there.\<close>

lemma cage_500_cannot_register:
  assumes "handlers_ok (handler_table st)" and "c \<notin> exiting_table st" and "THREEI_DEREGISTER \<notin> exiting_table st"
  shows "THREEI_DEREGISTER < MAX_CAGEID \<and> (\<exists>st'. register_handler c n THREEI_DEREGISTER fn_ptr st = (0, st')
    \<and> route (handler_table st') (c, n) = None)"
proof -
  have "fst (register_handler_hash c n THREEI_DEREGISTER fn_ptr (handler_table st)) = 0" by (simp add: register_handler_hash_def)
  then have "register_handler c n THREEI_DEREGISTER fn_ptr st
      = (0, st\<lparr> handler_table := snd (register_handler_hash c n THREEI_DEREGISTER fn_ptr (handler_table st)) \<rparr>)"
    using assms(2,3) by (auto simp: register_handler_def split: prod.split)
  moreover have "THREEI_DEREGISTER < MAX_CAGEID" by (simp add: THREEI_DEREGISTER_def MAX_CAGEID_def)
  ultimately show ?thesis by (simp add: hash.reg_routes [OF assms(1)])
qed

section \<open>A cage and its grate\<close>

text \<open>Cage 7 is interposed by grate 3; the handler of both for exits is the kernel's.\<close>

definition demo_tables :: threei where
  "demo_tables = \<lparr> handler_table = [(7, [(60, [(RAWPOSIX_CAGEID, 200)])]), (3, [(60, [(RAWPOSIX_CAGEID, 200)])])],
     lib_handler_table = [], exiting_table = {},
     cage_map = [3 \<mapsto> \<lparr> is_dead = False, grate_inflight = 0 \<rparr>, 7 \<mapsto> \<lparr> is_dead = False, grate_inflight = 0 \<rparr>],
     grate_runtime_table = [None, None, None, Some 1],
     trampoline_table = [1 \<mapsto> \<lparr> trampoline = 900, cleanup_funcptr = 0 \<rparr>] \<rparr>"

definition demo_callees :: callees where
  "demo_callees = \<lparr> raw_call = (\<lambda>p t as st. (0, st)), direct_call = (\<lambda>p s t as st. (0, st)),
     trampoline_call = (\<lambda>f p g as st. (p + fst (as ! 0), st)) \<rparr>"

lemma demo_ok: "handlers_ok (handler_table demo_tables)" "callees_ok demo_callees" "grate_ready demo_tables 3 900"
  "\<not> cross_cage_blocked demo_tables 7 n t"
proof -
  show "handlers_ok (handler_table demo_tables)" by (simp add: demo_tables_def handlers_ok_def call_map_ok_def)
  show "callees_ok demo_callees" by (simp add: callees_ok_def demo_callees_def)
  show "grate_ready demo_tables 3 900"
    by (simp add: grate_ready_def demo_tables_def get_cage_def get_cage_runtime_def get_runtime_trampoline_def MAX_CAGEID_def)
  show "\<not> cross_cage_blocked demo_tables 7 n t"
    by (simp add: cross_cage_blocked_def demo_tables_def is_cage_dead_def get_cage_def)
qed

definition demo_registered :: threei where
  "demo_registered = snd (register_handler 7 34 3 100 demo_tables)"

lemma demo_register: "register_handler 7 34 3 100 demo_tables = (0, demo_registered)"
  "handler_table demo_registered = [(7, [(60, [(RAWPOSIX_CAGEID, 200)]), (34, [(3, 100)])]), (3, [(60, [(RAWPOSIX_CAGEID, 200)])])]"
  by (simp_all add: demo_registered_def register_handler_def register_handler_hash_def register_entry_def entry_def demo_tables_def
      THREEI_DEREGISTER_def)


theorem lib_call_reaches_handler_witness:
  "\<exists>st'. register_lib_handler (\<lambda>p. if p = 1 then Some ''libz'' else Some ''crc32'') 7 1 2 3 100 demo_tables = (0, st')
     \<and> get_lib_handler 7 ''libz'' ''crc32'' (lib_handler_table st') = Some (3, 100)
     \<and> dispatch_lib_call demo_callees 3 100 [(5, 7), (0, 0), (0, 0), (0, 0), (0, 0), (0, 0)] st' = Returns (105, st')"
proof -
  let ?cstr = "\<lambda>p :: u64. if p = 1 then Some ''libz'' else Some ''crc32''"
  obtain st' where st': "register_lib_handler ?cstr 7 1 2 3 100 demo_tables = (0, st')"
    by (simp add: register_lib_handler_def)
  have names: "?cstr 1 = Some ''libz''" "?cstr 2 = Some ''crc32''" by simp_all
  from lib_call_reaches_handler [OF st' names, of 900 demo_callees "[(5, 7), (0, 0), (0, 0), (0, 0), (0, 0), (0, 0)]"] demo_ok(3) st'
  show ?thesis by (auto simp: counted_call_def demo_callees_def add_inflight_back)
qed

lemma demo_exit: "\<exists>st'. trigger_harsh_cage_exit demo_callees 3 0 demo_registered = Returns st'"
proof -
  have "get_handler_hash (rm_grate_from_handler 3 (handler_table demo_registered)) 3 EXIT_SYSCALL = Returns (Some (RAWPOSIX_CAGEID, 200))"
    by (simp add: demo_register(2) rm_grate_from_handler_def get_handler_hash_def EXIT_SYSCALL_def RAWPOSIX_CAGEID_def)
  then show ?thesis
    by (simp add: trigger_harsh_cage_exit_def harsh_cage_exit_def Let_def make_syscall_def cross_cage_blocked_def demo_callees_def)
qed

lemma demo_registered_ok: "handlers_ok (handler_table demo_registered)"
  by (simp add: demo_register(2) handlers_ok_def call_map_ok_def)



end
