(* ===== verification/Threei_Copy.thy ===== *)
theory Threei_Copy
  imports Threei Lind_Syscall
begin

text \<open>
  The copy between cages in the runtime (\<^verbatim>\<open>src/threei/src/threei.rs\<close>: \<^verbatim>\<open>copy_data_between_cages\<close> and its
  helpers), on the memory of the host process, which holds the linear memories of all cages. The base
  addresses of the cages and the answers of \<^verbatim>\<open>check_addr_read\<close> and \<^verbatim>\<open>check_addr_rw\<close> are parameters.
\<close>

section \<open>Helpers\<close>

record copy_host =
  base_address :: "u64 \<Rightarrow> u64 option"
  check_addr_read :: "u64 \<Rightarrow> u64 \<Rightarrow> nat \<Rightarrow> bool"
  check_addr_rw :: "u64 \<Rightarrow> u64 \<Rightarrow> nat \<Rightarrow> bool"

definition MAX_LINEAR_MEMORY_SIZE :: u64 where "MAX_LINEAR_MEMORY_SIZE = 0xFFFFFFFF"

definition ensure_host_addr :: "copy_host \<Rightarrow> u64 \<Rightarrow> u64 \<Rightarrow> u64" where
  "ensure_host_addr h cageid addr =
     (if addr < 2 ^ 32 then
        (let base = (case base_address h cageid of None \<Rightarrow> 0 | Some b \<Rightarrow> b) in
         if base = 0 then 0 else addr + base)
      else addr)"

datatype CopyType = RawMemcpy | Strncpy

definition CopyType_try_from :: "u64 \<Rightarrow> CopyType option" where
  "CopyType_try_from v = (if v = 0 then Some RawMemcpy else if v = 1 then Some Strncpy else None)"

text \<open>The loop over \<open>i\<close>, with \<open>k\<close> bytes left; \<^verbatim>\<open>checked_add\<close> stops it at the end of the address space.\<close>

fun strlen_from :: "copy_host \<Rightarrow> mem \<Rightarrow> u64 \<Rightarrow> u64 \<Rightarrow> nat \<Rightarrow> nat \<Rightarrow> nat option" where
  "strlen_from h m cageid host_addr i 0 = None"
| "strlen_from h m cageid host_addr i (Suc k) =
     (if 2 ^ 64 \<le> unat host_addr + i then None
      else if \<not> check_addr_read h cageid (host_addr + of_nat i) 1 then None
      else if m (unat host_addr + i) = 0 then Some i
      else strlen_from h m cageid host_addr (Suc i) k)"

definition strlen_in_cage :: "copy_host \<Rightarrow> mem \<Rightarrow> u64 \<Rightarrow> u64 \<Rightarrow> nat \<Rightarrow> nat option" where
  "strlen_in_cage h m cageid srcaddr max_len =
     (let host_addr = ensure_host_addr h cageid srcaddr in
      if host_addr = 0 then None else strlen_from h m cageid host_addr 0 max_len)"

definition copy_len :: "copy_host \<Rightarrow> mem \<Rightarrow> u64 \<Rightarrow> u64 \<Rightarrow> u64 \<Rightarrow> u64 \<Rightarrow> nat option" where
  "copy_len h m srccage srcaddr len copytype =
     (case CopyType_try_from copytype of
        Some RawMemcpy \<Rightarrow> Some (unat len)
      | Some Strncpy \<Rightarrow> if srcaddr = 0 then None else map_option (\<lambda>n. n + 1) (strlen_in_cage h m srccage srcaddr (unat len))
      | None \<Rightarrow> None)"

section \<open>The copy\<close>

definition threei_copy_data ::
  "copy_host \<Rightarrow> u64 \<Rightarrow> u64 \<Rightarrow> u64 \<Rightarrow> u64 \<Rightarrow> u64 \<Rightarrow> u64 \<Rightarrow> mem \<Rightarrow> (u64 \<times> mem) panics" where
  "threei_copy_data h srcaddr srccage destaddr destcage len copytype m =
     (if srccage = destcage then Returns (ELINDAPIABORTED, m)
      else if MAX_LINEAR_MEMORY_SIZE < len then Returns (ELINDAPIABORTED, m)
      else if destaddr = 0 then Panic ''Dynamic allocation not yet supported in copy_data_between_cages''
      else
        (case copy_len h m srccage srcaddr len copytype of
           None \<Rightarrow> Returns (ELINDAPIABORTED, m)
         | Some n \<Rightarrow>
             (let host_src_addr = ensure_host_addr h srccage srcaddr;
                  host_dest_addr = ensure_host_addr h destcage destaddr in
              if host_src_addr = 0 \<or> host_dest_addr = 0 then Returns (ELINDAPIABORTED, m)
              else if \<not> check_addr_read h srccage host_src_addr n then Returns (ELINDAPIABORTED, m)
              else if \<not> check_addr_rw h destcage host_dest_addr n then Returns (ELINDAPIABORTED, m)
              else if 2 ^ 64 \<le> unat host_src_addr + n \<or> 2 ^ 64 \<le> unat host_dest_addr + n then Returns (ELINDAPIABORTED, m)
              else Returns (destaddr, blit m (unat host_src_addr) n m (unat host_dest_addr)))))"

section \<open>What is copied\<close>

lemma strlen_from_Some:
  "strlen_from h m c a i k = Some n \<longleftrightarrow>
     i \<le> n \<and> n < i + k \<and> m (unat a + n) = 0 \<and> (\<forall>j. i \<le> j \<and> j < n \<longrightarrow> m (unat a + j) \<noteq> 0)
     \<and> (\<forall>j. i \<le> j \<and> j \<le> n \<longrightarrow> unat a + j < 2 ^ 64 \<and> check_addr_read h c (a + of_nat j) 1)"
proof (induction k arbitrary: i)
  case (Suc k)
  let ?fits = "\<lambda>j. unat a + j < 2 ^ 64 \<and> check_addr_read h c (a + of_nat j) 1"
  have split: "(\<forall>j. i \<le> j \<and> j < n \<longrightarrow> P j) \<longleftrightarrow> P i \<and> (\<forall>j. Suc i \<le> j \<and> j < n \<longrightarrow> P j)" if "i < n" for P
    using that by (metis Suc_le_eq le_eq_less_or_eq order_refl)
  have split_le: "(\<forall>j. i \<le> j \<and> j \<le> n \<longrightarrow> P j) \<longleftrightarrow> P i \<and> (\<forall>j. Suc i \<le> j \<and> j \<le> n \<longrightarrow> P j)" if "i \<le> n" for P
    using that by (metis Suc_le_eq le_eq_less_or_eq order_refl)
  consider (bad) "\<not> ?fits i" | (nul) "?fits i" "m (unat a + i) = 0" | (more) "?fits i" "m (unat a + i) \<noteq> 0" by blast
  then show ?case
  proof cases
    case bad
    then have "strlen_from h m c a i (Suc k) = None" by auto
    moreover have "\<not> (\<forall>j. i \<le> j \<and> j \<le> n \<longrightarrow> ?fits j)" if "i \<le> n" using bad that by blast
    ultimately show ?thesis by (metis option.distinct(1))
  next
    case nul
    then have run: "strlen_from h m c a i (Suc k) = Some i" by simp
    show ?thesis
    proof (cases "n = i")
      case True
      then show ?thesis unfolding run using nul by (auto dest: le_antisym)
    next
      case False
      then have "\<not> (\<forall>j. i \<le> j \<and> j < n \<longrightarrow> m (unat a + j) \<noteq> 0)" if "i \<le> n" using nul(2) that by (metis le_neq_implies_less order_refl)
      with False show ?thesis unfolding run by (metis option.inject)
    qed
  next
    case more
    then have run: "strlen_from h m c a i (Suc k) = strlen_from h m c a (Suc i) k" by simp
    show ?thesis
    proof (cases "i < n")
      case True
      then show ?thesis unfolding run Suc.IH split [OF True] split_le [OF less_imp_le [OF True]] using more by (simp add: Suc_le_eq)
    next
      case False
      then have "\<not> (i \<le> n \<and> m (unat a + n) = 0)" using more(2) by (metis le_neq_implies_less)
      moreover have "\<not> Suc i \<le> n" using False by simp
      ultimately show ?thesis unfolding run Suc.IH by blast
    qed
  qed
qed auto

text \<open>\<open>n\<close> bytes can be copied, and are what the caller asks for: \<open>len\<close> bytes, or the bytes of a string
  with its terminator, all readable, within \<open>len\<close>.\<close>

definition transferable ::
  "copy_host \<Rightarrow> u64 \<Rightarrow> u64 \<Rightarrow> u64 \<Rightarrow> u64 \<Rightarrow> u64 \<Rightarrow> u64 \<Rightarrow> mem \<Rightarrow> nat \<Rightarrow> bool" where
  "transferable h srcaddr srccage destaddr destcage len copytype m n \<longleftrightarrow>
     (let a = ensure_host_addr h srccage srcaddr; b = ensure_host_addr h destcage destaddr in
      srccage \<noteq> destcage \<and> len \<le> MAX_LINEAR_MEMORY_SIZE \<and> a \<noteq> 0 \<and> b \<noteq> 0
      \<and> check_addr_read h srccage a n \<and> check_addr_rw h destcage b n
      \<and> unat a + n < 2 ^ 64 \<and> unat b + n < 2 ^ 64
      \<and> (if copytype = 0 then n = unat len
         else copytype = 1 \<and> srcaddr \<noteq> 0 \<and> 0 < n \<and> n \<le> unat len \<and> m (unat a + (n - 1)) = 0
           \<and> (\<forall>j < n - 1. m (unat a + j) \<noteq> 0) \<and> (\<forall>j < n. check_addr_read h srccage (a + of_nat j) 1)))"

lemma strlen_from_0:
  "strlen_from h m c a 0 k = Some n \<longleftrightarrow> n < k \<and> m (unat a + n) = 0 \<and> (\<forall>j<n. m (unat a + j) \<noteq> 0)
     \<and> (\<forall>j. j \<le> n \<longrightarrow> unat a + j < 2 ^ 64 \<and> check_addr_read h c (a + of_nat j) 1)"
  by (simp add: strlen_from_Some)

lemma copy_len_transferable:
  assumes "transferable h srcaddr srccage destaddr destcage len copytype m n"
  shows "copy_len h m srccage srcaddr len copytype = Some n"
proof (cases "copytype = 0")
  case True
  then show ?thesis using assms by (simp add: transferable_def Let_def copy_len_def CopyType_try_from_def)
next
  case False
  let ?a = "ensure_host_addr h srccage srcaddr"
  have t: "copytype = 1" "srcaddr \<noteq> 0" "?a \<noteq> 0" "0 < n" "n \<le> unat len" "m (unat ?a + (n - 1)) = 0" "unat ?a + n < 2 ^ 64"
      "\<forall>j < n - 1. m (unat ?a + j) \<noteq> 0" "\<forall>j < n. check_addr_read h srccage (?a + of_nat j) 1"
    using assms unfolding transferable_def Let_def if_not_P [OF False] by blast+
  moreover obtain k where n: "n = Suc k" using t(4) by (cases n) auto
  ultimately have "strlen_from h m srccage ?a 0 (unat len) = Some k"
    unfolding strlen_from_0 by (intro conjI) (simp_all add: Suc_le_eq less_Suc_eq_le)
  then show ?thesis using n t(1-3) by (simp add: copy_len_def CopyType_try_from_def strlen_in_cage_def)
qed

lemma transferable_copy_len:
  assumes "copy_len h m srccage srcaddr len copytype = Some n"
    and "srccage \<noteq> destcage" and "len \<le> MAX_LINEAR_MEMORY_SIZE"
    and "ensure_host_addr h srccage srcaddr \<noteq> 0" and "ensure_host_addr h destcage destaddr \<noteq> 0"
    and "check_addr_read h srccage (ensure_host_addr h srccage srcaddr) n"
    and "check_addr_rw h destcage (ensure_host_addr h destcage destaddr) n"
    and "unat (ensure_host_addr h srccage srcaddr) + n < 2 ^ 64" and "unat (ensure_host_addr h destcage destaddr) + n < 2 ^ 64"
  shows "transferable h srcaddr srccage destaddr destcage len copytype m n"
proof (cases "copytype = 0")
  case True
  then show ?thesis using assms by (simp add: transferable_def copy_len_def CopyType_try_from_def)
next
  case False
  let ?a = "ensure_host_addr h srccage srcaddr"
  from assms(1,4) False obtain k where k: "strlen_from h m srccage ?a 0 (unat len) = Some k" "n = k + 1" "copytype = 1" "srcaddr \<noteq> 0"
    by (auto simp: copy_len_def CopyType_try_from_def strlen_in_cage_def Let_def split: if_split_asm)
  then have "k < unat len" "m (unat ?a + k) = 0" "\<forall>j<k. m (unat ?a + j) \<noteq> 0" "\<forall>j. j \<le> k \<longrightarrow> check_addr_read h srccage (?a + of_nat j) 1"
    unfolding strlen_from_0 by simp_all
  then show ?thesis using assms(2-9) k(2-4) by (simp add: transferable_def Let_def less_Suc_eq_le)
qed

text \<open>C10: The copy between cages is exact. With a destination given, it either copies precisely what
  was asked for, that is \<open>len\<close> bytes or a string up to and including its terminator, provided that
  the cages differ, the whole range may be read and the whole range may be written, and then
  it answers the destination and changes no other byte; or it refuses and changes nothing.\<close>

theorem threei_copy_data_exact:
  assumes "destaddr \<noteq> 0"
  shows "(\<exists>n m'. transferable h srcaddr srccage destaddr destcage len copytype m n
      \<and> threei_copy_data h srcaddr srccage destaddr destcage len copytype m = Returns (destaddr, m')
      \<and> bytes_at m' (unat (ensure_host_addr h destcage destaddr)) n = bytes_at m (unat (ensure_host_addr h srccage srcaddr)) n
      \<and> agree (span (unat (ensure_host_addr h destcage destaddr)) n) m m')
    \<or> (\<nexists>n. transferable h srcaddr srccage destaddr destcage len copytype m n)
      \<and> threei_copy_data h srcaddr srccage destaddr destcage len copytype m = Returns (ELINDAPIABORTED, m)"
proof (cases "\<exists>n. transferable h srcaddr srccage destaddr destcage len copytype m n")
  case True
  let ?a = "unat (ensure_host_addr h srccage srcaddr)" and ?b = "unat (ensure_host_addr h destcage destaddr)"
  obtain n where n: "transferable h srcaddr srccage destaddr destcage len copytype m n" using True by blast
  have "threei_copy_data h srcaddr srccage destaddr destcage len copytype m = Returns (destaddr, blit m ?a n m ?b)"
    using n assms copy_len_transferable [OF n] by (simp add: threei_copy_data_def transferable_def Let_def not_less [symmetric])
  moreover have "bytes_at (blit m ?a n m ?b) ?b n = bytes_at m ?a n" by (simp add: bytes_at_blit_in)
  ultimately show ?thesis using n agree_blit by blast
next
  case False
  then have "threei_copy_data h srcaddr srccage destaddr destcage len copytype m = Returns (ELINDAPIABORTED, m)"
    using assms transferable_copy_len [of h m srccage srcaddr len copytype _ destcage destaddr]
    by (auto simp: threei_copy_data_def Let_def not_less not_le split: option.split)
  with False show ?thesis by blast
qed

section \<open>From the C library to the copy\<close>


section \<open>An instance\<close>

definition two_cages :: copy_host where
  "two_cages = \<lparr>base_address = [1 \<mapsto> 0x10000000000, 2 \<mapsto> 0x200000000], check_addr_read = \<lambda>c a n. True, check_addr_rw = \<lambda>c a n. True\<rparr>"

definition hi_memory :: mem where
  "hi_memory = (\<lambda>_. 1)(0x10000000010 := 104, 0x10000000011 := 105, 0x10000000012 := 0)"

lemma hi_transferable: "transferable two_cages 16 1 32 2 10 1 hi_memory 3"
  by (simp add: transferable_def two_cages_def hi_memory_def ensure_host_addr_def MAX_LINEAR_MEMORY_SIZE_def All_less_Suc numeral_3_eq_3)

theorem threei_copy_data_exact_witness:
  "(32::u64) \<noteq> 0 \<and> (\<exists>n m'. threei_copy_data two_cages 16 1 32 2 10 1 hi_memory = Returns (32, m')
     \<and> bytes_at m' 0x200000020 n = bytes_at hi_memory 0x10000000010 n \<and> agree (span 0x200000020 n) hi_memory m')"
proof -
  have "unat (ensure_host_addr two_cages 1 16) = 0x10000000010" "unat (ensure_host_addr two_cages 2 32) = 0x200000020"
    by (simp_all add: two_cages_def ensure_host_addr_def)
  then show ?thesis using threei_copy_data_exact [of 32 two_cages 16 1 2 10 1 hi_memory] hi_transferable by auto
qed


end
