(* ===== verification/Fd_Table.thy ===== *)
theory Fd_Table
  imports Lind_Prelude "HOL-Library.Multiset"
begin

text \<open>
  The tables of file descriptors of the cages (\<^verbatim>\<open>src/fdtables/src/dashmaparrayglobal.rs\<close>, the default
  implementation): which open file a virtual descriptor of a cage stands for, how often each file is
  open over all cages, and which handlers are told when a descriptor is closed.

  The handlers are called by address, after the locks of the tables are dropped. The calls made to
  them are kept in \<open>close_calls\<close>, in order; what a handler answers is a parameter, a function of all
  the calls so far. A panic gives up the tables.
\<close>

section \<open>Tables\<close>

record FDTableEntry =
  fdkind :: u32
  underfd :: u64
  should_cloexec :: bool
  perfdinfo :: u64

type_synonym fdrow = "FDTableEntry option list"

record CloseHandlers =
  intermediate_close :: u64
  last_close :: u64

datatype close_call = Close_Call u64 FDTableEntry u64   \<comment> \<open>handler, entry, references left\<close>

record fdtables =
  fdtable :: "u64 \<rightharpoonup> fdrow"
  fdcount :: "u32 \<times> u64 \<rightharpoonup> u64"
  closehandlertable :: "u32 \<rightharpoonup> CloseHandlers"
  close_calls :: "close_call list"

type_synonym close_answers = "close_call list \<Rightarrow> u32 option"   \<comment> \<open>the error of the last call\<close>

definition FD_PER_PROCESS_MAX :: u64 where "FD_PER_PROCESS_MAX = 1024"
definition EBADF :: u64 where "EBADF = 9"
definition EMFILE :: u64 where "EMFILE = 24"
definition EBADFD :: u64 where "EBADFD = 77"

section \<open>Counting\<close>

definition increment_fdcount :: "FDTableEntry \<Rightarrow> fdtables \<Rightarrow> fdtables" where
  "increment_fdcount e st =
     (let mytuple = (fdkind e, underfd e) in
      case fdcount st mytuple of
        Some n \<Rightarrow> st\<lparr> fdcount := (fdcount st)(mytuple \<mapsto> n + 1) \<rparr>
      | None \<Rightarrow> st\<lparr> fdcount := (fdcount st)(mytuple \<mapsto> 1) \<rparr>)"

definition call_close :: "close_answers \<Rightarrow> u64 \<Rightarrow> FDTableEntry \<Rightarrow> u64 \<Rightarrow> fdtables \<Rightarrow> u32 option \<times> fdtables" where
  "call_close answers f e n st =
     (let calls = close_calls st @ [Close_Call f e n] in (answers calls, st\<lparr> close_calls := calls \<rparr>))"

text \<open>A kind without handlers has \<^verbatim>\<open>NULL_FUNC\<close> for both, which does nothing and answers \<^verbatim>\<open>Ok\<close>.\<close>

definition decrement_fdcount :: "close_answers \<Rightarrow> FDTableEntry \<Rightarrow> fdtables \<Rightarrow> (u32 option \<times> fdtables) panics" where
  "decrement_fdcount answers e st =
     (let mytuple = (fdkind e, underfd e) in
      case fdcount st mytuple of
        None \<Rightarrow> Panic ''FDCOUNT get failed''
      | Some old \<Rightarrow>
          if old = 0 then Panic ''FDCOUNT underflow''
          else
            (let newcount = old - 1;
                 st1 = st\<lparr> fdcount := (if 0 < newcount then (fdcount st)(mytuple \<mapsto> newcount) else (fdcount st)(mytuple := None)) \<rparr> in
             Returns (case closehandlertable st (fdkind e) of
                        None \<Rightarrow> (None, st1)
                      | Some ch \<Rightarrow> if 0 < newcount then call_close answers (intermediate_close ch) e newcount st1
                                  else call_close answers (last_close ch) e 0 st1)))"

text \<open>The loops that close many open_entries; they panic when a handler answers an error.\<close>

fun decrement_all :: "close_answers \<Rightarrow> FDTableEntry list \<Rightarrow> fdtables \<Rightarrow> fdtables panics" where
  "decrement_all answers [] st = Returns st"
| "decrement_all answers (e # es) st =
     (case decrement_fdcount answers e st of
        Panic why \<Rightarrow> Panic why
      | Returns (None, st1) \<Rightarrow> decrement_all answers es st1
      | Returns (Some errno, st1) \<Rightarrow> Panic ''Error decrementing fd count'')"

section \<open>Operations\<close>

definition check_cage_exists :: "fdtables \<Rightarrow> u64 \<Rightarrow> bool" where
  "check_cage_exists st cageid \<longleftrightarrow> (case fdtable st cageid of None \<Rightarrow> False | Some _ \<Rightarrow> True)"

definition init_empty_cage :: "u64 \<Rightarrow> fdtables \<Rightarrow> fdtables panics" where
  "init_empty_cage cageid st =
     (if check_cage_exists st cageid then Panic ''Known cageid in fdtable access''
      else Returns (st\<lparr> fdtable := (fdtable st)(cageid \<mapsto> replicate (unat FD_PER_PROCESS_MAX) None) \<rparr>))"

definition translate_virtual_fd :: "fdtables \<Rightarrow> u64 \<Rightarrow> u64 \<Rightarrow> (u64 + FDTableEntry) panics" where
  "translate_virtual_fd st cageid virtualfd =
     (case fdtable st cageid of
        None \<Rightarrow> Panic ''Unknown cageid in fdtable access''
      | Some row \<Rightarrow>
          if FD_PER_PROCESS_MAX \<le> virtualfd then Returns (Inl EBADFD)
          else Returns (case row ! unat virtualfd of Some tableentry \<Rightarrow> Inr tableentry | None \<Rightarrow> Inl EBADFD))"

text \<open>The search of both functions below, which differ in where it starts.\<close>

definition take_unused :: "nat \<Rightarrow> u64 \<Rightarrow> FDTableEntry \<Rightarrow> fdtables \<Rightarrow> ((u64 + u64) \<times> fdtables) panics" where
  "take_unused start cageid myentry st =
     (case fdtable st cageid of
        None \<Rightarrow> Panic ''Unknown cageid in fdtable access''
      | Some row \<Rightarrow>
          (case List.find (\<lambda>fdcandidate. row ! fdcandidate = None) [start..<unat FD_PER_PROCESS_MAX] of
             None \<Rightarrow> Returns (Inl EMFILE, st)
           | Some fdcandidate \<Rightarrow>
               Returns (Inr (of_nat fdcandidate),
                 increment_fdcount myentry (st\<lparr> fdtable := (fdtable st)(cageid \<mapsto> row[fdcandidate := Some myentry]) \<rparr>))))"

definition get_unused_virtual_fd ::
  "u64 \<Rightarrow> u32 \<Rightarrow> u64 \<Rightarrow> bool \<Rightarrow> u64 \<Rightarrow> fdtables \<Rightarrow> ((u64 + u64) \<times> fdtables) panics" where
  "get_unused_virtual_fd cageid kind ufd cloexec info =
     take_unused 0 cageid \<lparr> fdkind = kind, underfd = ufd, should_cloexec = cloexec, perfdinfo = info \<rparr>"

definition get_unused_virtual_fd_from_startfd ::
  "u64 \<Rightarrow> u32 \<Rightarrow> u64 \<Rightarrow> bool \<Rightarrow> u64 \<Rightarrow> u64 \<Rightarrow> fdtables \<Rightarrow> ((u64 + u64) \<times> fdtables) panics" where
  "get_unused_virtual_fd_from_startfd cageid kind ufd cloexec info arg =
     take_unused (unat arg) cageid \<lparr> fdkind = kind, underfd = ufd, should_cloexec = cloexec, perfdinfo = info \<rparr>"

text \<open>An error of a handler is an \<^verbatim>\<open>i32\<close> that becomes the \<^verbatim>\<open>u64\<close> of the function.\<close>

definition handler_result :: "(u32 option \<times> fdtables) panics \<Rightarrow> ((u64 + unit) \<times> fdtables) panics" where
  "handler_result r =
     (case r of
        Panic why \<Rightarrow> Panic why
      | Returns (None, st) \<Rightarrow> Returns (Inr (), st)
      | Returns (Some errno, st) \<Rightarrow> Returns (Inl (scast errno), st))"

definition get_specific_virtual_fd ::
  "close_answers \<Rightarrow> u64 \<Rightarrow> u64 \<Rightarrow> u32 \<Rightarrow> u64 \<Rightarrow> bool \<Rightarrow> u64 \<Rightarrow> fdtables \<Rightarrow> ((u64 + unit) \<times> fdtables) panics" where
  "get_specific_virtual_fd answers cageid requested_virtualfd kind ufd cloexec info st =
     (case fdtable st cageid of
        None \<Rightarrow> Panic ''Unknown cageid in fdtable access''
      | Some row \<Rightarrow>
          if FD_PER_PROCESS_MAX < requested_virtualfd then Returns (Inl EBADF, st)
          else
            (let myentry = \<lparr> fdkind = kind, underfd = ufd, should_cloexec = cloexec, perfdinfo = info \<rparr>;
                 st1 = increment_fdcount myentry st;
                 i = unat requested_virtualfd in
             if length row \<le> i then Panic ''index out of bounds''
             else
               (let st2 = st1\<lparr> fdtable := (fdtable st1)(cageid \<mapsto> row[i := Some myentry]) \<rparr> in
                case row ! i of
                  None \<Rightarrow> Returns (Inr (), st2)
                | Some oldentry \<Rightarrow> handler_result (decrement_fdcount answers oldentry st2))))"

text \<open>The change of one field of an entry, the same in the two functions that set one.\<close>

definition change_entry ::
  "(FDTableEntry \<Rightarrow> FDTableEntry) \<Rightarrow> u64 \<Rightarrow> u64 \<Rightarrow> fdtables \<Rightarrow> ((u64 + unit) \<times> fdtables) panics" where
  "change_entry f cageid virtualfd st =
     (case fdtable st cageid of
        None \<Rightarrow> Panic ''Unknown cageid in fdtable access''
      | Some row \<Rightarrow>
          (let i = unat virtualfd in
           if length row \<le> i then Panic ''index out of bounds''
           else (case row ! i of
                   None \<Rightarrow> Returns (Inl EBADFD, st)
                 | Some e \<Rightarrow> Returns (Inr (), st\<lparr> fdtable := (fdtable st)(cageid \<mapsto> row[i := Some (f e)]) \<rparr>))))"

definition set_cloexec :: "u64 \<Rightarrow> u64 \<Rightarrow> bool \<Rightarrow> fdtables \<Rightarrow> ((u64 + unit) \<times> fdtables) panics" where
  "set_cloexec cageid virtualfd is_cloexec = change_entry (should_cloexec_update (\<lambda>_. is_cloexec)) cageid virtualfd"

definition set_perfdinfo :: "u64 \<Rightarrow> u64 \<Rightarrow> u64 \<Rightarrow> fdtables \<Rightarrow> ((u64 + unit) \<times> fdtables) panics" where
  "set_perfdinfo cageid virtualfd info = change_entry (perfdinfo_update (\<lambda>_. info)) cageid virtualfd"

definition open_entries :: "fdrow \<Rightarrow> FDTableEntry list" where
  "open_entries row = List.map_filter id row"

definition copy_fdtable_for_cage :: "u64 \<Rightarrow> u64 \<Rightarrow> fdtables \<Rightarrow> fdtables panics" where
  "copy_fdtable_for_cage srccageid newcageid st =
     (case fdtable st srccageid of
        None \<Rightarrow> Panic ''Unknown cageid in fdtable access''
      | Some hmcopy \<Rightarrow>
          if check_cage_exists st newcageid then Panic ''Known cageid in fdtable access''
          else
            (let st1 = fold increment_fdcount (open_entries hmcopy) st in
             Returns (st1\<lparr> fdtable := (fdtable st1)(newcageid \<mapsto> hmcopy) \<rparr>)))"

definition remove_cage_from_fdtable :: "close_answers \<Rightarrow> u64 \<Rightarrow> fdtables \<Rightarrow> fdtables panics" where
  "remove_cage_from_fdtable answers cageid st =
     (case fdtable st cageid of
        None \<Rightarrow> Returns st
      | Some myfdrow \<Rightarrow> decrement_all answers (open_entries myfdrow) (st\<lparr> fdtable := (fdtable st)(cageid := None) \<rparr>))"

definition empty_fds_for_exec :: "close_answers \<Rightarrow> u64 \<Rightarrow> fdtables \<Rightarrow> fdtables panics" where
  "empty_fds_for_exec answers cageid st =
     (case fdtable st cageid of
        None \<Rightarrow> Panic ''Unknown cageid in fdtable access''
      | Some myfdrow \<Rightarrow>
          (let closevec = filter should_cloexec (open_entries myfdrow);
               kept = map (\<lambda>item. case item of None \<Rightarrow> None | Some e \<Rightarrow> if should_cloexec e then None else Some e) myfdrow in
           decrement_all answers closevec (st\<lparr> fdtable := (fdtable st)(cageid \<mapsto> kept) \<rparr>)))"

definition return_fdtable_copy :: "fdtables \<Rightarrow> u64 \<Rightarrow> (u64 \<rightharpoonup> FDTableEntry) panics" where
  "return_fdtable_copy st cageid =
     (case fdtable st cageid of
        None \<Rightarrow> Panic ''Unknown cageid in fdtable access''
      | Some myfdrow \<Rightarrow> Returns (\<lambda>item. if FD_PER_PROCESS_MAX \<le> item then None else myfdrow ! unat item))"

definition close_virtualfd :: "close_answers \<Rightarrow> u64 \<Rightarrow> u64 \<Rightarrow> fdtables \<Rightarrow> ((u64 + unit) \<times> fdtables) panics" where
  "close_virtualfd answers cageid virtfd st =
     (if FD_PER_PROCESS_MAX \<le> virtfd then Returns (Inl EBADFD, st)
      else
        (case fdtable st cageid of
           None \<Rightarrow> Panic ''Unknown cageid in fdtable access''
         | Some myfdrow \<Rightarrow>
             (case myfdrow ! unat virtfd of
                None \<Rightarrow> Returns (Inl EBADFD, st)
              | Some e \<Rightarrow>
                  handler_result (decrement_fdcount answers e
                    (st\<lparr> fdtable := (fdtable st)(cageid \<mapsto> myfdrow[unat virtfd := None]) \<rparr>)))))"

definition register_close_handlers :: "u32 \<Rightarrow> u64 \<Rightarrow> u64 \<Rightarrow> fdtables \<Rightarrow> fdtables" where
  "register_close_handlers kind intermediate_fn last_fn st =
     st\<lparr> closehandlertable := (closehandlertable st)(kind \<mapsto> \<lparr> intermediate_close = intermediate_fn, last_close = last_fn \<rparr>) \<rparr>"

section \<open>The contract of a counter\<close>

text \<open>A counter knows how often each key is held and says, when one reference is given up, how many are
  left. \<open>told\<close> are the reports made so far, \<open>says\<close> the report about an element with the number
  of references left, \<open>rest\<close> what counting does not touch.\<close>

locale ref_counter =
  fixes key :: "'e \<Rightarrow> 'k"
    and holds :: "'s \<Rightarrow> 'k multiset \<Rightarrow> bool"
    and inc :: "'e \<Rightarrow> 's \<Rightarrow> 's"
    and dec :: "'e \<Rightarrow> 's \<Rightarrow> ('r option \<times> 's) panics"
    and limit :: nat
    and told :: "'s \<Rightarrow> 'c list"
    and says :: "'s \<Rightarrow> 'e \<Rightarrow> nat \<Rightarrow> 'c list"
    and rest :: "'s \<Rightarrow> 'x"
  assumes inc_holds: "holds s M \<Longrightarrow> holds (inc e s) (add_mset (key e) M)"
    and inc_frame: "told (inc e s) = told s" "says (inc e s) = says s" "rest (inc e s) = rest s"
    and dec_holds: "holds s (add_mset (key e) M) \<Longrightarrow> size M < limit \<Longrightarrow>
      \<exists>r s'. dec e s = Returns (r, s') \<and> holds s' M \<and> told s' = told s @ says s e (count M (key e))
        \<and> says s' = says s \<and> rest s' = rest s"
begin

lemma inc_all:
  "holds s M \<Longrightarrow> holds (fold inc es s) (mset (map key es) + M)
     \<and> told (fold inc es s) = told s \<and> says (fold inc es s) = says s \<and> rest (fold inc es s) = rest s"
proof (induction es arbitrary: s M)
  case (Cons e es)
  show ?case using Cons.IH [OF inc_holds [OF Cons.prems, of e]] by (simp add: inc_frame)
qed simp

fun dec_all :: "'e list \<Rightarrow> 's \<Rightarrow> 's panics" where
  "dec_all [] s = Returns s"
| "dec_all (e # es) s =
     (case dec e s of
        Panic why \<Rightarrow> Panic why
      | Returns (None, s1) \<Rightarrow> dec_all es s1
      | Returns (Some errno, s1) \<Rightarrow> Panic ''Error decrementing fd count'')"

text \<open>The reports about a list of elements, when \<open>M\<close> is held besides.\<close>

fun all_say :: "'s \<Rightarrow> 'k multiset \<Rightarrow> 'e list \<Rightarrow> 'c list" where
  "all_say s M [] = []"
| "all_say s M (e # es) = says s e (count (mset (map key es) + M) (key e)) @ all_say s M es"

lemma all_say_cong: "says s = says s' \<Longrightarrow> all_say s M es = all_say s' M es"
  by (induction es) simp_all

lemma dec_all_outcomes:
  assumes "holds s (mset (map key es) + M)" and "size (mset (map key es) + M) \<le> limit"
  shows "(\<exists>s'. dec_all es s = Returns s' \<and> holds s' M \<and> told s' = told s @ all_say s M es
      \<and> says s' = says s \<and> rest s' = rest s)
    \<or> dec_all es s = Panic ''Error decrementing fd count''"
  using assms
proof (induction es arbitrary: s)
  case (Cons e es)
  then have "holds s (add_mset (key e) (mset (map key es) + M))" "size (mset (map key es) + M) < limit" by simp_all
  from dec_holds [OF this] obtain r s1 where
    d: "dec e s = Returns (r, s1)" "holds s1 (mset (map key es) + M)" "says s1 = says s" "rest s1 = rest s"
      "told s1 = told s @ says s e (count (mset (map key es) + M) (key e))"
    by blast
  have "size (mset (map key es) + M) \<le> limit" using Cons.prems(2) by simp
  note ih = Cons.IH [OF d(2) this]
  show ?case
  proof (cases r)
    case None
    then show ?thesis using ih d all_say_cong [OF d(3)] by auto
  next
    case (Some errno)
    then show ?thesis using d(1) by simp
  qed
qed simp

text \<open>Where all of the elements are held besides, giving them up leaves at least one reference to each.\<close>

lemma all_say_kept:
  assumes "set (map key es) \<subseteq> set_mset M" and "c \<in> set (all_say s M es)"
  shows "\<exists>e n. 0 < n \<and> c \<in> set (says s e n)"
  using assms
proof (induction es)
  case (Cons e es)
  have pos: "0 < count (mset (map key es) + M) (key e)" using Cons.prems(1) by simp
  consider "c \<in> set (says s e (count (mset (map key es) + M) (key e)))" | "c \<in> set (all_say s M es)"
    using Cons.prems(2) by auto
  then show ?case
  proof cases
    case 1
    with pos show ?thesis by blast
  next
    case 2
    with Cons show ?thesis by simp
  qed
qed simp

lemma dec_all_returns:
  assumes "holds s (mset (map key es) + M)" and "size (mset (map key es) + M) \<le> limit"
    and "\<And>e s r s'. dec e s = Returns (r, s') \<Longrightarrow> r = None"
  shows "\<exists>s'. dec_all es s = Returns s'"
  using assms(1,2)
proof (induction es arbitrary: s)
  case (Cons e es)
  then have "holds s (add_mset (key e) (mset (map key es) + M))" "size (mset (map key es) + M) < limit" by simp_all
  from dec_holds [OF this] obtain r s1 where d: "dec e s = Returns (r, s1)" "holds s1 (mset (map key es) + M)" by blast
  have "size (mset (map key es) + M) \<le> limit" using Cons.prems(2) by simp
  with Cons.IH [OF d(2)] d(1) assms(3) [OF d(1)] show ?case by simp
qed simp

end

section \<open>The counts\<close>

definition open_file :: "FDTableEntry \<Rightarrow> u32 \<times> u64" where
  "open_file e = (fdkind e, underfd e)"

definition counts_of :: "(u32 \<times> u64) multiset \<Rightarrow> u32 \<times> u64 \<rightharpoonup> u64" where
  "counts_of M = (\<lambda>k. if count M k = 0 then None else Some (of_nat (count M k)))"

definition close_report :: "fdtables \<Rightarrow> FDTableEntry \<Rightarrow> nat \<Rightarrow> close_call list" where
  "close_report st e n =
     (case closehandlertable st (fdkind e) of
        None \<Rightarrow> []
      | Some ch \<Rightarrow> [if n = 0 then Close_Call (last_close ch) e 0 else Close_Call (intermediate_close ch) e (of_nat n)])"

lemma counts_of_add: "counts_of (add_mset k M) = (counts_of M)(k \<mapsto> (case counts_of M k of None \<Rightarrow> 1 | Some n \<Rightarrow> n + 1))"
  by (rule ext) (simp add: counts_of_def del: count_greater_zero_iff)

lemma counts_of_remove: "counts_of M = (counts_of (add_mset k M))(k := (if count M k = 0 then None else Some (of_nat (count M k))))"
  by (rule ext) (simp add: counts_of_def del: count_greater_zero_iff)

lemma increment_frame [simp]:
  "fdtable (increment_fdcount e st) = fdtable st" "closehandlertable (increment_fdcount e st) = closehandlertable st"
  "close_calls (increment_fdcount e st) = close_calls st"
  by (simp_all add: increment_fdcount_def Let_def split: option.split)

lemma close_report_frame [simp]:
  "close_report (increment_fdcount e st) = close_report st" "close_report (st\<lparr> fdtable := t \<rparr>) = close_report st"
  "close_report (st\<lparr> fdcount := c \<rparr>) = close_report st" "close_report (st\<lparr> close_calls := l \<rparr>) = close_report st"
  by (intro ext, simp add: close_report_def)+

lemma increment_counts:
  "fdcount st = counts_of M \<Longrightarrow> increment_fdcount e st = st\<lparr> fdcount := counts_of (add_mset (open_file e) M) \<rparr>"
  by (auto simp: increment_fdcount_def Let_def counts_of_add open_file_def split: option.split)

lemma decrement_counts:
  assumes "fdcount st = counts_of (add_mset (open_file e) M)" and "size M < 2 ^ 64 - 1"
  shows "decrement_fdcount answers e st =
    (let calls = close_calls st @ close_report st e (count M (open_file e)) in
     Returns (if close_report st e (count M (open_file e)) = [] then None else answers calls,
       st\<lparr> fdcount := counts_of M, close_calls := calls \<rparr>))"
proof -
  let ?n = "count M (open_file e)"
  have n: "?n < 2 ^ 64 - 1" using assms(2) count_le_size [of M "open_file e"] by linarith
  have old: "fdcount st (open_file e) = Some (of_nat ?n + 1)" by (simp add: assms(1) counts_of_def)
  have "unat (of_nat ?n + 1 :: u64) = ?n + 1" using n by (simp add: unat_of_nat unat_word_ariths)
  then have pos: "(of_nat ?n + 1 :: u64) \<noteq> 0" by auto
  have zero: "(of_nat ?n :: u64) = 0 \<longleftrightarrow> ?n = 0" using n dvd_imp_le [of "2 ^ 64" ?n] by (auto simp: word_of_nat_eq_0_iff)
  have less: "(0 :: u64) < of_nat ?n \<longleftrightarrow> ?n \<noteq> 0" using zero by (simp add: word_gt_0)
  have new: "counts_of M = (if ?n = 0 then (fdcount st)(open_file e := None) else (fdcount st)(open_file e \<mapsto> of_nat ?n))"
    unfolding assms(1) by (subst counts_of_remove [of M "open_file e"]) (simp del: count_greater_zero_iff)
  have upd: "(if 0 < (of_nat ?n :: u64) then (fdcount st)(open_file e \<mapsto> of_nat ?n) else (fdcount st)(open_file e := None)) = counts_of M"
    unfolding new less by (simp del: count_greater_zero_iff)
  have "decrement_fdcount answers e st =
    Returns (case closehandlertable st (fdkind e) of
        None \<Rightarrow> (None, st\<lparr> fdcount := counts_of M \<rparr>)
      | Some ch \<Rightarrow> if ?n \<noteq> 0 then call_close answers (intermediate_close ch) e (of_nat ?n) (st\<lparr> fdcount := counts_of M \<rparr>)
                  else call_close answers (last_close ch) e 0 (st\<lparr> fdcount := counts_of M \<rparr>))"
    unfolding decrement_fdcount_def Let_def open_file_def [symmetric] old option.case if_not_P [OF pos] add_diff_cancel_right' upd
    unfolding less by (rule refl)
  then show ?thesis
    by (cases "closehandlertable st (fdkind e)") (simp_all add: call_close_def close_report_def Let_def del: count_greater_zero_iff)
qed

interpretation fdc: ref_counter open_file "\<lambda>st M. fdcount st = counts_of M" increment_fdcount "decrement_fdcount answers"
  "2 ^ 64 - 1" close_calls close_report "\<lambda>st. (fdtable st, closehandlertable st)" for answers
proof unfold_locales
  fix st :: fdtables and e M assume "fdcount st = counts_of (add_mset (open_file e) M)" "size M < 2 ^ 64 - 1"
  note decrement_counts [OF this, of answers]
  then show "\<exists>r st'. decrement_fdcount answers e st = Returns (r, st') \<and> fdcount st' = counts_of M
      \<and> close_calls st' = close_calls st @ close_report st e (count M (open_file e))
      \<and> close_report st' = close_report st \<and> (fdtable st', closehandlertable st') = (fdtable st, closehandlertable st)"
    by (simp add: Let_def)
qed (simp_all add: increment_counts)

section \<open>Open files\<close>

definition slot_files :: "FDTableEntry option \<Rightarrow> (u32 \<times> u64) multiset" where
  "slot_files x = (case x of None \<Rightarrow> {#} | Some e \<Rightarrow> {#open_file e#})"

definition row_files :: "fdrow \<Rightarrow> (u32 \<times> u64) multiset" where
  "row_files row = mset (map open_file (open_entries row))"

text \<open>Every reference of every cage.\<close>

definition files_of :: "(u64 \<rightharpoonup> fdrow) \<Rightarrow> (u32 \<times> u64) multiset" where
  "files_of T = (\<Sum>c \<in> dom T. row_files (the (T c)))"

definition fd_shape :: "(u64 \<rightharpoonup> fdrow) \<Rightarrow> bool" where
  "fd_shape T \<longleftrightarrow> (\<forall>c row. T c = Some row \<longrightarrow> c < MAX_CAGEID \<and> length row = unat FD_PER_PROCESS_MAX)"

definition fdtables_ok :: "fdtables \<Rightarrow> bool" where
  "fdtables_ok st \<longleftrightarrow> fd_shape (fdtable st) \<and> fdcount st = counts_of (files_of (fdtable st))"

lemma open_entries_simps [simp]:
  "open_entries [] = []" "open_entries (None # row) = open_entries row" "open_entries (Some e # row) = e # open_entries row"
  "open_entries (xs @ ys) = open_entries xs @ open_entries ys" "open_entries (replicate n None) = []"
  by (induction xs; induction n; simp add: open_entries_def map_filter_def)+

lemma slot_files_simps [simp]: "slot_files None = {#}" "slot_files (Some e) = {#open_file e#}"
  by (simp_all add: slot_files_def)

lemma row_files_simps [simp]:
  "row_files [] = {#}" "row_files (x # row) = slot_files x + row_files row"
  "row_files (xs @ ys) = row_files xs + row_files ys" "row_files (replicate n None) = {#}"
  by (simp_all add: row_files_def) (cases x; simp)

lemma row_files_update:
  assumes "i < length row"
  shows "row_files (row[i := x]) = slot_files x + row_files (row[i := None])"
  using assms by (simp add: upd_conv_take_nth_drop)

lemma row_files_at: "i < length row \<Longrightarrow> row_files row = slot_files (row ! i) + row_files (row[i := None])"
  using row_files_update [of i row "row ! i"] by simp

lemma size_row_files: "size (row_files row) \<le> length row"
proof (induction row)
  case (Cons x row)
  then show ?case by (cases x) simp_all
qed simp

lemma files_remove: "T c = Some row \<Longrightarrow> files_of T = row_files row + files_of (T(c := None))"
proof -
  assume c: "T c = Some row"
  have "files_of T = row_files row + (\<Sum>d \<in> dom T - {c}. row_files (the (T d)))"
    unfolding files_of_def using c by (subst sum.remove [of _ c]) auto
  also have "(\<Sum>d \<in> dom T - {c}. row_files (the (T d))) = files_of (T(c := None))"
    unfolding files_of_def by (rule sum.cong) auto
  finally show ?thesis .
qed

lemma files_upd: "files_of (T(c \<mapsto> row)) = row_files row + files_of (T(c := None))"
  using files_remove [of "T(c \<mapsto> row)" c row] by simp

lemma files_new: "T c = None \<Longrightarrow> files_of (T(c \<mapsto> row)) = row_files row + files_of T"
  by (simp add: files_upd fun_upd_idem)

lemma files_slot:
  assumes "T c = Some row" and "i < length row"
  shows "files_of (T(c \<mapsto> row[i := x])) + slot_files (row ! i) = slot_files x + files_of T"
  using row_files_update [OF assms(2), of x] row_files_at [OF assms(2)] files_remove [of T c row, OF assms(1)]
  by (simp add: files_upd ac_simps)

text \<open>There are far fewer references than a counter can hold.\<close>

lemma size_files:
  assumes "fd_shape T"
  shows "size (files_of T) \<le> 2 ^ 21"
proof -
  have "dom T \<subseteq> of_nat ` {..<2048}"
  proof
    fix c assume "c \<in> dom T"
    then have "c < 2048" using assms by (auto simp: fd_shape_def MAX_CAGEID_def)
    then have "unat c < 2048" by (simp add: word_less_nat_alt)
    then show "c \<in> of_nat ` {..<2048}" by (intro image_eqI [of _ _ "unat c"]) simp_all
  qed
  then have "card (dom T) \<le> 2048" using surj_card_le [of "{..<2048 :: nat}" "dom T" of_nat] by simp
  moreover have "size (files_of T) = (\<Sum>c \<in> dom T. size (row_files (the (T c))))" unfolding files_of_def by (simp add: size_multiset_sum)
  moreover have "(\<Sum>c \<in> dom T. size (row_files (the (T c)))) \<le> card (dom T) * 1024"
  proof (rule sum_bounded_above [where K = "1024 :: nat", simplified])
    fix c assume "c \<in> dom T"
    then have "length (the (T c)) = 1024" using assms by (auto simp: fd_shape_def FD_PER_PROCESS_MAX_def)
    then show "size (row_files (the (T c))) \<le> 1024" using size_row_files [of "the (T c)"] by simp
  qed
  ultimately show ?thesis by simp
qed

section \<open>The counts are exact\<close>

lemma fd_shapeD: "fd_shape T \<Longrightarrow> T c = Some row \<Longrightarrow> c < MAX_CAGEID \<and> length row = unat FD_PER_PROCESS_MAX"
  by (simp add: fd_shape_def)

lemma fd_shape_upd: "fd_shape T \<Longrightarrow> c < MAX_CAGEID \<Longrightarrow> length row = unat FD_PER_PROCESS_MAX \<Longrightarrow> fd_shape (T(c \<mapsto> row))"
  by (simp add: fd_shape_def)

lemma fd_shape_delete: "fd_shape T \<Longrightarrow> fd_shape (T(c := None))"
  by (simp add: fd_shape_def)

lemma fd_shape_row: "fd_shape T \<Longrightarrow> T c = Some row \<Longrightarrow> length row' = length row \<Longrightarrow> fd_shape (T(c \<mapsto> row'))"
  using fd_shapeD [of T c row] by (simp add: fd_shape_upd)

text \<open>Giving up a reference that the tables no longer have.\<close>

lemma decrement_ok:
  assumes "fd_shape (fdtable st)" and "fdcount st = counts_of (add_mset (open_file e) (files_of (fdtable st)))"
  shows "decrement_fdcount answers e st =
    (let report = close_report st e (count (files_of (fdtable st)) (open_file e)); calls = close_calls st @ report in
     Returns (if report = [] then None else answers calls, st\<lparr> fdcount := counts_of (files_of (fdtable st)), close_calls := calls \<rparr>))"
proof -
  have "size (files_of (fdtable st)) < 2 ^ 64 - 1" using size_files [OF assms(1)] by simp
  from decrement_counts [OF assms(2) this, of answers] show ?thesis by (simp add: Let_def)
qed

lemma decrement_all_eq: "decrement_all answers es st = fdc.dec_all answers es st"
  by (induction es arbitrary: st) (auto split: panics.split option.split)

text \<open>No call runs into the panics of the counters, and every call that returns keeps the counts.\<close>

definition sound :: "fdtables panics \<Rightarrow> bool" where
  "sound r \<longleftrightarrow>
     (case r of Returns st \<Rightarrow> fdtables_ok st | Panic why \<Rightarrow> why \<notin> {''FDCOUNT get failed'', ''FDCOUNT underflow''})"

lemma sound_simps [simp]:
  "sound (Returns st) = fdtables_ok st" "sound (Panic why) \<longleftrightarrow> why \<notin> {''FDCOUNT get failed'', ''FDCOUNT underflow''}"
  by (simp_all add: sound_def)

lemma sound_decrement:
  assumes "fd_shape (fdtable st)" and "fdcount st = counts_of (add_mset (open_file e) (files_of (fdtable st)))"
  shows "sound (map_panics snd (handler_result (decrement_fdcount answers e st)))"
  using assms(1) by (simp add: decrement_ok [OF assms] Let_def handler_result_def fdtables_ok_def split: option.split)

lemma sound_decrement_all:
  assumes "fd_shape (fdtable st)" and "fdcount st = counts_of (mset (map open_file es) + files_of (fdtable st))"
    and "length es \<le> unat FD_PER_PROCESS_MAX"
  shows "sound (decrement_all answers es st)"
proof -
  have "size (mset (map open_file es) + files_of (fdtable st)) \<le> 2 ^ 64 - 1"
    using size_files [OF assms(1)] assms(3) by (simp add: FD_PER_PROCESS_MAX_def)
  from fdc.dec_all_outcomes [OF assms(2) this, of answers] show ?thesis
    using assms(1) by (auto simp: decrement_all_eq fdtables_ok_def)
qed

lemma sound_init: "fdtables_ok st \<Longrightarrow> c < MAX_CAGEID \<Longrightarrow> sound (init_empty_cage c st)"
  by (auto simp: init_empty_cage_def check_cage_exists_def fdtables_ok_def fd_shape_upd files_new split: option.split_asm)

lemma sound_take_unused:
  assumes "fdtables_ok st"
  shows "sound (map_panics snd (take_unused start c e st))"
proof (cases "fdtable st c")
  case (Some row)
  have row: "fd_shape (fdtable st)" "fdcount st = counts_of (files_of (fdtable st))" using assms by (simp_all add: fdtables_ok_def)
  show ?thesis
  proof (cases "List.find (\<lambda>i. row ! i = None) [start..<unat FD_PER_PROCESS_MAX]")
    case None
    then show ?thesis using assms Some by (simp add: take_unused_def)
  next
    case (Some i)
    then have i: "row ! i = None" "i < length row"
      using fd_shapeD [OF row(1) \<open>fdtable st c = Some row\<close>] by (auto simp: find_Some_iff)
    have files: "files_of ((fdtable st)(c \<mapsto> row[i := Some e])) = add_mset (open_file e) (files_of (fdtable st))"
      using files_slot [of "fdtable st" c row i "Some e"] \<open>fdtable st c = Some row\<close> i by simp
    have shape: "fd_shape ((fdtable st)(c \<mapsto> row[i := Some e]))" by (rule fd_shape_row [OF row(1) \<open>fdtable st c = Some row\<close>]) simp
    show ?thesis using Some \<open>fdtable st c = Some row\<close> row(2) files shape
      by (simp add: take_unused_def fdtables_ok_def increment_counts [of _ "files_of (fdtable st)"])
  qed
qed (simp add: take_unused_def)

lemma sound_specific:
  assumes "fdtables_ok st"
  shows "sound (map_panics snd (get_specific_virtual_fd answers c fd kind ufd cloexec info st))"
proof (cases "fdtable st c")
  case (Some row)
  let ?e = "\<lparr> fdkind = kind, underfd = ufd, should_cloexec = cloexec, perfdinfo = info \<rparr>" and ?i = "unat fd"
  let ?T = "(fdtable st)(c \<mapsto> row[?i := Some ?e])"
  have ok: "fd_shape (fdtable st)" "fdcount st = counts_of (files_of (fdtable st))" using assms by (simp_all add: fdtables_ok_def)
  show ?thesis
  proof (cases "FD_PER_PROCESS_MAX < fd \<or> length row \<le> ?i")
    case True
    then show ?thesis using assms Some by (auto simp: get_specific_virtual_fd_def Let_def)
  next
    case False
    have shape: "fd_shape ?T" by (rule fd_shape_row [OF ok(1) Some]) simp
    have files: "files_of ?T + slot_files (row ! ?i) = add_mset (open_file ?e) (files_of (fdtable st))"
      using files_slot [of "fdtable st" c row ?i "Some ?e"] Some False by simp
    show ?thesis
    proof (cases "row ! ?i")
      case None
      then show ?thesis using False Some files shape ok(2)
        by (simp add: get_specific_virtual_fd_def Let_def fdtables_ok_def increment_counts [of _ "files_of (fdtable st)"])
    next
      case (Some old)
      let ?st = "st\<lparr> fdcount := counts_of (add_mset (open_file ?e) (files_of (fdtable st))), fdtable := ?T \<rparr>"
      have "sound (map_panics snd (handler_result (decrement_fdcount answers old ?st)))"
        using shape files Some by (intro sound_decrement) simp_all
      then show ?thesis using False Some \<open>fdtable st c = Some row\<close> ok(2)
        by (simp add: get_specific_virtual_fd_def Let_def increment_counts [of _ "files_of (fdtable st)"])
    qed
  qed
qed (simp add: get_specific_virtual_fd_def)

lemma sound_change:
  assumes "fdtables_ok st" and "\<And>e. open_file (f e) = open_file e"
  shows "sound (map_panics snd (change_entry f c fd st))"
proof (cases "fdtable st c")
  case (Some row)
  have ok: "fd_shape (fdtable st)" "fdcount st = counts_of (files_of (fdtable st))" using assms(1) by (simp_all add: fdtables_ok_def)
  have "fd_shape ((fdtable st)(c \<mapsto> row[unat fd := x]))" for x by (rule fd_shape_row [OF ok(1) Some]) simp
  moreover have "files_of ((fdtable st)(c \<mapsto> row[unat fd := Some (f e)])) = files_of (fdtable st)"
    if "unat fd < length row" "row ! unat fd = Some e" for e
    using files_slot [of "fdtable st" c row "unat fd" "Some (f e)"] Some that assms(2) by simp
  ultimately show ?thesis using Some assms(1) ok(2) by (auto simp: change_entry_def Let_def fdtables_ok_def split: option.split)
qed (simp add: change_entry_def)

lemma increment_all:
  assumes "fdcount st = counts_of M"
  shows "fdcount (fold increment_fdcount es st) = counts_of (mset (map open_file es) + M)"
    "fdtable (fold increment_fdcount es st) = fdtable st" "closehandlertable (fold increment_fdcount es st) = closehandlertable st"
    "close_calls (fold increment_fdcount es st) = close_calls st"
  using fdc.inc_all [OF assms, of es] by simp_all

lemma sound_copy:
  assumes "fdtables_ok st" and "n < MAX_CAGEID"
  shows "sound (copy_fdtable_for_cage s n st)"
proof (cases "fdtable st s")
  case (Some row)
  have ok: "fd_shape (fdtable st)" "fdcount st = counts_of (files_of (fdtable st))" using assms(1) by (simp_all add: fdtables_ok_def)
  have "fd_shape ((fdtable st)(n \<mapsto> row))" using fd_shapeD [OF ok(1) Some] assms(2) by (intro fd_shape_upd [OF ok(1)]) simp_all
  then show ?thesis using Some increment_all [OF ok(2), of "open_entries row"]
    by (auto simp: copy_fdtable_for_cage_def Let_def check_cage_exists_def fdtables_ok_def files_new row_files_def split: option.split)
qed (simp add: copy_fdtable_for_cage_def)

lemma length_open_entries: "length (open_entries row) \<le> length row"
  using size_row_files [of row] by (simp add: row_files_def)

lemma sound_remove:
  assumes "fdtables_ok st"
  shows "sound (remove_cage_from_fdtable answers c st)"
proof (cases "fdtable st c")
  case (Some row)
  have ok: "fd_shape (fdtable st)" "fdcount st = counts_of (files_of (fdtable st))" using assms by (simp_all add: fdtables_ok_def)
  have "length (open_entries row) \<le> unat FD_PER_PROCESS_MAX" using length_open_entries [of row] fd_shapeD [OF ok(1) Some] by simp
  then have "sound (decrement_all answers (open_entries row) (st\<lparr> fdtable := (fdtable st)(c := None) \<rparr>))"
    using ok files_remove [of "fdtable st" c row] Some
    by (intro sound_decrement_all) (simp_all add: fd_shape_delete row_files_def)
  then show ?thesis using Some by (simp add: remove_cage_from_fdtable_def)
qed (simp add: remove_cage_from_fdtable_def assms)

definition kept_slot :: "FDTableEntry option \<Rightarrow> FDTableEntry option" where
  "kept_slot item = (case item of None \<Rightarrow> None | Some e \<Rightarrow> if should_cloexec e then None else Some e)"

lemma kept_files: "row_files row = mset (map open_file (filter should_cloexec (open_entries row))) + row_files (map kept_slot row)"
proof (induction row)
  case (Cons x row)
  then show ?case by (cases x) (simp_all add: kept_slot_def)
qed simp

lemma exec_eq:
  "fdtable st c = Some row \<Longrightarrow> empty_fds_for_exec answers c st =
     decrement_all answers (filter should_cloexec (open_entries row)) (st\<lparr> fdtable := (fdtable st)(c \<mapsto> map kept_slot row) \<rparr>)"
  by (simp add: empty_fds_for_exec_def kept_slot_def [abs_def] Let_def)

lemma sound_exec:
  assumes "fdtables_ok st"
  shows "sound (empty_fds_for_exec answers c st)"
proof (cases "fdtable st c")
  case (Some row)
  have ok: "fd_shape (fdtable st)" "fdcount st = counts_of (files_of (fdtable st))" using assms by (simp_all add: fdtables_ok_def)
  have "length (filter should_cloexec (open_entries row)) \<le> unat FD_PER_PROCESS_MAX"
    using length_filter_le [of should_cloexec "open_entries row"] length_open_entries [of row] fd_shapeD [OF ok(1) Some] by linarith
  moreover have "fd_shape ((fdtable st)(c \<mapsto> map kept_slot row))" by (rule fd_shape_row [OF ok(1) Some]) simp
  moreover have "files_of (fdtable st) = mset (map open_file (filter should_cloexec (open_entries row))) + files_of ((fdtable st)(c \<mapsto> map kept_slot row))"
    using files_remove [of "fdtable st" c row] Some kept_files [of row] by (simp add: files_upd)
  ultimately show ?thesis unfolding exec_eq [OF Some] using ok(2) by (intro sound_decrement_all) simp_all
qed (simp add: empty_fds_for_exec_def)

lemma close_step:
  assumes "fdtables_ok st" and "fdtable st c = Some row" and "fd < FD_PER_PROCESS_MAX" and "row ! unat fd = Some e"
    and "T = (fdtable st)(c \<mapsto> row[unat fd := None])"
  shows "fd_shape T" and "files_of (fdtable st) = add_mset (open_file e) (files_of T)"
    and "close_virtualfd answers c fd st = handler_result (decrement_fdcount answers e (st\<lparr> fdtable := T \<rparr>))"
proof -
  have ok: "fd_shape (fdtable st)" using assms(1) by (simp add: fdtables_ok_def)
  show "fd_shape T" unfolding assms(5) by (rule fd_shape_row [OF ok assms(2)]) simp
  have "unat fd < length row" using assms(3) fd_shapeD [OF ok assms(2)] by (simp add: word_less_nat_alt)
  then show "files_of (fdtable st) = add_mset (open_file e) (files_of T)"
    using files_slot [of "fdtable st" c row "unat fd" None] assms(2,4) by (simp add: assms(5))
  show "close_virtualfd answers c fd st = handler_result (decrement_fdcount answers e (st\<lparr> fdtable := T \<rparr>))"
    using assms(2-4) by (simp add: close_virtualfd_def assms(5) not_less [symmetric])
qed

lemma sound_close:
  assumes "fdtables_ok st"
  shows "sound (map_panics snd (close_virtualfd answers c fd st))"
proof (cases "\<exists>row e. fd < FD_PER_PROCESS_MAX \<and> fdtable st c = Some row \<and> row ! unat fd = Some e")
  case True
  then obtain row e where r: "fd < FD_PER_PROCESS_MAX" "fdtable st c = Some row" "row ! unat fd = Some e" by blast
  note step = close_step [OF assms r(2,1,3) refl]
  have "sound (map_panics snd (handler_result (decrement_fdcount answers e (st\<lparr> fdtable := (fdtable st)(c \<mapsto> row[unat fd := None]) \<rparr>))))"
    using step(1,2) assms by (intro sound_decrement) (simp_all add: fdtables_ok_def)
  then show ?thesis by (simp add: step(3))
next
  case False
  then show ?thesis using assms by (auto simp: close_virtualfd_def not_le split: option.split)
qed

section \<open>Sequences of operations\<close>

datatype fd_op =
    Init u64
  | Unused u64 u32 u64 bool u64
  | Unused_From u64 u32 u64 bool u64 u64
  | Specific u64 u64 u32 u64 bool u64
  | Cloexec u64 u64 bool
  | Perfdinfo u64 u64 u64
  | Fork u64 u64
  | Exit u64
  | Exec u64
  | Close u64 u64
  | Handlers u32 u64 u64

fun fd_step :: "close_answers \<Rightarrow> fd_op \<Rightarrow> fdtables \<Rightarrow> fdtables panics" where
  "fd_step answers (Init c) st = init_empty_cage c st"
| "fd_step answers (Unused c kind ufd cloexec info) st = map_panics snd (get_unused_virtual_fd c kind ufd cloexec info st)"
| "fd_step answers (Unused_From c kind ufd cloexec info arg) st =
     map_panics snd (get_unused_virtual_fd_from_startfd c kind ufd cloexec info arg st)"
| "fd_step answers (Specific c fd kind ufd cloexec info) st =
     map_panics snd (get_specific_virtual_fd answers c fd kind ufd cloexec info st)"
| "fd_step answers (Cloexec c fd b) st = map_panics snd (set_cloexec c fd b st)"
| "fd_step answers (Perfdinfo c fd info) st = map_panics snd (set_perfdinfo c fd info st)"
| "fd_step answers (Fork s n) st = copy_fdtable_for_cage s n st"
| "fd_step answers (Exit c) st = remove_cage_from_fdtable answers c st"
| "fd_step answers (Exec c) st = empty_fds_for_exec answers c st"
| "fd_step answers (Close c fd) st = map_panics snd (close_virtualfd answers c fd st)"
| "fd_step answers (Handlers kind i l) st = Returns (register_close_handlers kind i l st)"

fun fd_run :: "close_answers \<Rightarrow> fd_op list \<Rightarrow> fdtables \<Rightarrow> fdtables panics" where
  "fd_run answers [] st = Returns st"
| "fd_run answers (op # ops) st =
     (case fd_step answers op st of Panic why \<Rightarrow> Panic why | Returns st1 \<Rightarrow> fd_run answers ops st1)"

text \<open>New cages have numbers below the bound of the platform.\<close>

fun creates :: "fd_op \<Rightarrow> u64 option" where
  "creates (Init c) = Some c"
| "creates (Fork s n) = Some n"
| "creates _ = None"

definition cage_numbers :: "fd_op \<Rightarrow> bool" where
  "cage_numbers op \<longleftrightarrow> (case creates op of None \<Rightarrow> True | Some c \<Rightarrow> c < MAX_CAGEID)"

definition no_fdtables :: fdtables where
  "no_fdtables = \<lparr> fdtable = Map.empty, fdcount = Map.empty, closehandlertable = Map.empty, close_calls = [] \<rparr>"

lemma sound_step: "fdtables_ok st \<Longrightarrow> cage_numbers op \<Longrightarrow> sound (fd_step answers op st)"
  by (cases op)
    (simp_all add: cage_numbers_def sound_init sound_take_unused get_unused_virtual_fd_def get_unused_virtual_fd_from_startfd_def
      sound_specific set_cloexec_def set_perfdinfo_def sound_change open_file_def sound_copy sound_remove sound_exec sound_close
      register_close_handlers_def fdtables_ok_def [of "_\<lparr> closehandlertable := _ \<rparr>"], simp add: fdtables_ok_def)

lemma sound_run: "fdtables_ok st \<Longrightarrow> list_all cage_numbers ops \<Longrightarrow> sound (fd_run answers ops st)"
proof (induction ops arbitrary: st)
  case (Cons op ops)
  then have "sound (fd_step answers op st)" by (simp add: sound_step)
  then show ?case using Cons by (cases "fd_step answers op st") simp_all
qed simp

lemma no_fdtables_ok: "fdtables_ok no_fdtables"
  by (simp add: fdtables_ok_def no_fdtables_def fd_shape_def files_of_def counts_of_def)

section \<open>References\<close>

definition slot :: "fdtables \<Rightarrow> u64 \<Rightarrow> nat \<Rightarrow> FDTableEntry option" where
  "slot st c i = (case fdtable st c of None \<Rightarrow> None | Some row \<Rightarrow> if i < length row then row ! i else None)"

text \<open>The descriptors, of any cage, that stand for a file.\<close>

definition users :: "fdtables \<Rightarrow> u32 \<times> u64 \<Rightarrow> (u64 \<times> nat) set" where
  "users st k = {(c, i). map_option open_file (slot st c i) = Some k}"

lemma count_row: "count (row_files row) k = card {i. i < length row \<and> map_option open_file (row ! i) = Some k}"
proof -
  have "count (row_files row) k = length (filter (\<lambda>x. map_option open_file x = Some k) row)"
  proof (induction row)
    case (Cons x row)
    then show ?case by (cases x) auto
  qed simp
  then show ?thesis by (simp add: length_filter_conv_card)
qed

lemma users_Sigma:
  "users st k = (SIGMA c : dom (fdtable st).
     {i. i < length (the (fdtable st c)) \<and> map_option open_file (the (fdtable st c) ! i) = Some k})"
  by (auto simp: users_def slot_def split: option.split_asm if_split_asm)

lemma finite_users [simp]: "finite (users st k)"
  unfolding users_Sigma by simp

lemma count_users: "count (files_of (fdtable st)) k = card (users st k)"
  unfolding users_Sigma by (simp add: files_of_def count_sum count_row)

section \<open>What a cage sees\<close>

lemma find_upt:
  assumes "List.find P [a..<b] = Some i"
  shows "a \<le> i \<and> i < b \<and> P i \<and> (\<forall>j. a \<le> j \<and> j < i \<longrightarrow> \<not> P j)"
proof -
  from assms obtain k where k: "k < b - a" "P (a + k)" "i = a + k" "\<forall>j<k. \<not> P ([a..<b] ! j)"
    by (auto simp: find_Some_iff)
  have "\<not> P j" if "a \<le> j" "j < i" for j
  proof -
    have "j - a < k" "[a..<b] ! (j - a) = j" using that k(1,3) by simp_all
    then show ?thesis using k(4) by metis
  qed
  then show ?thesis using k by simp
qed

text \<open>C14: The reference counts are exact. However descriptors are opened, duplicated, inherited, closed
  and dropped by cages, the count of a file is the number of descriptors of all cages that stand for
  it, and there is no count if there are none; and no operation ever panics because a count is missing or
  would become negative.\<close>

theorem fd_counts_exact:
  assumes "list_all cage_numbers ops"
  shows "case fd_run answers ops no_fdtables of
      Returns st \<Rightarrow> (\<forall>k. fdcount st k = (if users st k = {} then None else Some (of_nat (card (users st k)))))
    | Panic why \<Rightarrow> why \<notin> {''FDCOUNT get failed'', ''FDCOUNT underflow''}"
proof (cases "fd_run answers ops no_fdtables")
  case (Panic why)
  then show ?thesis using sound_run [OF no_fdtables_ok assms, of answers] by simp
next
  case (Returns st)
  then have ok: "fdtables_ok st" using sound_run [OF no_fdtables_ok assms, of answers] by simp
  have "card (users st k) = 0 \<longleftrightarrow> users st k = {}" for k by simp
  then have "fdcount st k = (if users st k = {} then None else Some (of_nat (card (users st k))))" for k
    using ok by (simp add: fdtables_ok_def counts_of_def count_users)
  then show ?thesis using Returns by simp
qed

text \<open>C15: Closing. Closing a descriptor that is in use always returns and frees that descriptor and no
  other. The handler for the last reference is told if no descriptor of any cage stands for the file any
  more, and otherwise the other handler, with the number of descriptors that still do; an error that the
  handler answers is the result.\<close>

theorem close_virtualfd_reports:
  assumes "fdtables_ok st" and "slot st c (unat fd) = Some e" and "closehandlertable st (fdkind e) = Some ch"
  shows "\<exists>st'. close_virtualfd answers c fd st =
      Returns (case answers (close_calls st') of None \<Rightarrow> Inr () | Some errno \<Rightarrow> Inl (scast errno), st')
    \<and> (\<forall>c' i. slot st' c' i = (if (c', i) = (c, unat fd) then None else slot st c' i))
    \<and> close_calls st' = close_calls st @
        [if card (users st' (open_file e)) = 0 then Close_Call (last_close ch) e 0
         else Close_Call (intermediate_close ch) e (of_nat (card (users st' (open_file e))))]"
proof -
  obtain row where row: "fdtable st c = Some row" "unat fd < length row" "row ! unat fd = Some e"
    using assms(2) by (auto simp: slot_def split: option.split_asm if_split_asm)
  then have fd: "fd < FD_PER_PROCESS_MAX"
    using assms(1) fd_shapeD [of "fdtable st" c row] by (simp add: fdtables_ok_def word_less_nat_alt)
  define st1 where "st1 = st\<lparr> fdtable := (fdtable st)(c \<mapsto> row[unat fd := None]) \<rparr>"
  note step = close_step [OF assms(1) row(1) fd row(3) refl, folded st1_def]
  let ?n = "card (users st1 (open_file e))"
  define st2 where "st2 = st1\<lparr> fdcount := counts_of (files_of (fdtable st1)), close_calls := close_calls st1 @ close_report st1 e ?n \<rparr>"
  have shape: "fd_shape (fdtable st1)" "fdcount st1 = counts_of (add_mset (open_file e) (files_of (fdtable st1)))"
    using step(1,2) assms(1) by (simp_all add: st1_def fdtables_ok_def)
  have calls: "close_calls st2 = close_calls st @
      [if ?n = 0 then Close_Call (last_close ch) e 0 else Close_Call (intermediate_close ch) e (of_nat ?n)]"
    using assms(3) by (simp add: st2_def st1_def close_report_def)
  moreover have "close_report st1 e ?n \<noteq> []" using assms(3) by (simp add: st1_def close_report_def)
  then have "close_virtualfd answers c fd st =
      Returns (case answers (close_calls st2) of None \<Rightarrow> Inr () | Some errno \<Rightarrow> Inl (scast errno), st2)"
    unfolding step(3) decrement_ok [OF shape] count_users Let_def by (simp add: handler_result_def st2_def split: option.split)
  moreover have "slot st2 c' i = (if (c', i) = (c, unat fd) then None else slot st c' i)" for c' i
    using row by (auto simp: st2_def st1_def slot_def)
  moreover have "users st2 = users st1" by (auto simp: fun_eq_iff users_def slot_def st2_def)
  ultimately show ?thesis by (intro exI [of _ st2]) simp
qed

text \<open>C23: Opening. The descriptor handed out is the lowest free one from the requested start on, it then
  stands for the given file, and every other descriptor of every cage is as before; the error is
  reported exactly if none is free from there on, and changes nothing.\<close>

theorem unused_fd_lowest:
  assumes "fdtables_ok st" and "fdtable st c \<noteq> None"
  shows "(\<exists>fd st'. get_unused_virtual_fd_from_startfd c kind ufd cloexec info start st = Returns (Inr fd, st')
      \<and> start \<le> fd \<and> fd < FD_PER_PROCESS_MAX \<and> slot st c (unat fd) = None
      \<and> (\<forall>i. unat start \<le> i \<and> i < unat fd \<longrightarrow> slot st c i \<noteq> None)
      \<and> translate_virtual_fd st' c fd =
          Returns (Inr \<lparr> fdkind = kind, underfd = ufd, should_cloexec = cloexec, perfdinfo = info \<rparr>)
      \<and> (\<forall>c' i. (c', i) \<noteq> (c, unat fd) \<longrightarrow> slot st' c' i = slot st c' i))
    \<or> (\<forall>i. unat start \<le> i \<and> i < unat FD_PER_PROCESS_MAX \<longrightarrow> slot st c i \<noteq> None)
      \<and> get_unused_virtual_fd_from_startfd c kind ufd cloexec info start st = Returns (Inl EMFILE, st)"
proof -
  let ?e = "\<lparr> fdkind = kind, underfd = ufd, should_cloexec = cloexec, perfdinfo = info \<rparr>"
  let ?free = "List.find (\<lambda>i. slot st c i = None) [unat start..<1024]"
  obtain row where row: "fdtable st c = Some row" "length row = 1024"
    using assms fd_shapeD [of "fdtable st" c] by (fastforce simp: fdtables_ok_def FD_PER_PROCESS_MAX_def)
  have slots: "slot st c i = row ! i" if "i < 1024" for i using that row by (simp add: slot_def)
  have find: "List.find (\<lambda>i. row ! i = None) [unat start..<unat FD_PER_PROCESS_MAX] = ?free"
    unfolding FD_PER_PROCESS_MAX_def by (rule find_cong) (simp_all add: slots)
  show ?thesis
  proof (cases ?free)
    case None
    then have "slot st c i \<noteq> None" if "unat start \<le> i \<and> i < unat FD_PER_PROCESS_MAX" for i
      using that by (auto simp: find_None_iff FD_PER_PROCESS_MAX_def)
    moreover have "get_unused_virtual_fd_from_startfd c kind ufd cloexec info start st = Returns (Inl EMFILE, st)"
      by (simp add: get_unused_virtual_fd_from_startfd_def take_unused_def row find None)
    ultimately show ?thesis by blast
  next
    case (Some i)
    have i: "unat start \<le> i" "i < 1024" "slot st c i = None" and before: "\<And>j. unat start \<le> j \<Longrightarrow> j < i \<Longrightarrow> slot st c j \<noteq> None"
      using find_upt [OF Some] by auto
    then have un: "unat (of_nat i :: u64) = i" by (simp add: unat_of_nat)
    let ?st = "increment_fdcount ?e (st\<lparr> fdtable := (fdtable st)(c \<mapsto> row[i := Some ?e]) \<rparr>)"
    have "get_unused_virtual_fd_from_startfd c kind ufd cloexec info start st = Returns (Inr (of_nat i), ?st)"
      by (simp add: get_unused_virtual_fd_from_startfd_def take_unused_def row find Some)
    moreover have "start \<le> of_nat i" "(of_nat i :: u64) < FD_PER_PROCESS_MAX"
      using i un by (simp_all add: word_le_nat_alt word_less_nat_alt FD_PER_PROCESS_MAX_def)
    moreover have "translate_virtual_fd ?st c (of_nat i) = Returns (Inr ?e)"
      using i un row by (simp add: translate_virtual_fd_def word_le_nat_alt FD_PER_PROCESS_MAX_def)
    moreover have "slot ?st c' j = slot st c' j" if "(c', j) \<noteq> (c, i)" for c' j
      using that row by (auto simp: slot_def)
    ultimately show ?thesis using i un before by (intro disjI1 exI [of _ "of_nat i"] exI [of _ ?st]) simp
  qed
qed

lemma decrement_quiet:
  "\<forall>calls. answers calls = None \<Longrightarrow> decrement_fdcount answers e st = Returns (r, st') \<Longrightarrow> r = None"
  by (auto simp: decrement_fdcount_def call_close_def Let_def split: option.split_asm if_split_asm)

text \<open>C24: A child that is forked and exits closes nothing. The copy gives the new cage the descriptors of
  its parent; when the new cage exits, all tables and counts are what they were before, and of the close
  handlers only those for references that are not the last were told.\<close>

theorem fork_then_exit:
  assumes "fdtables_ok st" and "fdtable st s = Some row" and "fdtable st n = None" and "n < MAX_CAGEID"
    and "\<forall>calls. answers calls = None"
  shows "\<exists>st1 st2 calls. copy_fdtable_for_cage s n st = Returns st1 \<and> fdtable st1 = (fdtable st)(n \<mapsto> row)
    \<and> remove_cage_from_fdtable answers n st1 = Returns st2 \<and> fdtable st2 = fdtable st \<and> fdcount st2 = fdcount st
    \<and> close_calls st2 = close_calls st @ calls
    \<and> (\<forall>call \<in> set calls. \<exists>ch e m. closehandlertable st (fdkind e) = Some ch \<and> 0 < m
          \<and> call = Close_Call (intermediate_close ch) e (of_nat m))"
proof -
  let ?M = "files_of (fdtable st)" and ?es = "open_entries row"
  have ok: "fd_shape (fdtable st)" "fdcount st = counts_of ?M" using assms(1) by (simp_all add: fdtables_ok_def)
  define st0 where "st0 = fold increment_fdcount ?es st"
  have st0: "fdcount st0 = counts_of (mset (map open_file ?es) + ?M)" "fdtable st0 = fdtable st"
      "closehandlertable st0 = closehandlertable st" "close_calls st0 = close_calls st"
    unfolding st0_def by (fact increment_all [OF ok(2)])+
  define st1 where "st1 = st0\<lparr> fdtable := (fdtable st0)(n \<mapsto> row) \<rparr>"
  have copy: "copy_fdtable_for_cage s n st = Returns st1"
    using assms(2,3) by (simp add: copy_fdtable_for_cage_def check_cage_exists_def st0_def st1_def Let_def)
  have size: "size (mset (map open_file ?es) + ?M) \<le> 2 ^ 64 - 1"
    using size_files [OF ok(1)] length_open_entries [of row] fd_shapeD [OF ok(1) assms(2)] by (simp add: FD_PER_PROCESS_MAX_def)
  have undone: "st1\<lparr> fdtable := (fdtable st1)(n := None) \<rparr> = st0"
    using assms(3) st0(2) by (cases st0) (auto simp: st1_def fun_upd_idem)
  then have remove: "remove_cage_from_fdtable answers n st1 = fdc.dec_all answers ?es st0"
    by (simp add: remove_cage_from_fdtable_def st1_def decrement_all_eq)
  obtain st2 where st2: "fdc.dec_all answers ?es st0 = Returns st2"
    using fdc.dec_all_returns [OF st0(1) size, of answers] decrement_quiet [OF assms(5)] by blast
  from fdc.dec_all_outcomes [OF st0(1) size, of answers] st2 have
    res: "fdcount st2 = counts_of ?M" "close_calls st2 = close_calls st0 @ fdc.all_say st0 ?M ?es" "fdtable st2 = fdtable st0"
    by auto
  have kept: "set (map open_file ?es) \<subseteq> set_mset ?M"
    using files_remove [of "fdtable st" s row] assms(2) by (auto simp: row_files_def)
  have "\<exists>ch e m. closehandlertable st (fdkind e) = Some ch \<and> 0 < m \<and> call = Close_Call (intermediate_close ch) e (of_nat m)"
    if told: "call \<in> set (fdc.all_say st0 ?M ?es)" for call
  proof -
    obtain e m where m: "0 < m" "call \<in> set (close_report st0 e m)" using fdc.all_say_kept [OF kept told] by blast
    then obtain ch where "closehandlertable st (fdkind e) = Some ch" "call = Close_Call (intermediate_close ch) e (of_nat m)"
      using st0(3) by (cases "closehandlertable st (fdkind e)") (simp_all add: close_report_def)
    then show ?thesis using m(1) by blast
  qed
  then show ?thesis
    using copy remove st2 res st0 ok(2)
    by (intro exI [of _ st1] exI [of _ st2] exI [of _ "fdc.all_say st0 ?M ?es"]) (simp add: st1_def)
qed

text \<open>After \<^verbatim>\<open>exec\<close> exactly the descriptors without the flag are left.\<close>

lemma exec_keeps:
  assumes "fdtables_ok st" and "fdtable st c = Some row" and "empty_fds_for_exec answers c st = Returns st'"
  shows "fdtable st' = (fdtable st)(c \<mapsto> map kept_slot row)"
proof -
  let ?es = "filter should_cloexec (open_entries row)" and ?T = "(fdtable st)(c \<mapsto> map kept_slot row)"
  have ok: "fd_shape (fdtable st)" "fdcount st = counts_of (files_of (fdtable st))" using assms(1) by (simp_all add: fdtables_ok_def)
  have "files_of (fdtable st) = mset (map open_file ?es) + files_of ?T"
    using files_remove [of "fdtable st" c row] assms(2) kept_files [of row] by (simp add: files_upd)
  then have "fdcount (st\<lparr> fdtable := ?T \<rparr>) = counts_of (mset (map open_file ?es) + files_of ?T)" using ok(2) by simp
  moreover have "size (mset (map open_file ?es) + files_of ?T) \<le> 2 ^ 64 - 1"
    using size_files [OF ok(1)] \<open>files_of (fdtable st) = _\<close> by simp
  ultimately show ?thesis
    using assms(3) fdc.dec_all_outcomes [of "st\<lparr> fdtable := ?T \<rparr>" ?es "files_of ?T" answers]
    by (auto simp: exec_eq [OF assms(2)] decrement_all_eq)
qed

text \<open>The bound of \<^verbatim>\<open>get_specific_virtual_fd\<close> is off by one, and setting a flag has none: the number just
  past the table and any number past it panic instead of being refused.\<close>

lemma get_specific_past_the_end:
  assumes "fdtables_ok st" and "fdtable st c \<noteq> None"
  shows "get_specific_virtual_fd answers c 1024 kind ufd cloexec info st = Panic ''index out of bounds''"
  using assms fd_shapeD [of "fdtable st" c]
  by (auto simp: get_specific_virtual_fd_def fdtables_ok_def FD_PER_PROCESS_MAX_def)

lemma set_cloexec_past_the_end:
  assumes "fdtables_ok st" and "fdtable st c \<noteq> None" and "FD_PER_PROCESS_MAX \<le> fd"
  shows "set_cloexec c fd b st = Panic ''index out of bounds''"
  using assms fd_shapeD [of "fdtable st" c]
  by (auto simp: set_cloexec_def change_entry_def Let_def fdtables_ok_def word_le_nat_alt)

section \<open>An instance\<close>

definition one_open :: FDTableEntry where
  "one_open = \<lparr> fdkind = 0, underfd = 10, should_cloexec = False, perfdinfo = 0 \<rparr>"

definition demo_fds :: fdtables where
  "demo_fds = \<lparr> fdtable = [1 \<mapsto> Some one_open # replicate 1023 None], fdcount = [(0, 10) \<mapsto> 1],
     closehandlertable = [0 \<mapsto> \<lparr> intermediate_close = 500, last_close = 600 \<rparr>], close_calls = [] \<rparr>"

lemma demo_fds_ok: "fdtables_ok demo_fds"
proof -
  have "files_of [1 \<mapsto> Some one_open # replicate 1023 None] = {#(0, 10)#}"
    by (simp add: files_new [of Map.empty] files_of_def [of Map.empty] one_open_def open_file_def)
  then show ?thesis
    by (auto simp: fdtables_ok_def demo_fds_def fd_shape_def MAX_CAGEID_def FD_PER_PROCESS_MAX_def counts_of_def fun_eq_iff split: if_split_asm)
qed

lemma demo_slots: "slot demo_fds 1 0 = Some one_open" "slot demo_fds 1 1 = None" "fdtable demo_fds 1 \<noteq> None"
    "closehandlertable demo_fds (fdkind one_open) = Some \<lparr> intermediate_close = 500, last_close = 600 \<rparr>"
  by (simp_all add: slot_def demo_fds_def one_open_def)

theorem fd_counts_exact_witness:
  "list_all cage_numbers [Init 1, Unused 1 0 10 False 0, Fork 1 2, Close 2 0]
   \<and> (case fd_run (\<lambda>_. None) [Init 1, Unused 1 0 10 False 0, Fork 1 2, Close 2 0] no_fdtables of
        Returns st \<Rightarrow> (\<forall>k. fdcount st k = (if users st k = {} then None else Some (of_nat (card (users st k)))))
      | Panic why \<Rightarrow> why \<notin> {''FDCOUNT get failed'', ''FDCOUNT underflow''})"
proof -
  have "list_all cage_numbers [Init 1, Unused 1 0 10 False 0, Fork 1 2, Close 2 0]"
    by (simp add: cage_numbers_def MAX_CAGEID_def)
  from fd_counts_exact [OF this, of "\<lambda>_. None"] this show ?thesis by (rule conjI [rotated])
qed

theorem close_virtualfd_reports_witness:
  "\<exists>st'. close_virtualfd (\<lambda>_. Some 5) 1 0 demo_fds = Returns (Inl 5, st') \<and> slot st' 1 0 = None"
  using close_virtualfd_reports [of demo_fds 1 0 one_open _ "\<lambda>_. Some 5", OF demo_fds_ok _ demo_slots(4)] demo_slots(1) by auto

theorem unused_fd_lowest_witness:
  "\<exists>fd st'. get_unused_virtual_fd_from_startfd 1 3 44 True 0 0 demo_fds = Returns (Inr fd, st') \<and> slot demo_fds 1 (unat fd) = None"
proof -
  have "\<not> (\<forall>i. unat (0 :: u64) \<le> i \<and> i < unat FD_PER_PROCESS_MAX \<longrightarrow> slot demo_fds 1 i \<noteq> None)"
    using demo_slots(2) by (auto simp: FD_PER_PROCESS_MAX_def intro!: exI [of _ "1 :: nat"])
  then show ?thesis using unused_fd_lowest [OF demo_fds_ok demo_slots(3), of 3 44 True 0 0] by blast
qed

theorem fork_then_exit_witness:
  "\<exists>st1 st2. copy_fdtable_for_cage 1 2 demo_fds = Returns st1 \<and> remove_cage_from_fdtable (\<lambda>_. None) 2 st1 = Returns st2
     \<and> fdcount st2 = fdcount demo_fds"
  using fork_then_exit [OF demo_fds_ok, of 1 "Some one_open # replicate 1023 None" 2 "\<lambda>_. None"]
  by (fastforce simp: demo_fds_def MAX_CAGEID_def)

end
