(* ===== verification/Spec2Isabelle.thy ===== *)
theory Spec2Isabelle
  imports Pipeline Qsort_Correct Lind_Break Lind_Msg Lind_Setjmp Lind_Start Threei_Copy Fd_Table
begin

text \<open>
  Library interposition for lind-wasm.

  \<^bold>\<open>The program.\<close> lind-wasm runs programs as WebAssembly modules in \<^emph>\<open>cages\<close>. A \<^emph>\<open>grate\<close> is a cage that
  interposes calls of other cages. To interpose a library function, four parts work together. The
  tool \<^verbatim>\<open>marshal-infer\<close> (\<^verbatim>\<open>src/tools/marshal-infer/src\<close>) reads the LLVM IR and the debug information of
  the library and writes, as JSON, how each argument and result has to be carried over. The
  generator \<^verbatim>\<open>gen_grate.py\<close> (\<^verbatim>\<open>src/tools/marshal-gen\<close>) turns that document into the C tables of a
  grate. The marshalling runtime \<^verbatim>\<open>lind_marshal.h\<close> (\<^verbatim>\<open>src/tests/grate-tests/lib-interpose\<close>) copies the
  arguments into the grate along such a table, calls the handler and copies the results back. The C
  library of a cage (\<^verbatim>\<open>src/src/glibc\<close>) and the host functions of the runtime
  (\<^verbatim>\<open>src/src/wasmtime/crates/lind-common\<close>) carry the calls out.

  \<^bold>\<open>The tool.\<close> \<open>ParamTree\<close> has the nodes and forests of \<^verbatim>\<open>ParamTree.h\<close> and the DWARF unfolder of
  \<^verbatim>\<open>ParamTree.cpp\<close> (\<open>buildTreeFromDIType\<close>, \<open>buildFunctionTrees\<close>); \<open>Annotations\<close> the tables of
  \<^verbatim>\<open>Annotations.cpp\<close> and the merge of an annotations file. \<open>IR_View\<close> is the LLVM IR as \<^verbatim>\<open>Infer.cpp\<close> asks
  for it: a record \<open>llfun\<close> of accessor functions, which stand for LLVM. \<^verbatim>\<open>Infer.cpp\<close> itself is
  modelled function by function, under the names it gives them: the def-use searches in
  \<open>Value_Trace\<close>, the access analysis in \<open>Access\<close>, the annotation of records in \<open>Composite\<close>, variadic
  functions in \<open>Variadic\<close>, and the ABI lowering, the classification of returns and \<open>inferFunction\<close> in
  \<open>Infer\<close>. \<open>Seen_Search\<close> has the contracts of the searches as locales (a depth-first search with a
  seen set, two worklist loops), interpreted on each search where it is defined. \<open>Emit\<close> has the
  printers of \<^verbatim>\<open>main.cpp\<close> character by character and the JSON grammar their output is read by, \<open>Driver\<close>
  the collection of records and \<^verbatim>\<open>main\<close>. The lemmas show that the searches decide reachability in the
  def-use graph, that the inference returns and marks no function for marshalling with a pointer
  that has no size or no direction, that the argument list is the raw slots of the call, and that the text denotes the
  document of the records.

  \<^bold>\<open>The generator.\<close> \<open>Gen_Grate\<close> has \<open>is_marshalable\<close>, the class \<open>Emitter\<close> and the table of \<^verbatim>\<open>main\<close>; C
  initialisers are lists of designators. It also has what a C compiler makes of the declarations
  (\<open>read_decls\<close>, \<open>read_function\<close>) and what the document says directly (\<open>doc_function\<close>).
  \<open>Gen_Grate_Correct\<close> shows that the two agree, by showing for each step of the emitter that
  what it adds can be read and keeps what was there.

  \<^bold>\<open>The marshalling runtime.\<close> \<open>Byte_Memory\<close> is linear memory, shared with the C library.
  \<open>Marshal_Memory\<close> has the two cages of a call, the arena, the copies and the handle table (a bounded
  map, by interpretation of the locale \<open>keyed_store\<close>), \<open>Marshal_Call\<close> the specifications, the walk
  before the call, the copies back, the translation of the result and \<open>marshal_dispatch\<close>. A run
  either returns or aborts; the handler is a parameter. The lemmas show what each step may
  write, that no caller address reaches the handler, and that a call with flat buffers is a call on
  private copies. \<open>Pipeline\<close> and this theory compose the parts: from the modules to the calls.

  \<^bold>\<open>The C library.\<close> \<open>Qsort\<close> has both copies of the sorting routines in memory, \<open>Sort_Spec\<close> the
  contracts and the reference algorithms on lists, \<open>Qsort_Correct\<close> the refinement. \<open>Lind_Syscall\<close> is the
  system-call layer (address translation, errno protocol, the calls for grates), \<open>Lind_Break\<close> has
  \<^verbatim>\<open>brk\<close>, \<^verbatim>\<open>sbrk\<close> and \<^verbatim>\<open>mmap\<close>, \<open>Lind_Msg\<close> the scatter and gather calls, \<open>Lind_Setjmp\<close> the table of
  non-local jumps, \<open>Lind_Environ\<close> the host side and \<open>Lind_Start\<close> the guest side of program start.

  \<^bold>\<open>The router.\<close> \<^verbatim>\<open>3i\<close> (\<^verbatim>\<open>src/src/threei/src\<close>) carries a call from a cage to its handler. \<open>Handler_Table\<close> has
  both implementations of the table of handlers, \<^verbatim>\<open>hashmap_impl.rs\<close> and \<^verbatim>\<open>dashmap_impl.rs\<close>, and the table
  of library handlers; the locale \<open>handler_store\<close> is their contract, interpreted on both, and every
  sequence of operations refines the abstract routing \<open>route_step\<close>. \<open>Threei\<close> has the global tables of
  \<^verbatim>\<open>threei.rs\<close> as one record, registration, \<open>make_syscall\<close>, \<open>dispatch_lib_call\<close>, the exit of a cage and
  the relay of errno, \<open>Threei_Copy\<close> the copy between cages on the memory of the host, down to the
  addresses that the system-call layer of the C library passes. The lemmas show that a registered
  call reaches its grate and no other route changes, that an exit leaves no route, and that a copy
  moves exactly the bytes asked for or nothing.

  \<^bold>\<open>File descriptors.\<close> \<open>Fd_Table\<close> has the tables of \<^verbatim>\<open>src/src/fdtables/src/dashmaparrayglobal.rs\<close>: the
  descriptors of each cage, the number of references to each open file over all cages, and the
  handlers told of a close. The locale \<open>ref_counter\<close> is the contract of the counts against a multiset of
  references, interpreted on \<open>increment_fdcount\<close> and \<open>decrement_fdcount\<close>; every sequence of operations keeps
  the counts exact.

  \<^bold>\<open>Parameters.\<close> Not in the sources and therefore arguments of the definitions: the answers of LLVM
  and of the debug information, the contents of files and the parser of annotation files, the
  allocator, the comparison of a sort, \<^verbatim>\<open>main\<close>, the handler of a grate, the host's answers to system
  calls and to access checks, the functions and trampolines that the router calls by address, the answers of
  close handlers, Python's \<^verbatim>\<open>hash\<close>. What is assumed of them stands in the properties.

  \<^bold>\<open>Loops and bounds.\<close> Loops that a cyclic input could keep running are \<open>partial_function (option)\<close>;
  that they return is proved under well-foundedness of casts and type qualifiers, which the
  properties name. The unfolder has the depth cap 6 of the source. No other definition has fuel; the
  searches recurse on the number of unseen values. Machine words are words, or numbers with the
  wrap-around written out.

  \<^bold>\<open>Not modelled.\<close> The upstream C library and the WebAssembly engine (third-party code of about two
  million lines), the forwarding of system calls to the host kernel, the
  descriptor sets of select, poll and epoll, the memory maps of the cages (interval maps of a third-party package, whose answers are the access checks
  above), the life cycle of cages outside the router, the interleaving of calls of several threads (each operation of the
  router runs by itself, as under its lock), the fixed text of the C templates, debug output,
  build scripts and tests.
\<close>

section \<open>From the modules to the running grate\<close>


section \<open>A run from the module to the grate\<close>

text \<open>A module with the function \<^verbatim>\<open>void put(int *p) { *p = 0; }\<close>.\<close>

definition put_fun :: llfun where
  "put_fun = (list_fun [(VArgument 0, TyPtr), (VConstInt 0, TyInt 32), (IStore 1 0, TyVoid), (IReturn None, TyVoid)]
       [plain_arg 0] TyVoid)
     \<lparr> ll_dwarf := list_dwarf(5 := (list_dwarf 3)\<lparr> di_baseType := Some 4 \<rparr>),
       ll_subprogram := Some \<lparr> sp_name = ''put'', sp_types = Some [None, Some 5] \<rparr>, ll_allocSize := (\<lambda>_. 4) \<rparr>"

definition put_module :: ir_module where
  "put_module = \<lparr> md_functions = [\<lparr> fn_name = ''put'', fn_declaration = False, fn_local = False, fn_ir = put_fun \<rparr>],
     md_aliases = [] \<rparr>"

lemma put_run:
  "map_option (\<lambda>(records, names). (list_all (\<lambda>ft. list_all offsets_ok (params ft)) records,
       map fst (fst (gen_grate (\<lambda>s. int (length s)) [] (records_doc ''libput'' records)))))
     (collect default_annotations False None [Some put_module]) = Some (True, [''put''])"
  by code_simp


end
